(* ===== verification/Prelude.thy ===== *)
theory Prelude
  imports Main "HOL-Library.Word"
begin

text \<open>
  Shared vocabulary of the development: the machine integers of the C++ sources, and the
  generic facts on words, lists and folds that the components use.  Unsigned integers are
  words of their width, so that arithmetic wraps exactly where the code wraps.  Signed
  integers (\<^verbatim>\<open>int\<close>, \<^verbatim>\<open>int64_t\<close>, \<^verbatim>\<open>CAmount\<close>) are \<^typ>\<open>int\<close>: signed overflow is undefined behaviour
  in C++, so the components state the ranges in which their signed arithmetic stays.
\<close>

unbundle bit_operations_syntax

type_synonym u8 = "8 word"
type_synonym u16 = "16 word"
type_synonym u32 = "32 word"
type_synonym u64 = "64 word"
type_synonym bytes = "8 word list"

named_theorems word_conv \<open>reading a word operation as arithmetic on natural numbers\<close>

subsection \<open>C++ division of signed integers\<close>

text \<open>The operators \<^verbatim>\<open>/\<close> and \<^verbatim>\<open>%\<close> on signed operands truncate towards zero.\<close>

definition cdiv :: "int \<Rightarrow> int \<Rightarrow> int" where
  "cdiv a b = sgn a * sgn b * (\<bar>a\<bar> div \<bar>b\<bar>)"

definition cmod :: "int \<Rightarrow> int \<Rightarrow> int" where
  "cmod a b = a - b * cdiv a b"

lemma cdiv_nonneg [simp]: "0 \<le> a \<Longrightarrow> 0 < b \<Longrightarrow> cdiv a b = a div b"
  by (cases "a = 0") (simp_all add: cdiv_def)

lemma cmod_nonneg [simp]: "0 \<le> a \<Longrightarrow> 0 < b \<Longrightarrow> cmod a b = a mod b"
  by (simp add: cmod_def minus_mult_div_eq_mod)

subsection \<open>Conversions between word widths\<close>

lemma unat_ucast_up:
  "LENGTH('a::len) \<le> LENGTH('b::len) \<Longrightarrow> unat (ucast (x :: 'a word) :: 'b word) = unat x"
  by (simp add: unsigned_ucast_eq take_bit_nat_eq_self order_less_le_trans [OF unsigned_less])

lemma unat_ucast_u32_u64 [simp, word_conv]: "unat (ucast (x :: u32) :: u64) = unat x"
  by (simp add: unat_ucast_up)

lemma unat_ucast_u64_u32 [word_conv]: "unat (ucast (x :: u64) :: u32) = unat x mod 2 ^ 32"
  by (simp add: unsigned_ucast_eq take_bit_eq_mod)

lemma unat_ucast_u8_u32 [simp, word_conv]: "unat (ucast (x :: u8) :: u32) = unat x"
  by (simp add: unat_ucast_up)

lemma unat_ucast_u8_u64 [simp, word_conv]: "unat (ucast (x :: u8) :: u64) = unat x"
  by (simp add: unat_ucast_up)

lemma unat_drop_bit_div [word_conv]: "unat (drop_bit n (x :: 'a::len word)) = unat x div 2 ^ n"
  by (metis unat_drop_bit_eq drop_bit_eq_div)

lemma and_low32 [word_conv]: "(x :: u64) AND 0xffffffff = take_bit 32 x"
  by (simp add: take_bit_eq_mask mask_eq_exp_minus_1)

lemma unat_take_bit_mod [word_conv]: "unat (take_bit n (x :: 'a::len word)) = unat x mod 2 ^ n"
  by (metis unsigned_take_bit_eq take_bit_eq_mod)

lemma unat_u8_less [simp]: "unat (x :: u8) < 256"
  using unsigned_less [of x] by simp

lemma unat_u32_less [simp]: "unat (x :: u32) < 2 ^ 32"
  using unsigned_less [of x] by simp

lemma unat_u64_less [simp]: "unat (x :: u64) < 2 ^ 64"
  using unsigned_less [of x] by simp

lemma unat_add_small:
  "unat a + unat b < 2 ^ LENGTH('a) \<Longrightarrow> unat (a + b :: 'a::len word) = unat a + unat b"
  using unat_add_lem by blast

lemma unat_mult_small:
  "unat a * unat b < 2 ^ LENGTH('a) \<Longrightarrow> unat (a * b :: 'a::len word) = unat a * unat b"
  using unat_mult_lem by blast

subsection \<open>Number of significant bits\<close>

text \<open>The position of the highest set bit plus one; zero for zero.\<close>

fun bit_len :: "nat \<Rightarrow> nat" where
  "bit_len n = (if n = 0 then 0 else Suc (bit_len (n div 2)))"

declare bit_len.simps [simp del]

lemma bit_len_0 [simp]: "bit_len 0 = 0"
  by (simp add: bit_len.simps)

lemma bit_len_pos: "0 < n \<Longrightarrow> bit_len n = Suc (bit_len (n div 2))"
  by (subst bit_len.simps) simp

lemma less_power_bit_len: "n < 2 ^ bit_len n"
proof (induction n rule: bit_len.induct)
  case (1 n)
  show ?case
  proof (cases "n = 0")
    case False
    with 1 have "n div 2 < 2 ^ bit_len (n div 2)" by simp
    then show ?thesis using False by (simp add: bit_len_pos)
  qed simp
qed

lemma power_bit_len_le: "0 < n \<Longrightarrow> 2 ^ (bit_len n - 1) \<le> n"
proof (induction n rule: bit_len.induct)
  case (1 n)
  show ?case
  proof (cases "n div 2 = 0")
    case True
    with 1 show ?thesis by (simp add: bit_len_pos)
  next
    case False
    with 1 have "2 ^ (bit_len (n div 2) - 1) \<le> n div 2" by simp
    moreover have "bit_len (n div 2) > 0" using False by (simp add: bit_len_pos)
    then have "2 * 2 ^ (bit_len (n div 2) - 1) = (2::nat) ^ bit_len (n div 2)"
      by (simp flip: power_Suc)
    ultimately show ?thesis using 1 by (simp add: bit_len_pos)
  qed
qed

lemma bit_len_unique: "2 ^ k \<le> n \<Longrightarrow> n < 2 ^ Suc k \<Longrightarrow> bit_len n = Suc k"
proof -
  assume a: "2 ^ k \<le> n" "n < 2 ^ Suc k"
  then have "0 < n" by (metis gr0I not_le zero_less_numeral zero_less_power)
  then have b: "2 ^ (bit_len n - 1) \<le> n" "bit_len n > 0"
    by (rule power_bit_len_le, simp add: bit_len_pos)
  have "k < bit_len n" using a(1) less_power_bit_len by (metis order_le_less_trans power_less_imp_less_exp one_less_numeral_iff semiring_norm(76))
  moreover have "bit_len n - 1 < Suc k" using a(2) b(1) by (metis order_le_less_trans power_less_imp_less_exp one_less_numeral_iff semiring_norm(76))
  ultimately show ?thesis using b(2) by simp
qed

lemma bit_len_le_iff: "bit_len n \<le> k \<longleftrightarrow> n < 2 ^ k"
proof
  assume "bit_len n \<le> k"
  then show "n < 2 ^ k" by (meson less_power_bit_len order_less_le_trans one_le_numeral power_increasing)
next
  assume h: "n < 2 ^ k"
  show "bit_len n \<le> k"
  proof (cases "n = 0")
    case False
    then have "2 ^ (bit_len n - 1) < (2::nat) ^ k" using h power_bit_len_le by (meson neq0_conv order_le_less_trans)
    then show ?thesis using power_less_imp_less_exp by force
  qed simp
qed

end
