(* ===== verification/Endian.thy ===== *)
theory Endian
  imports Prelude
begin

text \<open>
  \<^verbatim>\<open>src/src/crypto/common.h\<close>: reading and writing 16, 32 and 64-bit integers in little and big endian
  byte order.  The source copies the bytes of a host integer after swapping it to the wanted
  order, so the result is the byte list below on every host.
\<close>

text \<open>The bytes of a word, least significant first, and the number a byte list stands for.\<close>

definition le_bytes :: "nat \<Rightarrow> 'a::len word \<Rightarrow> bytes" where
  "le_bytes k x = map (\<lambda>i. ucast (drop_bit (8 * i) x)) [0..<k]"

primrec le_val :: "bytes \<Rightarrow> nat" where
  "le_val [] = 0"
| "le_val (b # bs) = unat b + 256 * le_val bs"

definition ReadLE16 :: "bytes \<Rightarrow> u16" where
  "ReadLE16 ptr = word_of_nat (le_val (take 2 ptr))"

definition ReadLE32 :: "bytes \<Rightarrow> u32" where
  "ReadLE32 ptr = word_of_nat (le_val (take 4 ptr))"

definition ReadLE64 :: "bytes \<Rightarrow> u64" where
  "ReadLE64 ptr = word_of_nat (le_val (take 8 ptr))"

definition WriteLE16 :: "u16 \<Rightarrow> bytes" where
  "WriteLE16 x = le_bytes 2 x"

definition WriteLE32 :: "u32 \<Rightarrow> bytes" where
  "WriteLE32 x = le_bytes 4 x"

definition WriteLE64 :: "u64 \<Rightarrow> bytes" where
  "WriteLE64 x = le_bytes 8 x"

definition ReadBE16 :: "bytes \<Rightarrow> u16" where
  "ReadBE16 ptr = word_of_nat (le_val (rev (take 2 ptr)))"

definition ReadBE32 :: "bytes \<Rightarrow> u32" where
  "ReadBE32 ptr = word_of_nat (le_val (rev (take 4 ptr)))"

definition ReadBE64 :: "bytes \<Rightarrow> u64" where
  "ReadBE64 ptr = word_of_nat (le_val (rev (take 8 ptr)))"

definition WriteBE32 :: "u32 \<Rightarrow> bytes" where
  "WriteBE32 x = rev (le_bytes 4 x)"

definition WriteBE64 :: "u64 \<Rightarrow> bytes" where
  "WriteBE64 x = rev (le_bytes 8 x)"

lemma length_le_bytes [simp]: "length (le_bytes k x) = k"
  by (simp add: le_bytes_def)

lemma le_val_append: "le_val (xs @ ys) = le_val xs + 256 ^ length xs * le_val ys"
  by (induction xs) (simp_all add: algebra_simps)

lemma unat_ucast_byte: "unat (ucast (x :: 'a::len word) :: u8) = unat x mod 256"
  by (simp add: unsigned_ucast_eq take_bit_eq_mod)

lemma le_val_le_bytes: "le_val (le_bytes k x) = unat x mod 256 ^ k"
proof (induction k)
  case (Suc k)
  have "le_bytes (Suc k) x = le_bytes k x @ [ucast (drop_bit (8 * k) x)]" by (simp add: le_bytes_def)
  then have "le_val (le_bytes (Suc k) x) = unat x mod 256 ^ k + 256 ^ k * ((unat x div 2 ^ (8 * k)) mod 256)"
    using Suc by (simp add: le_val_append unat_ucast_byte unat_drop_bit_div)
  also have "(2::nat) ^ (8 * k) = 256 ^ k" by (simp add: power_mult)
  finally show ?case by (simp add: mod_mult2_eq mult.commute [of 256])
qed (simp add: le_bytes_def)

lemma le_val_less: "le_val bs < 256 ^ length bs"
proof (induction bs)
  case (Cons b bs)
  have "unat b + 256 * le_val bs < 256 + 256 * le_val bs" by simp
  also have "\<dots> \<le> 256 * 256 ^ length bs" using Cons.IH by simp
  finally show ?case by simp
qed simp

lemma word_of_le_val_le_bytes:
  "LENGTH('a::len) \<le> 8 * k \<Longrightarrow> word_of_nat (le_val (le_bytes k x)) = (x :: 'a word)"
proof -
  assume "LENGTH('a) \<le> 8 * k"
  then have "2 ^ LENGTH('a) \<le> (2::nat) ^ (8 * k)" by (intro power_increasing) simp_all
  moreover have "unat x < 2 ^ LENGTH('a)" by (rule unsigned_less)
  ultimately have "unat x < 2 ^ (8 * k)" by (rule order_less_le_trans [rotated])
  then have "unat x < 256 ^ k" by (simp add: power_mult)
  then show ?thesis by (simp add: le_val_le_bytes)
qed

lemma le_val_inj: "length xs = length ys \<Longrightarrow> le_val xs = le_val ys \<Longrightarrow> xs = ys"
proof (induction xs ys rule: list_induct2)
  case (Cons x xs y ys)
  have h: "unat x + 256 * le_val xs = unat y + 256 * le_val ys" using Cons.prems by simp
  have "(unat x + 256 * le_val xs) mod 256 = (unat y + 256 * le_val ys) mod 256" using h by (simp only:)
  then have xy: "unat x = unat y" by simp
  then show ?case using h Cons.IH by (simp add: word_unat_eq_iff)
qed simp

lemma le_bytes_of_le_val:
  assumes "length bs = k" "LENGTH('a::len) = 8 * k"
  shows "le_bytes k (word_of_nat (le_val bs) :: 'a word) = bs"
proof (rule le_val_inj)
  have "le_val bs < 2 ^ LENGTH('a)" using le_val_less [of bs] assms by (simp add: power_mult)
  then show "le_val (le_bytes k (word_of_nat (le_val bs) :: 'a word)) = le_val bs"
    using le_val_less [of bs] assms(1) by (simp add: le_val_le_bytes unat_of_nat)
qed (simp add: assms)

named_theorems endian_rt \<open>a value read back from the bytes it was written to\<close>

lemma ReadLE16_WriteLE16 [simp, endian_rt]: "ReadLE16 (WriteLE16 x @ rest) = x"
  by (simp add: ReadLE16_def WriteLE16_def word_of_le_val_le_bytes)

lemma ReadLE32_WriteLE32 [simp, endian_rt]: "ReadLE32 (WriteLE32 x @ rest) = x"
  by (simp add: ReadLE32_def WriteLE32_def word_of_le_val_le_bytes)

lemma ReadLE64_WriteLE64 [simp, endian_rt]: "ReadLE64 (WriteLE64 x @ rest) = x"
  by (simp add: ReadLE64_def WriteLE64_def word_of_le_val_le_bytes)

lemma ReadBE32_WriteBE32 [simp, endian_rt]: "ReadBE32 (WriteBE32 x @ rest) = x"
  by (simp add: ReadBE32_def WriteBE32_def word_of_le_val_le_bytes)

lemma ReadBE64_WriteBE64 [simp, endian_rt]: "ReadBE64 (WriteBE64 x @ rest) = x"
  by (simp add: ReadBE64_def WriteBE64_def word_of_le_val_le_bytes)

lemma length_Write [simp]:
  "length (WriteLE16 x) = 2" "length (WriteLE32 y) = 4" "length (WriteLE64 z) = 8"
  "length (WriteBE32 y) = 4" "length (WriteBE64 z) = 8"
  by (simp_all add: WriteLE16_def WriteLE32_def WriteLE64_def WriteBE32_def WriteBE64_def)

end
