(* ===== verification/Arith_Uint256.thy ===== *)
theory Arith_Uint256
  imports Endian
begin

text \<open>
  \<^verbatim>\<open>src/src/arith_uint256.{h,cpp}\<close>: the 256-bit unsigned integers in which difficulty targets and
  chain work are computed.  A \<^verbatim>\<open>base_uint<BITS>\<close> is its array \<^verbatim>\<open>pn\<close> of 32-bit limbs, least
  significant first; \<^verbatim>\<open>WIDTH\<close> is the length of the list, 8 for \<^verbatim>\<open>arith_uint256\<close>.  Every operator is
  the loop of the source over the limbs with its 64-bit intermediate values; the lemmas relate
  each one to arithmetic on the natural number \<open>limbs_val pn\<close> that the limbs stand for.
\<close>

type_synonym base_uint = "u32 list"

definition WIDTH :: nat where
  "WIDTH = 8"

subsection \<open>Constructors and bitwise operators\<close>

definition base_uint_default :: base_uint where
  "base_uint_default = replicate WIDTH 0"

definition base_uint_of_u64 :: "u64 \<Rightarrow> base_uint" where
  "base_uint_of_u64 b = ucast b # ucast (drop_bit 32 b) # replicate (WIDTH - 2) 0"

definition base_uint_not :: "base_uint \<Rightarrow> base_uint" where
  "base_uint_not pn = map (\<lambda>x. NOT x) pn"

definition base_uint_xor :: "base_uint \<Rightarrow> base_uint \<Rightarrow> base_uint" where
  "base_uint_xor pn b = map2 (XOR) pn b"

definition base_uint_and :: "base_uint \<Rightarrow> base_uint \<Rightarrow> base_uint" where
  "base_uint_and pn b = map2 (AND) pn b"

definition base_uint_or :: "base_uint \<Rightarrow> base_uint \<Rightarrow> base_uint" where
  "base_uint_or pn b = map2 (OR) pn b"

subsection \<open>Carry loops\<close>

fun base_uint_inc :: "base_uint \<Rightarrow> base_uint" where
  "base_uint_inc [] = []"
| "base_uint_inc (p # pn) = (if p + 1 = 0 then (p + 1) # base_uint_inc pn else (p + 1) # pn)"

fun base_uint_dec :: "base_uint \<Rightarrow> base_uint" where
  "base_uint_dec [] = []"
| "base_uint_dec (p # pn) = (if p - 1 = 0xffffffff then (p - 1) # base_uint_dec pn else (p - 1) # pn)"

fun add_loop :: "u64 \<Rightarrow> base_uint \<Rightarrow> base_uint \<Rightarrow> base_uint" where
  "add_loop carry (p # pn) (q # b) =
     (let n = carry + ucast p + ucast q
      in ucast (n AND 0xffffffff) # add_loop (drop_bit 32 n) pn b)"
| "add_loop carry pn b = []"

definition base_uint_add :: "base_uint \<Rightarrow> base_uint \<Rightarrow> base_uint" where
  "base_uint_add pn b = add_loop 0 pn b"

definition base_uint_neg :: "base_uint \<Rightarrow> base_uint" where
  "base_uint_neg pn = base_uint_inc (map (\<lambda>x. NOT x) pn)"

definition base_uint_sub :: "base_uint \<Rightarrow> base_uint \<Rightarrow> base_uint" where
  "base_uint_sub pn b = base_uint_add pn (base_uint_neg b)"

definition base_uint_add64 :: "base_uint \<Rightarrow> u64 \<Rightarrow> base_uint" where
  "base_uint_add64 pn b64 = base_uint_add pn (base_uint_of_u64 b64)"

definition base_uint_sub64 :: "base_uint \<Rightarrow> u64 \<Rightarrow> base_uint" where
  "base_uint_sub64 pn b64 = base_uint_add pn (base_uint_neg (base_uint_of_u64 b64))"

fun mul32_loop :: "u64 \<Rightarrow> u32 \<Rightarrow> base_uint \<Rightarrow> base_uint" where
  "mul32_loop carry b32 [] = []"
| "mul32_loop carry b32 (p # pn) =
     (let n = carry + ucast b32 * ucast p
      in ucast (n AND 0xffffffff) # mul32_loop (drop_bit 32 n) b32 pn)"

definition base_uint_mul32 :: "base_uint \<Rightarrow> u32 \<Rightarrow> base_uint" where
  "base_uint_mul32 pn b32 = mul32_loop 0 b32 pn"

text \<open>
  The inner loop of \<^verbatim>\<open>operator*=\<close> walks \<^verbatim>\<open>a.pn[j], a.pn[j+1], \<dots>\<close> beside \<^verbatim>\<open>b.pn[0], b.pn[1], \<dots>\<close> and
  stops at the end of \<^verbatim>\<open>a\<close>; the outer loop runs over the limbs of the left operand.
\<close>

fun mul_inner :: "u64 \<Rightarrow> u32 \<Rightarrow> base_uint \<Rightarrow> base_uint \<Rightarrow> base_uint" where
  "mul_inner carry pj (x # a) (y # b) =
     (let n = carry + ucast x + ucast pj * ucast y
      in ucast (n AND 0xffffffff) # mul_inner (drop_bit 32 n) pj a b)"
| "mul_inner carry pj a b = []"

definition mul_outer :: "base_uint \<Rightarrow> base_uint \<Rightarrow> nat \<Rightarrow> base_uint \<Rightarrow> base_uint" where
  "mul_outer pn b j a = take j a @ mul_inner 0 (pn ! j) (drop j a) b"

definition base_uint_mul :: "base_uint \<Rightarrow> base_uint \<Rightarrow> base_uint" where
  "base_uint_mul pn b = fold (mul_outer pn b) [0..<length pn] (replicate (length pn) 0)"

subsection \<open>Shifts\<close>

definition shl_step :: "nat \<Rightarrow> nat \<Rightarrow> base_uint \<Rightarrow> nat \<Rightarrow> base_uint \<Rightarrow> base_uint" where
  "shl_step k shift a i pn =
     (let pn1 = (if i + k + 1 < length a \<and> shift \<noteq> 0
                 then pn[i + k + 1 := pn ! (i + k + 1) OR drop_bit (32 - shift) (a ! i)] else pn)
      in if i + k < length a then pn1[i + k := pn1 ! (i + k) OR push_bit shift (a ! i)] else pn1)"

definition base_uint_shl :: "base_uint \<Rightarrow> nat \<Rightarrow> base_uint" where
  "base_uint_shl a shift =
     fold (shl_step (shift div 32) (shift mod 32) a) [0..<length a] (replicate (length a) 0)"

definition shr_step :: "nat \<Rightarrow> nat \<Rightarrow> base_uint \<Rightarrow> nat \<Rightarrow> base_uint \<Rightarrow> base_uint" where
  "shr_step k shift a i pn =
     (let pn1 = (if i \<ge> k + 1 \<and> shift \<noteq> 0
                 then pn[i - k - 1 := pn ! (i - k - 1) OR push_bit (32 - shift) (a ! i)] else pn)
      in if i \<ge> k then pn1[i - k := pn1 ! (i - k) OR drop_bit shift (a ! i)] else pn1)"

definition base_uint_shr :: "base_uint \<Rightarrow> nat \<Rightarrow> base_uint" where
  "base_uint_shr a shift =
     fold (shr_step (shift div 32) (shift mod 32) a) [0..<length a] (replicate (length a) 0)"

subsection \<open>Comparison and bit length\<close>

fun compare_loop :: "nat \<Rightarrow> base_uint \<Rightarrow> base_uint \<Rightarrow> int" where
  "compare_loop 0 pn b = 0"
| "compare_loop (Suc i) pn b =
     (if pn ! i < b ! i then - 1 else if pn ! i > b ! i then 1 else compare_loop i pn b)"

definition CompareTo :: "base_uint \<Rightarrow> base_uint \<Rightarrow> int" where
  "CompareTo pn b = compare_loop (length pn) pn b"

definition EqualTo :: "base_uint \<Rightarrow> u64 \<Rightarrow> bool" where
  "EqualTo pn b =
     (if \<exists>i \<in> set [2..<length pn]. pn ! i \<noteq> 0 then False
      else if ucast (pn ! 1) \<noteq> drop_bit 32 b then False
      else if ucast (pn ! 0) \<noteq> b AND 0xffffffff then False
      else True)"

fun nbits_loop :: "nat \<Rightarrow> u32 \<Rightarrow> nat" where
  "nbits_loop 0 p = 1"
| "nbits_loop (Suc nb) p = (if p AND push_bit (Suc nb) 1 \<noteq> 0 then Suc nb + 1 else nbits_loop nb p)"

fun bits_loop :: "nat \<Rightarrow> base_uint \<Rightarrow> nat" where
  "bits_loop 0 pn = 0"
| "bits_loop (Suc pos) pn = (if pn ! pos \<noteq> 0 then 32 * pos + nbits_loop 31 (pn ! pos) else bits_loop pos pn)"

definition base_uint_bits :: "base_uint \<Rightarrow> nat" where
  "base_uint_bits pn = bits_loop (length pn) pn"

definition GetLow64 :: "base_uint \<Rightarrow> u64" where
  "GetLow64 pn = ucast (pn ! 0) OR push_bit 32 (ucast (pn ! 1))"

subsection \<open>Division\<close>

datatype uint_error = DivisionByZero

text \<open>The loop counts \<^verbatim>\<open>shift\<close> down to zero; its first argument is \<^verbatim>\<open>shift + 1\<close>.\<close>

fun div_loop :: "nat \<Rightarrow> base_uint \<Rightarrow> base_uint \<Rightarrow> base_uint \<Rightarrow> base_uint" where
  "div_loop 0 num dv pn = pn"
| "div_loop (Suc shift) num dv pn =
     (if CompareTo num dv \<ge> 0
      then div_loop shift (base_uint_sub num dv) (base_uint_shr dv 1)
             (pn[shift div 32 := pn ! (shift div 32) OR push_bit (shift mod 32) 1])
      else div_loop shift num (base_uint_shr dv 1) pn)"

definition base_uint_div :: "base_uint \<Rightarrow> base_uint \<Rightarrow> uint_error + base_uint" where
  "base_uint_div num b =
     (let num_bits = base_uint_bits num; div_bits = base_uint_bits b in
      if div_bits = 0 then Inl DivisionByZero
      else if div_bits > num_bits then Inr (replicate (length num) 0)
      else let shift = num_bits - div_bits
           in Inr (div_loop (Suc shift) num (base_uint_shl b shift) (replicate (length num) 0)))"

subsection \<open>The compact encoding of targets\<close>

text \<open>\<open>SetCompact\<close> returns the number and the two flags \<^verbatim>\<open>*pfNegative\<close> and \<^verbatim>\<open>*pfOverflow\<close>.\<close>

definition SetCompact :: "u32 \<Rightarrow> base_uint \<times> bool \<times> bool" where
  "SetCompact nCompact =
     (let nSize = unat (drop_bit 24 nCompact);
          nWord0 = nCompact AND 0x007fffff;
          nWord = (if nSize \<le> 3 then drop_bit (8 * (3 - nSize)) nWord0 else nWord0);
          num = (if nSize \<le> 3 then base_uint_of_u64 (ucast nWord)
                 else base_uint_shl (base_uint_of_u64 (ucast nWord)) (8 * (nSize - 3)));
          fNegative = (nWord \<noteq> 0 \<and> nCompact AND 0x00800000 \<noteq> 0);
          fOverflow = (nWord \<noteq> 0 \<and> (nSize > 34 \<or> nWord > 0xff \<and> nSize > 33 \<or> nWord > 0xffff \<and> nSize > 32))
      in (num, fNegative, fOverflow))"

text \<open>
  \<open>GetCompact\<close> returns \<^const>\<open>None\<close> where one of the two assertions of the source would fail.
\<close>

definition GetCompact :: "base_uint \<Rightarrow> bool \<Rightarrow> u32 option" where
  "GetCompact pn fNegative =
     (let nSize = (base_uint_bits pn + 7) div 8;
          nCompact = (if nSize \<le> 3 then ucast (push_bit (8 * (3 - nSize)) (GetLow64 pn))
                      else ucast (GetLow64 (base_uint_shr pn (8 * (nSize - 3)))) :: u32);
          (nCompact, nSize) = (if nCompact AND 0x00800000 \<noteq> 0 then (drop_bit 8 nCompact, nSize + 1)
                               else (nCompact, nSize))
      in if nCompact AND NOT 0x007fffff \<noteq> 0 then None
         else if \<not> nSize < 256 then None
         else let nCompact = nCompact OR push_bit 24 (word_of_nat nSize)
              in Some (nCompact OR (if fNegative \<and> nCompact AND 0x007fffff \<noteq> 0 then 0x00800000 else 0)))"

subsection \<open>Conversions to and from opaque hashes\<close>

text \<open>A \<^verbatim>\<open>uint256\<close> (\<^verbatim>\<open>base_blob<256>\<close>) is an array of 32 bytes, compared lexicographically by \<^verbatim>\<open>memcmp\<close>.\<close>

type_synonym uint256 = bytes

definition uint256_IsNull :: "uint256 \<Rightarrow> bool" where
  "uint256_IsNull h = list_all (\<lambda>v. v = 0) h"

definition ArithToUint256 :: "base_uint \<Rightarrow> uint256" where
  "ArithToUint256 a = concat (map WriteLE32 a)"

definition UintToArith256 :: "uint256 \<Rightarrow> base_uint" where
  "UintToArith256 a = map (\<lambda>x. ReadLE32 (drop (x * 4) a)) [0..<WIDTH]"

subsection \<open>The number the limbs stand for\<close>


primrec limbs_val :: "base_uint \<Rightarrow> nat" where
  "limbs_val [] = 0"
| "limbs_val (p # pn) = unat p + 2 ^ 32 * limbs_val pn"

lemma limbs_val_append: "limbs_val (xs @ ys) = limbs_val xs + 2 ^ (32 * length xs) * limbs_val ys"
  by (induction xs) (simp_all add: power_add algebra_simps)

lemma limbs_val_replicate_0 [simp]: "limbs_val (replicate n 0) = 0"
  by (induction n) simp_all

lemma limbs_val_bound [simp]: "limbs_val pn < 2 ^ (32 * length pn)"
proof (induction pn)
  case (Cons p pn)
  have "unat p + 2 ^ 32 * limbs_val pn < 2 ^ 32 + 2 ^ 32 * limbs_val pn"
    by (simp only: add_less_cancel_right unat_u32_less)
  also have "\<dots> \<le> 2 ^ 32 * 2 ^ (32 * length pn)"
    using Cons.IH by (metis Suc_leI add.commute mult_Suc_right mult_le_mono2)
  finally show ?case by (simp add: power_add)
qed simp

lemma limbs_val_mod [simp]: "limbs_val pn mod 2 ^ (32 * length pn) = limbs_val pn"
  by simp

lemma limbs_val_inj: "length xs = length ys \<Longrightarrow> limbs_val xs = limbs_val ys \<Longrightarrow> xs = ys"
proof (induction xs ys rule: list_induct2)
  case (Cons x xs y ys)
  have h: "unat x + 2 ^ 32 * limbs_val xs = unat y + 2 ^ 32 * limbs_val ys"
    using Cons.prems by simp
  have "(unat x + 2 ^ 32 * limbs_val xs) mod 2 ^ 32 = (unat y + 2 ^ 32 * limbs_val ys) mod 2 ^ 32"
    using h by (simp only:)
  then have xy: "unat x = unat y" by (metis mod_less mod_mult_self2 unat_u32_less)
  then have "limbs_val xs = limbs_val ys" using h by simp
  then show ?case using Cons.IH xy by (simp add: word_unat_eq_iff)
qed simp

lemma limb_step: "(n :: nat) mod B + B * ((n div B + r) mod M) = (n + B * r) mod (B * M)"
  by (cases "B = 0") (simp_all add: mod_mult2_eq [of _ B M] add.commute)

lemma limb_low: "unat (ucast (n AND 0xffffffff :: u64) :: u32) = unat n mod 2 ^ 32"
  by (simp only: unat_ucast_u64_u32 and_low32 unat_take_bit_mod mod_mod_trivial)

lemma limb_carry:
  "unat (ucast (n AND 0xffffffff :: u64) :: u32) + 2 ^ 32 * ((unat (drop_bit 32 n) + r) mod 2 ^ k)
   = (unat n + 2 ^ 32 * r) mod 2 ^ (32 + k)"
  by (simp only: limb_low unat_drop_bit_div limb_step power_add)

lemma length_add_loop [simp]: "length pn = length b \<Longrightarrow> length (add_loop c pn b) = length pn"
  by (induction c pn b rule: add_loop.induct) (simp_all add: Let_def)

lemma limbs_val_add_loop:
  "length pn = length b \<Longrightarrow> unat c \<le> 1 \<Longrightarrow>
   limbs_val (add_loop c pn b) = (unat c + limbs_val pn + limbs_val b) mod 2 ^ (32 * length pn)"
proof (induction c pn b rule: add_loop.induct)
  case (1 c p pn q b)
  let ?n = "c + ucast p + ucast q :: u64"
  have n: "unat ?n = unat c + unat p + unat q"
    using 1(3) unat_u32_less [of p] unat_u32_less [of q] by (simp add: unat_word_ariths)
  then have c: "unat (drop_bit 32 ?n) \<le> 1"
    using 1(3) unat_u32_less [of p] unat_u32_less [of q] by (simp add: unat_drop_bit_div del: unat_u32_less)
  have "limbs_val (add_loop c (p # pn) (q # b)) = unat (ucast (?n AND 0xffffffff) :: u32)
      + 2 ^ 32 * ((unat (drop_bit 32 ?n) + (limbs_val pn + limbs_val b)) mod 2 ^ (32 * length pn))"
    using 1(1) [OF refl _ c] 1(2) by (simp add: Let_def add.assoc)
  also have "\<dots> = (unat ?n + 2 ^ 32 * (limbs_val pn + limbs_val b)) mod 2 ^ (32 + 32 * length pn)"
    by (rule limb_carry)
  finally show ?case by (simp only: n) (simp add: algebra_simps)
qed simp_all

lemma length_base_uint_add [simp]: "length pn = length b \<Longrightarrow> length (base_uint_add pn b) = length pn"
  by (simp add: base_uint_add_def)

lemma limbs_val_add:
  "length pn = length b \<Longrightarrow>
   limbs_val (base_uint_add pn b) = (limbs_val pn + limbs_val b) mod 2 ^ (32 * length pn)"
  by (simp add: base_uint_add_def limbs_val_add_loop)

lemma unat_minus_1_u32: "p = - 1 \<Longrightarrow> unat (p :: u32) = 2 ^ 32 - 1"
  by (simp add: unsigned_minus_1_eq_mask mask_eq_exp_minus_1)

lemma length_inc [simp]: "length (base_uint_inc pn) = length pn"
  by (induction pn) simp_all

lemma limbs_val_inc: "limbs_val (base_uint_inc pn) = (limbs_val pn + 1) mod 2 ^ (32 * length pn)"
proof (induction pn)
  case (Cons p pn)
  show ?case
  proof (cases "p + 1 = 0")
    case True
    then have p: "unat p = 2 ^ 32 - 1"
      using unat_minus_1_u32 max_word_wrap by blast
    have "limbs_val (base_uint_inc (p # pn)) = 2 ^ 32 * ((1 + limbs_val pn) mod 2 ^ (32 * length pn))"
      using True Cons.IH by simp
    also have "\<dots> = (2 ^ 32 * (1 + limbs_val pn)) mod 2 ^ (32 * length (p # pn))"
      by (simp add: power_add mult_mod_right)
    finally show ?thesis by (simp add: p)
  next
    case False
    then have p: "unat (p + 1) = unat p + 1" by (metis add.commute Suc_eq_plus1 unatSuc)
    then have "limbs_val (base_uint_inc (p # pn)) = limbs_val (p # pn) + 1" using False by simp
    moreover have "limbs_val (base_uint_inc (p # pn)) < 2 ^ (32 * length (p # pn))"
      using limbs_val_bound length_inc by metis
    ultimately show ?thesis by simp
  qed
qed simp

lemma length_dec [simp]: "length (base_uint_dec pn) = length pn"
  by (induction pn) simp_all

lemma unat_not_u32: "unat (NOT (p :: u32)) = 2 ^ 32 - 1 - unat p"
proof -
  have "NOT p = - 1 - p" by (simp add: not_eq_complement)
  then show ?thesis by (simp add: unat_sub unat_minus_1_u32)
qed

lemma limbs_val_map_not: "limbs_val (map (\<lambda>x. NOT x) pn) + limbs_val pn + 1 = 2 ^ (32 * length pn)"
proof (induction pn)
  case (Cons p pn)
  let ?v = "limbs_val (map (\<lambda>x. NOT x) pn)"
  have "unat (NOT p) + unat p + 1 = 2 ^ 32"
    using unat_u32_less [of p] by (simp only: unat_not_u32)
  moreover have "2 ^ 32 * (?v + limbs_val pn + 1) = (2::nat) ^ 32 * 2 ^ (32 * length pn)"
    using Cons.IH by simp
  ultimately show ?case by (simp add: power_add)
qed simp


lemma limbs_val_neg: "limbs_val (base_uint_neg pn) = (2 ^ (32 * length pn) - limbs_val pn) mod 2 ^ (32 * length pn)"
proof -
  have "limbs_val (map (\<lambda>x. NOT x) pn) + 1 = 2 ^ (32 * length pn) - limbs_val pn"
    using limbs_val_map_not [of pn] by simp
  then show ?thesis by (simp add: base_uint_neg_def limbs_val_inc)
qed

lemma length_neg [simp]: "length (base_uint_neg pn) = length pn"
  by (simp add: base_uint_neg_def)

lemma length_sub [simp]: "length pn = length b \<Longrightarrow> length (base_uint_sub pn b) = length pn"
  by (simp add: base_uint_sub_def)

lemma limbs_val_sub:
  assumes "length pn = length b"
  shows "limbs_val (base_uint_sub pn b) = (limbs_val pn + 2 ^ (32 * length pn) - limbs_val b) mod 2 ^ (32 * length pn)"
proof -
  have "limbs_val b \<le> 2 ^ (32 * length pn)" using limbs_val_bound [of b] assms by (simp del: limbs_val_bound)
  then show ?thesis using assms
    by (simp add: base_uint_sub_def limbs_val_add limbs_val_neg mod_add_right_eq)
qed

lemma limbs_val_sub_le:
  assumes "length pn = length b" "limbs_val b \<le> limbs_val pn"
  shows "limbs_val (base_uint_sub pn b) = limbs_val pn - limbs_val b"
proof -
  have "limbs_val pn + 2 ^ (32 * length pn) - limbs_val b = (limbs_val pn - limbs_val b) + 2 ^ (32 * length pn)"
    using assms by simp
  moreover have "limbs_val pn - limbs_val b < 2 ^ (32 * length pn)"
    using limbs_val_bound [of pn] less_imp_diff_less by blast
  ultimately show ?thesis using assms by (metis limbs_val_sub mod_add_self2 mod_less)
qed

lemma length_mul32_loop [simp]: "length (mul32_loop c b pn) = length pn"
  by (induction pn arbitrary: c) (simp_all add: Let_def)

lemma mul_limb_bound:
  assumes "c < 2 ^ 32" "x < 2 ^ 32" "p < 2 ^ 32" "q < (2::nat) ^ 32"
  shows "c + x + p * q < 2 ^ 64"
proof -
  have "p * q \<le> (2 ^ 32 - 1) * (2 ^ 32 - 1)" using assms by (intro mult_le_mono) simp_all
  moreover have "c + x \<le> 2 * (2 ^ 32 - 1)" using assms by simp
  ultimately show ?thesis by simp
qed

lemma limbs_val_mul32_loop:
  "unat c < 2 ^ 32 \<Longrightarrow>
   limbs_val (mul32_loop c b pn) = (unat c + unat b * limbs_val pn) mod 2 ^ (32 * length pn)"
proof (induction pn arbitrary: c)
  case (Cons p pn)
  let ?n = "c + ucast b * ucast p :: u64"
  have bd: "unat c + 0 + unat b * unat p < 2 ^ 64"
    using Cons.prems unat_u32_less by (intro mul_limb_bound) simp_all
  then have n: "unat ?n = unat c + unat b * unat p" by (simp add: unat_word_ariths)
  have c: "unat (drop_bit 32 ?n) < 2 ^ 32" using bd by (simp add: unat_drop_bit_div n)
  have "limbs_val (mul32_loop c b (p # pn)) = unat (ucast (?n AND 0xffffffff) :: u32)
      + 2 ^ 32 * ((unat (drop_bit 32 ?n) + unat b * limbs_val pn) mod 2 ^ (32 * length pn))"
    using Cons.IH [OF c] by (simp add: Let_def)
  also have "\<dots> = (unat ?n + 2 ^ 32 * (unat b * limbs_val pn)) mod 2 ^ (32 + 32 * length pn)"
    by (rule limb_carry)
  finally show ?case by (simp only: n) (simp add: algebra_simps)
qed simp

lemma limbs_val_mul32:
  "limbs_val (base_uint_mul32 pn b) = (limbs_val pn * unat b) mod 2 ^ (32 * length pn)"
  by (simp add: base_uint_mul32_def limbs_val_mul32_loop mult.commute)

lemma length_mul32 [simp]: "length (base_uint_mul32 pn b) = length pn"
  by (simp add: base_uint_mul32_def)

lemma length_mul_inner [simp]: "length a \<le> length b \<Longrightarrow> length (mul_inner c p a b) = length a"
  by (induction c p a b rule: mul_inner.induct) (simp_all add: Let_def)

lemma limbs_val_mul_inner:
  "length a \<le> length b \<Longrightarrow> unat c < 2 ^ 32 \<Longrightarrow>
   limbs_val (mul_inner c p a b) = (unat c + limbs_val a + unat p * limbs_val b) mod 2 ^ (32 * length a)"
proof (induction c p a b rule: mul_inner.induct)
  case (1 c p x a y b)
  let ?n = "c + ucast x + ucast p * ucast y :: u64"
  have bd: "unat c + unat x + unat p * unat y < 2 ^ 64"
    using 1(3) unat_u32_less by (intro mul_limb_bound) simp_all
  then have n: "unat ?n = unat c + unat x + unat p * unat y"
    by (simp add: unat_word_ariths)
  have c: "unat (drop_bit 32 ?n) < 2 ^ 32" using bd by (simp add: unat_drop_bit_div n)
  have "limbs_val (mul_inner c p (x # a) (y # b)) = unat (ucast (?n AND 0xffffffff) :: u32)
      + 2 ^ 32 * ((unat (drop_bit 32 ?n) + (limbs_val a + unat p * limbs_val b)) mod 2 ^ (32 * length a))"
    using 1(1) [OF refl _ c] 1(2) by (simp add: Let_def add.assoc)
  also have "\<dots> = (unat ?n + 2 ^ 32 * (limbs_val a + unat p * limbs_val b)) mod 2 ^ (32 + 32 * length a)"
    by (rule limb_carry)
  finally show ?case by (simp only: n) (simp add: algebra_simps)
qed simp_all

lemma limbs_val_take_Suc:
  "i < length pn \<Longrightarrow> limbs_val (take (Suc i) pn) = limbs_val (take i pn) + 2 ^ (32 * i) * unat (pn ! i)"
  by (simp add: take_Suc_conv_app_nth limbs_val_append min_def)

lemma mul_outer_mod:
  assumes "length a = length b" "j < length a"
  shows "length (mul_outer pn b j a) = length a"
    and "limbs_val (mul_outer pn b j a) = (limbs_val a + 2 ^ (32 * j) * (unat (pn ! j) * limbs_val b)) mod 2 ^ (32 * length a)"
proof -
  show len: "length (mul_outer pn b j a) = length a" using assms by (simp add: mul_outer_def)
  let ?M = "2 ^ (32 * length a) :: nat" and ?m = "2 ^ (32 * (length a - j)) :: nat"
  have M: "?M = 2 ^ (32 * j) * ?m" using assms by (simp flip: power_add add: algebra_simps)
  have "limbs_val (mul_outer pn b j a)
      = limbs_val (take j a) + 2 ^ (32 * j) * ((limbs_val (drop j a) + unat (pn ! j) * limbs_val b) mod ?m)"
    using assms by (simp add: mul_outer_def limbs_val_append limbs_val_mul_inner min_def)
  also have "\<dots> = limbs_val (take j a) + (2 ^ (32 * j) * (limbs_val (drop j a) + unat (pn ! j) * limbs_val b)) mod ?M"
    by (simp only: M mult_mod_right)
  finally have "limbs_val (mul_outer pn b j a) mod ?M
      = (limbs_val (take j a @ drop j a) + 2 ^ (32 * j) * (unat (pn ! j) * limbs_val b)) mod ?M"
    using assms by (simp only: mod_add_right_eq limbs_val_append) (simp add: algebra_simps)
  then show "limbs_val (mul_outer pn b j a) = (limbs_val a + 2 ^ (32 * j) * (unat (pn ! j) * limbs_val b)) mod ?M"
    using limbs_val_mod [of "mul_outer pn b j a"] len by simp
qed

lemma mul_fold:
  assumes "length pn = length b" "m \<le> length pn"
  shows "length (fold (mul_outer pn b) [0..<m] (replicate (length pn) 0)) = length pn \<and>
         limbs_val (fold (mul_outer pn b) [0..<m] (replicate (length pn) 0))
           = (limbs_val (take m pn) * limbs_val b) mod 2 ^ (32 * length pn)"
  using assms(2)
proof (induction m)
  case (Suc m)
  let ?a = "fold (mul_outer pn b) [0..<m] (replicate (length pn) 0)"
  from Suc have a: "length ?a = length pn" "limbs_val ?a = (limbs_val (take m pn) * limbs_val b) mod 2 ^ (32 * length pn)"
    by simp_all
  have "limbs_val (mul_outer pn b m ?a) = (limbs_val (take m pn) * limbs_val b + 2 ^ (32 * m) * (unat (pn ! m) * limbs_val b)) mod 2 ^ (32 * length pn)"
    using mul_outer_mod(2) [of ?a b m pn] a Suc.prems assms(1) by (simp add: mod_add_left_eq)
  also have "\<dots> = (limbs_val (take (Suc m) pn) * limbs_val b) mod 2 ^ (32 * length pn)"
    using Suc.prems by (simp add: limbs_val_take_Suc algebra_simps)
  finally show ?case using mul_outer_mod(1) [of ?a b m pn] a Suc.prems assms(1) by simp
qed simp

lemma length_mul [simp]: "length pn = length b \<Longrightarrow> length (base_uint_mul pn b) = length pn"
  using mul_fold [of pn b "length pn"] by (simp add: base_uint_mul_def)

lemma limbs_val_mul:
  "length pn = length b \<Longrightarrow>
   limbs_val (base_uint_mul pn b) = (limbs_val pn * limbs_val b) mod 2 ^ (32 * length pn)"
  using mul_fold [of pn b "length pn"] by (simp add: base_uint_mul_def)

lemma limbs_val_take_less: "limbs_val (take i pn) < 2 ^ (32 * i)"
proof -
  have "limbs_val (take i pn) < 2 ^ (32 * length (take i pn))" by (rule limbs_val_bound)
  also have "\<dots> \<le> 2 ^ (32 * i)" by (intro power_increasing) simp_all
  finally show ?thesis .
qed

lemma high_limb_less: "x < y \<Longrightarrow> (l :: nat) < B \<Longrightarrow> l + B * x < r + B * y"
proof -
  assume "x < y" "l < B"
  then have "l + B * x < B * (x + 1)" by simp
  also have "\<dots> \<le> B * y" using \<open>x < y\<close> by (intro mult_le_mono2) simp
  finally show ?thesis by simp
qed

lemma compare_loop_take:
  "i \<le> length pn \<Longrightarrow> length pn = length b \<Longrightarrow>
   compare_loop i pn b = (if limbs_val (take i pn) < limbs_val (take i b) then - 1
                          else if limbs_val (take i b) < limbs_val (take i pn) then 1 else 0)"
proof (induction i)
  case (Suc i)
  have t: "limbs_val (take i pn) < 2 ^ (32 * i)" "limbs_val (take i b) < 2 ^ (32 * i)"
    by (rule limbs_val_take_less)+
  consider "pn ! i < b ! i" | "b ! i < pn ! i" | "pn ! i = b ! i" by force
  then show ?case
  proof cases
    case 1
    then have "limbs_val (take (Suc i) pn) < limbs_val (take (Suc i) b)"
      using Suc.prems t high_limb_less [of "unat (pn ! i)" "unat (b ! i)"] by (simp add: limbs_val_take_Suc word_less_nat_alt)
    then show ?thesis using 1 by simp
  next
    case 2
    then have "limbs_val (take (Suc i) b) < limbs_val (take (Suc i) pn)"
      using Suc.prems t high_limb_less [of "unat (b ! i)" "unat (pn ! i)"] by (simp add: limbs_val_take_Suc word_less_nat_alt)
    then show ?thesis using 2 by auto
  next
    case 3
    then show ?thesis using Suc by (simp add: limbs_val_take_Suc)
  qed
qed simp

lemma CompareTo_limbs_val:
  "length pn = length b \<Longrightarrow>
   CompareTo pn b = (if limbs_val pn < limbs_val b then - 1 else if limbs_val b < limbs_val pn then 1 else 0)"
  by (simp add: CompareTo_def compare_loop_take)


subsection \<open>Bits of the value\<close>

lemma bit_limbs_val:
  "bit (limbs_val pn) n \<longleftrightarrow> n div 32 < length pn \<and> bit (pn ! (n div 32)) (n mod 32)"
proof (induction pn arbitrary: n)
  case (Cons p pn)
  have v: "limbs_val (p # pn) = unat p + push_bit 32 (limbs_val pn)" by (simp add: push_bit_eq_mult)
  have "bit (unat p + push_bit 32 (limbs_val pn)) n = (bit (unat p) n \<or> bit (push_bit 32 (limbs_val pn)) n)"
    by (rule disjunctive_add [THEN arg_cong [where f = "\<lambda>x. bit x n"], THEN trans])
      (auto simp: bit_push_bit_iff bit_or_iff bit_unsigned_iff dest: bit_imp_le_length)
  also have "\<dots> = (n < 32 \<and> bit p n \<or> 32 \<le> n \<and> bit (limbs_val pn) (n - 32))"
    by (auto simp: bit_push_bit_iff bit_unsigned_iff dest: bit_imp_le_length)
  also have "\<dots> = (n div 32 < length (p # pn) \<and> bit ((p # pn) ! (n div 32)) (n mod 32))"
  proof (cases "n < 32")
    case False
    then obtain m where m: "n = 32 + m" by (metis le_Suc_ex not_le)
    then show ?thesis by (simp add: Cons.IH div_add_self1)
  qed simp
  finally show ?case by (simp only: v)
qed simp

lemma length_shl_step [simp]: "length (shl_step k s a i pn) = length pn"
  by (simp add: shl_step_def Let_def)

lemma nth_shl_step:
  "j < length pn \<Longrightarrow> length pn = length a \<Longrightarrow> shl_step k s a i pn ! j =
     pn ! j OR (if j = i + k then push_bit s (a ! i) else 0)
     OR (if s \<noteq> 0 \<and> j = i + k + 1 then drop_bit (32 - s) (a ! i) else 0)"
  by (auto simp: shl_step_def Let_def nth_list_update)

lemma shl_fold:
  assumes "m \<le> length a"
  shows "length (fold (shl_step k s a) [0..<m] (replicate (length a) 0)) = length a \<and>
    (\<forall>j < length a. fold (shl_step k s a) [0..<m] (replicate (length a) 0) ! j =
      (if k \<le> j \<and> j - k < m then push_bit s (a ! (j - k)) else 0)
      OR (if s \<noteq> 0 \<and> k < j \<and> j - k - 1 < m then drop_bit (32 - s) (a ! (j - k - 1)) else 0))"
  using assms
proof (induction m)
  case (Suc m)
  define f where "f = fold (shl_step k s a) [0..<m] (replicate (length a) 0)"
  have IH: "length f = length a" "\<And>j. j < length a \<Longrightarrow> f ! j =
      (if k \<le> j \<and> j - k < m then push_bit s (a ! (j - k)) else 0)
      OR (if s \<noteq> 0 \<and> k < j \<and> j - k - 1 < m then drop_bit (32 - s) (a ! (j - k - 1)) else 0)"
    using Suc by (simp_all add: f_def)
  have "shl_step k s a m f ! j =
      (if k \<le> j \<and> j - k < Suc m then push_bit s (a ! (j - k)) else 0)
      OR (if s \<noteq> 0 \<and> k < j \<and> j - k - 1 < Suc m then drop_bit (32 - s) (a ! (j - k - 1)) else 0)"
    if "j < length a" for j
  proof -
    consider "j = m + k" | "j = m + k + 1" | "j \<noteq> m + k" "j \<noteq> m + k + 1" by blast
    then show ?thesis
    proof cases
      case 3
      then have "j - k < Suc m \<longleftrightarrow> j - k < m" if "k \<le> j" using that by linarith
      moreover have "j - k - 1 < Suc m \<longleftrightarrow> j - k - 1 < m" if "k < j" using that 3 by linarith
      ultimately show ?thesis using 3 that by (auto simp: nth_shl_step IH)
    qed (use that in \<open>simp_all add: nth_shl_step IH or.commute less_Suc_eq_le\<close>)
  qed
  then show ?case using IH(1) by (simp add: f_def)
qed simp



lemma length_shl [simp]: "length (base_uint_shl a s) = length a"
  using shl_fold [of "length a" a] by (simp add: base_uint_shl_def)

lemma nth_shl:
  "j < length a \<Longrightarrow> base_uint_shl a s ! j =
     (if s div 32 \<le> j then push_bit (s mod 32) (a ! (j - s div 32)) else 0)
     OR (if s mod 32 \<noteq> 0 \<and> s div 32 < j then drop_bit (32 - s mod 32) (a ! (j - s div 32 - 1)) else 0)"
  using shl_fold [of "length a" a "s div 32" "s mod 32"] by (auto simp: base_uint_shl_def)

lemma div_mod_32I: "(m :: nat) = r + 32 * q \<Longrightarrow> r < 32 \<Longrightarrow> m div 32 = q \<and> m mod 32 = r"
  by simp

lemma div_mod_32E:
  obtains q r where "(m :: nat) = r + 32 * q" "r < 32" "m div 32 = q" "m mod 32 = r"
  by (metis add.commute mod_less_divisor mult_div_mod_eq zero_less_numeral)

lemma le_div_mod_32:
  "(s :: nat) \<le> n \<longleftrightarrow> s div 32 < n div 32 \<or> s div 32 = n div 32 \<and> s mod 32 \<le> n mod 32"
  by (rule div_mod_32E [of s], rule div_mod_32E [of n]) linarith

lemma div_mod_32_sub:
  fixes n s :: nat
  assumes "s \<le> n"
  shows "s mod 32 \<le> n mod 32 \<Longrightarrow> (n - s) div 32 = n div 32 - s div 32 \<and> (n - s) mod 32 = n mod 32 - s mod 32"
    and "n mod 32 < s mod 32 \<Longrightarrow> (n - s) div 32 = n div 32 - s div 32 - 1 \<and> (n - s) mod 32 = n mod 32 + 32 - s mod 32"
proof -
  obtain q r where n: "n = r + 32 * q" "r < 32" "n div 32 = q" "n mod 32 = r" by (rule div_mod_32E)
  obtain k t where s: "s = t + 32 * k" "t < 32" "s div 32 = k" "s mod 32 = t" by (rule div_mod_32E)
  show "(n - s) div 32 = n div 32 - s div 32 \<and> (n - s) mod 32 = n mod 32 - s mod 32" if "s mod 32 \<le> n mod 32"
    unfolding n(3,4) s(3,4) by (rule div_mod_32I) (use that assms n(1,2) s(1,2) in \<open>simp_all add: n(4) s(4)\<close>)
  show "(n - s) div 32 = n div 32 - s div 32 - 1 \<and> (n - s) mod 32 = n mod 32 + 32 - s mod 32" if "n mod 32 < s mod 32"
    unfolding n(3,4) s(3,4) by (rule div_mod_32I) (use that assms n(1,2) s(1,2) in \<open>simp_all add: n(4) s(4)\<close>)
qed

lemma limbs_val_shl: "limbs_val (base_uint_shl a s) = (limbs_val a * 2 ^ s) mod 2 ^ (32 * length a)"
proof (rule bit_eqI)
  fix n :: nat
  let ?k = "s div 32" and ?s = "s mod 32" and ?j = "n div 32" and ?b = "n mod 32"
  have R: "bit ((limbs_val a * 2 ^ s) mod 2 ^ (32 * length a)) n =
      (n < 32 * length a \<and> s \<le> n \<and> (n - s) div 32 < length a \<and> bit (a ! ((n - s) div 32)) ((n - s) mod 32))"
    by (auto simp: bit_limbs_val bit_take_bit_iff bit_push_bit_iff simp flip: take_bit_eq_mod push_bit_eq_mult)
  show "bit (limbs_val (base_uint_shl a s)) n = bit ((limbs_val a * 2 ^ s) mod 2 ^ (32 * length a)) n"
  proof (cases "n < 32 * length a")
    case True
    then have j: "?j < length a" by (simp add: less_mult_imp_div_less mult.commute)
    have L: "bit (limbs_val (base_uint_shl a s)) n =
       (?k \<le> ?j \<and> ?s \<le> ?b \<and> bit (a ! (?j - ?k)) (?b - ?s)
        \<or> ?s \<noteq> 0 \<and> ?k < ?j \<and> bit (a ! (?j - ?k - 1)) (32 - ?s + ?b))"
      using j by (auto simp: bit_limbs_val nth_shl bit_or_iff bit_push_bit_iff bit_drop_bit_eq)
    show ?thesis
    proof (cases "s \<le> n")
      case False
      then have "\<not> ?k < ?j" "\<not> (?k \<le> ?j \<and> ?s \<le> ?b)" by (auto simp: le_div_mod_32 [of s n])
      then show ?thesis using False by (auto simp: L R)
    next
      case sn: True
      show ?thesis
      proof (cases "?s \<le> ?b")
        case True
        have "\<not> bit (a ! (?j - ?k - 1)) (32 - ?s + ?b)" using True
          by (auto dest: bit_imp_le_length)
        moreover have "?j - ?k < length a" using j by simp
        moreover have "?k \<le> ?j" using sn by (auto simp: le_div_mod_32 [of s n])
        ultimately show ?thesis using True sn j div_mod_32_sub(1) [OF sn True] \<open>n < 32 * length a\<close>
          by (auto simp: L R)
      next
        case False
        then have "?k < ?j" "?s \<noteq> 0" using sn by (auto simp: le_div_mod_32 [of s n])
        moreover have "32 - ?s + ?b = ?b + 32 - ?s" "?j - Suc ?k < length a" using False j by simp_all
        ultimately show ?thesis using False sn j div_mod_32_sub(2) [OF sn] \<open>n < 32 * length a\<close>
          by (auto simp: L R not_le)
      qed
    qed
  next
    case False
    then have "\<not> ?j < length a" by simp
    then show ?thesis using False by (simp add: R bit_limbs_val)
  qed
qed

lemma length_shr_step [simp]: "length (shr_step k s a i pn) = length pn"
  by (simp add: shr_step_def Let_def)

lemma nth_shr_step:
  "j < length pn \<Longrightarrow> shr_step k s a i pn ! j =
     pn ! j OR (if i = j + k then drop_bit s (a ! i) else 0)
     OR (if s \<noteq> 0 \<and> i = j + k + 1 then push_bit (32 - s) (a ! i) else 0)"
  by (auto simp: shr_step_def Let_def nth_list_update)

lemma shr_fold:
  assumes "m \<le> length a"
  shows "length (fold (shr_step k s a) [0..<m] (replicate (length a) 0)) = length a \<and>
    (\<forall>j < length a. fold (shr_step k s a) [0..<m] (replicate (length a) 0) ! j =
      (if j + k < m then drop_bit s (a ! (j + k)) else 0)
      OR (if s \<noteq> 0 \<and> j + k + 1 < m then push_bit (32 - s) (a ! (j + k + 1)) else 0))"
  using assms
proof (induction m)
  case (Suc m)
  define f where "f = fold (shr_step k s a) [0..<m] (replicate (length a) 0)"
  have IH: "length f = length a" "\<And>j. j < length a \<Longrightarrow> f ! j =
      (if j + k < m then drop_bit s (a ! (j + k)) else 0)
      OR (if s \<noteq> 0 \<and> j + k + 1 < m then push_bit (32 - s) (a ! (j + k + 1)) else 0)"
    using Suc by (simp_all add: f_def)
  have "shr_step k s a m f ! j =
      (if j + k < Suc m then drop_bit s (a ! (j + k)) else 0)
      OR (if s \<noteq> 0 \<and> j + k + 1 < Suc m then push_bit (32 - s) (a ! (j + k + 1)) else 0)" if "j < length a" for j
    using that by (cases "m = j + k"; cases "m = j + k + 1") (simp_all add: nth_shr_step IH)
  then show ?case using IH(1) by (simp add: f_def)
qed simp

lemma length_shr [simp]: "length (base_uint_shr a s) = length a"
  using shr_fold [of "length a" a] by (simp add: base_uint_shr_def)

lemma nth_shr:
  "j < length a \<Longrightarrow> base_uint_shr a s ! j =
     (if j + s div 32 < length a then drop_bit (s mod 32) (a ! (j + s div 32)) else 0)
     OR (if s mod 32 \<noteq> 0 \<and> j + s div 32 + 1 < length a
         then push_bit (32 - s mod 32) (a ! (j + s div 32 + 1)) else 0)"
  using shr_fold [of "length a" a "s div 32" "s mod 32"] by (auto simp: base_uint_shr_def)

lemma div_mod_32_add:
  fixes n s :: nat
  shows "n mod 32 + s mod 32 < 32 \<Longrightarrow> (n + s) div 32 = n div 32 + s div 32 \<and> (n + s) mod 32 = n mod 32 + s mod 32"
    and "\<not> n mod 32 + s mod 32 < 32 \<Longrightarrow> (n + s) div 32 = n div 32 + s div 32 + 1 \<and> (n + s) mod 32 = n mod 32 + s mod 32 - 32"
proof -
  obtain q r where n: "n = r + 32 * q" "r < 32" "n div 32 = q" "n mod 32 = r" by (rule div_mod_32E)
  obtain k t where s: "s = t + 32 * k" "t < 32" "s div 32 = k" "s mod 32 = t" by (rule div_mod_32E)
  show "(n + s) div 32 = n div 32 + s div 32 \<and> (n + s) mod 32 = n mod 32 + s mod 32" if "n mod 32 + s mod 32 < 32"
    unfolding n(3,4) s(3,4) by (rule div_mod_32I) (use that n(1,2) s(1,2) in \<open>simp_all add: n(4) s(4)\<close>)
  show "(n + s) div 32 = n div 32 + s div 32 + 1 \<and> (n + s) mod 32 = n mod 32 + s mod 32 - 32" if "\<not> n mod 32 + s mod 32 < 32"
    unfolding n(3,4) s(3,4) by (rule div_mod_32I) (use that n(1,2) s(1,2) in \<open>simp_all add: n(4) s(4)\<close>)
qed

lemma limbs_val_shr: "limbs_val (base_uint_shr a s) = limbs_val a div 2 ^ s"
proof (rule bit_eqI)
  fix n :: nat
  let ?k = "s div 32" and ?s = "s mod 32" and ?j = "n div 32" and ?b = "n mod 32"
  have R: "bit (limbs_val a div 2 ^ s) n = ((n + s) div 32 < length a \<and> bit (a ! ((n + s) div 32)) ((n + s) mod 32))"
    by (simp add: bit_limbs_val bit_drop_bit_eq add.commute flip: drop_bit_eq_div)
  show "bit (limbs_val (base_uint_shr a s)) n = bit (limbs_val a div 2 ^ s) n"
  proof (cases "?j < length a")
    case True
    have L: "bit (limbs_val (base_uint_shr a s)) n =
       (?j + ?k < length a \<and> bit (a ! (?j + ?k)) (?s + ?b)
        \<or> ?s \<noteq> 0 \<and> ?j + ?k + 1 < length a \<and> 32 - ?s \<le> ?b \<and> bit (a ! (?j + ?k + 1)) (?b - (32 - ?s)))"
      using True by (auto simp: bit_limbs_val nth_shr bit_or_iff bit_push_bit_iff bit_drop_bit_eq)
    show ?thesis
    proof (cases "?b + ?s < 32")
      case True
      then have "\<not> 32 - ?s \<le> ?b" by linarith
      then show ?thesis using div_mod_32_add(1) [OF True] by (auto simp: L R add.commute)
    next
      case False
      have "\<not> bit (a ! (?j + ?k)) (?s + ?b)" using False by (auto dest: bit_imp_le_length)
      moreover have "?s \<noteq> 0" "?b - (32 - ?s) = ?b + ?s - 32" "32 - ?s \<le> ?b" using False by auto
      ultimately show ?thesis using False div_mod_32_add(2) [OF False] by (auto simp: L R)
    qed
  next
    case False
    moreover have "?j \<le> (n + s) div 32" by (simp add: div_le_mono)
    ultimately show ?thesis by (auto simp: R bit_limbs_val)
  qed
qed

subsection \<open>Bit length\<close>

lemma nbits_loop_31:
  assumes "p \<noteq> 0" "\<forall>i. bit p i \<longrightarrow> i \<le> k" 
  shows "nbits_loop k p = bit_len (unat p)"
  using assms(2)
proof (induction k)
  case 0
  have "p = 1"
  proof (rule bit_eqI)
    fix i
    have "bit p 0"
    proof (rule ccontr)
      assume "\<not> bit p 0"
      then have "p = 0" using 0 by (intro bit_eqI) auto
      with assms(1) show False by simp
    qed
    then show "bit p i = bit 1 i" using 0 by (cases i) (auto simp: bit_1_iff)
  qed
  then show ?case by (simp add: bit_len_pos)
next
  case (Suc k)
  have k: "p AND push_bit (Suc k) 1 \<noteq> 0 \<longleftrightarrow> bit p (Suc k)"
    by (simp add: bit_iff_and_push_bit_not_eq_0)
  show ?case
  proof (cases "bit p (Suc k)")
    case True
    have "bit (unat p) (Suc k)" using True by (simp add: bit_unsigned_iff)
    then have ge: "2 ^ Suc k \<le> unat p"
      by (metis bit_iff_odd div_less even_zero not_less)
    have "unat p = take_bit (Suc (Suc k)) (unat p)"
      by (rule bit_eqI) (use Suc.prems in \<open>auto simp: bit_take_bit_iff bit_unsigned_iff\<close>)
    then have "unat p < 2 ^ Suc (Suc k)" by (metis take_bit_nat_less_exp)
    then have "bit_len (unat p) = Suc (Suc k)" using ge by (intro bit_len_unique)
    then show ?thesis using True k by simp
  next
    case False
    have "\<forall>i. bit p i \<longrightarrow> i \<le> k" using Suc.prems False le_Suc_eq by blast
    then show ?thesis using Suc.IH False k by simp
  qed
qed

lemma bits_loop_take: "pos \<le> length pn \<Longrightarrow> bits_loop pos pn = bit_len (limbs_val (take pos pn))"
proof (induction pos)
  case (Suc pos)
  show ?case
  proof (cases "pn ! pos = 0")
    case True
    then show ?thesis using Suc by (simp add: limbs_val_take_Suc)
  next
    case False
    have nb: "nbits_loop 31 (pn ! pos) = bit_len (unat (pn ! pos))"
      using False by (intro nbits_loop_31) (auto dest: bit_imp_le_length)
    obtain k where k: "bit_len (unat (pn ! pos)) = Suc k"
      using False by (simp add: bit_len_pos unat_gt_0)
    have u: "2 ^ k \<le> unat (pn ! pos)" "unat (pn ! pos) < 2 ^ Suc k"
      using power_bit_len_le [of "unat (pn ! pos)"] less_power_bit_len [of "unat (pn ! pos)"] k False
      by (simp_all add: unat_gt_0)
    let ?v = "limbs_val (take (Suc pos) pn)"
    have v: "?v = limbs_val (take pos pn) + 2 ^ (32 * pos) * unat (pn ! pos)"
      using Suc.prems by (simp add: limbs_val_take_Suc)
    have "2 ^ (32 * pos + k) \<le> ?v" using u(1) by (simp add: v power_add trans_le_add2)
    moreover have "?v < 2 ^ Suc (32 * pos + k)"
      using high_limb_less [OF u(2) limbs_val_take_less [of pos pn], of 0] by (simp add: v power_add ac_simps)
    ultimately have "bit_len ?v = Suc (32 * pos + k)" by (rule bit_len_unique)
    then show ?thesis using False nb k by simp
  qed
qed simp

lemma base_uint_bits_limbs_val: "base_uint_bits pn = bit_len (limbs_val pn)"
  by (simp add: base_uint_bits_def bits_loop_take)



subsection \<open>Division\<close>

lemma limbs_val_set_bit:
  assumes "sh < 32 * length pn" "\<not> bit (limbs_val pn) sh"
  shows "limbs_val (pn[sh div 32 := pn ! (sh div 32) OR push_bit (sh mod 32) 1]) = limbs_val pn + 2 ^ sh"
proof -
  have len: "sh div 32 < length pn" using assms(1) by (simp add: less_mult_imp_div_less mult.commute)
  have "limbs_val (pn[sh div 32 := pn ! (sh div 32) OR push_bit (sh mod 32) 1]) = limbs_val pn OR 2 ^ sh"
  proof (rule bit_eqI)
    fix n :: nat
    have eq: "n div 32 = sh div 32 \<and> n mod 32 = sh mod 32 \<longleftrightarrow> n = sh" by (metis mult_div_mod_eq)
    have "bit (push_bit (sh mod 32) 1 :: u32) (n mod 32) \<longleftrightarrow> n mod 32 = sh mod 32"
      by (auto simp: bit_exp_iff push_bit_eq_mult)
    then show "bit (limbs_val (pn[sh div 32 := pn ! (sh div 32) OR push_bit (sh mod 32) 1])) n = bit (limbs_val pn OR 2 ^ sh) n"
      using len eq by (auto simp: bit_limbs_val nth_list_update bit_or_iff bit_exp_iff)
  qed
  also have "\<dots> = limbs_val pn + 2 ^ sh"
    by (rule disjunctive_add [symmetric]) (use assms(2) in \<open>auto simp: bit_exp_iff\<close>)
  finally show ?thesis .
qed

lemma div_loop_limbs_val:
  assumes "length dv = length num" "length pn = length num" "n \<le> 32 * length num" "0 < D"
    and "n = 0 \<or> limbs_val dv = D * 2 ^ (n - 1)" "limbs_val num < D * 2 ^ n" "2 ^ n dvd limbs_val pn"
  shows "length (div_loop n num dv pn) = length pn \<and>
         limbs_val (div_loop n num dv pn) = limbs_val pn + limbs_val num div D"
  using assms
proof (induction n arbitrary: num dv pn)
  case (Suc sh)
  have dv: "limbs_val dv = D * 2 ^ sh" using Suc.prems by simp
  have dv': "sh = 0 \<or> limbs_val (base_uint_shr dv 1) = D * 2 ^ (sh - 1)"
    by (cases sh) (simp_all add: limbs_val_shr dv)
  have clear: "\<not> bit (limbs_val pn) sh"
  proof -
    obtain c where "limbs_val pn = 2 ^ Suc sh * c" using Suc.prems(7) by (elim dvdE)
    then have "limbs_val pn div 2 ^ sh = 2 * c" by simp
    then show ?thesis by (simp add: bit_iff_odd)
  qed
  show ?case
  proof (cases "limbs_val dv \<le> limbs_val num")
    case True
    let ?num = "base_uint_sub num dv" and ?pn = "pn[sh div 32 := pn ! (sh div 32) OR push_bit (sh mod 32) 1]"
    have c: "CompareTo num dv \<ge> 0" using True Suc.prems(1) by (simp add: CompareTo_limbs_val)
    have num: "limbs_val ?num = limbs_val num - D * 2 ^ sh" "length ?num = length num"
      using True Suc.prems(1) by (simp_all add: limbs_val_sub_le flip: dv)
    have pn: "limbs_val ?pn = limbs_val pn + 2 ^ sh"
      using Suc.prems clear by (intro limbs_val_set_bit) simp_all
    have dvd: "2 ^ sh dvd limbs_val ?pn" unfolding pn using Suc.prems(7) power_le_dvd [of 2 "Suc sh" "limbs_val pn" sh] by simp
    have "limbs_val num div D = 2 ^ sh + limbs_val ?num div D"
    proof -
      have "limbs_val num = limbs_val ?num + 2 ^ sh * D" using True by (simp add: num dv mult.commute)
      then show ?thesis using Suc.prems(4) by simp
    qed
    then show ?thesis
      using Suc.IH [of "base_uint_shr dv 1" ?num ?pn] Suc.prems c num dv' pn dvd by simp
  next
    case False
    then have c: "\<not> CompareTo num dv \<ge> 0" using Suc.prems(1) by (simp add: CompareTo_limbs_val)
    have "2 ^ sh dvd limbs_val pn" using Suc.prems(7) by (meson dvd_trans le_imp_power_dvd lessI less_imp_le)
    then show ?thesis
      using Suc.IH [of "base_uint_shr dv 1" num pn] Suc.prems c False dv' dv by simp
  qed
qed simp

lemma base_uint_div_by_zero: "limbs_val b = 0 \<Longrightarrow> base_uint_div num b = Inl DivisionByZero"
  by (simp add: base_uint_div_def base_uint_bits_limbs_val)

lemma base_uint_div_limbs_val:
  assumes "length b = length num" "0 < limbs_val b"
  obtains q where "base_uint_div num b = Inr q" "length q = length num"
    "limbs_val q = limbs_val num div limbs_val b"
proof -
  let ?N = "limbs_val num" and ?D = "limbs_val b"
  have db: "0 < bit_len ?D" using assms(2) by (simp add: bit_len_pos)
  show thesis
  proof (cases "bit_len ?D > bit_len ?N")
    case True
    then have "?N < 2 ^ (bit_len ?D - 1)"
      using bit_len_le_iff [of ?N "bit_len ?D - 1"] by linarith
    then have "?N < ?D" using power_bit_len_le [OF assms(2)] by simp
    then show thesis using that [of "replicate (length num) 0"] True db
      by (simp add: base_uint_div_def base_uint_bits_limbs_val)
  next
    case False
    let ?sh = "bit_len ?N - bit_len ?D"
    have nb: "bit_len ?N \<le> 32 * length num" using bit_len_le_iff limbs_val_bound by blast
    have "?D * 2 ^ ?sh < 2 ^ bit_len ?D * 2 ^ ?sh" using less_power_bit_len [of ?D] by simp
    also have "\<dots> = 2 ^ bit_len ?N" using False by (simp flip: power_add)
    also have "\<dots> \<le> 2 ^ (32 * length num)" using nb by (intro power_increasing) simp_all
    finally have shl: "limbs_val (base_uint_shl b ?sh) = ?D * 2 ^ ?sh"
      using assms(1) by (simp add: limbs_val_shl)
    have "?N < 2 ^ bit_len ?N" by (rule less_power_bit_len)
    also have "\<dots> = 2 ^ (bit_len ?D - 1) * 2 ^ Suc ?sh" using False db by (simp flip: power_add power_Suc)
    also have "\<dots> \<le> ?D * 2 ^ Suc ?sh" using power_bit_len_le [OF assms(2)] by simp
    finally have N: "?N < ?D * 2 ^ Suc ?sh" .
    have "Suc ?sh \<le> 32 * length num" using False db nb by linarith
    then have "length (div_loop (Suc ?sh) num (base_uint_shl b ?sh) (replicate (length num) 0)) = length num \<and>
      limbs_val (div_loop (Suc ?sh) num (base_uint_shl b ?sh) (replicate (length num) 0)) = ?N div ?D"
      using div_loop_limbs_val [of "base_uint_shl b ?sh" num "replicate (length num) 0" "Suc ?sh" ?D]
        assms N shl by (simp del: div_loop.simps)
    then show thesis using that False db
      by (simp add: base_uint_div_def base_uint_bits_limbs_val Let_def del: div_loop.simps)
  qed
qed

subsection \<open>Conversions from 64 bits\<close>

lemma length_base_uint_of_u64 [simp]: "length (base_uint_of_u64 b) = 8"
  by (simp add: base_uint_of_u64_def WIDTH_def)

lemma limbs_val_of_u64 [simp]: "limbs_val (base_uint_of_u64 b) = unat b"
proof -
  have "unat b div 2 ^ 32 < 2 ^ 32" using unat_u64_less [of b] by (simp add: less_mult_imp_div_less)
  then show ?thesis
    by (simp add: base_uint_of_u64_def unat_ucast_u64_u32 unat_drop_bit_div)
qed

lemma unat_or_push_bit:
  assumes "unat x < 2 ^ n" "n + m \<le> LENGTH('a)" "unat y < 2 ^ m"
  shows "unat (x OR push_bit n (y :: 'a::len word)) = unat x + 2 ^ n * unat y"
proof -
  have p: "unat (push_bit n y) = 2 ^ n * unat y"
  proof -
    have "2 ^ n * unat y < 2 ^ n * 2 ^ m" using assms(3) by simp
    also have "\<dots> \<le> 2 ^ LENGTH('a)" using assms(2) by (simp flip: power_add)
    finally show ?thesis
      by (metis mod_less mult.commute push_bit_eq_mult take_bit_eq_mod unsigned_push_bit_eq)
  qed
  have "\<not> bit (unat x) i" if "n \<le> i" for i
    using that assms(1) by (metis bit_iff_odd div_less even_zero order_less_le_trans one_le_numeral power_increasing)
  then have "unat x OR unat (push_bit n y) = unat x + unat (push_bit n y)"
    unfolding p by (intro disjunctive_add [symmetric])
      (auto simp: bit_push_bit_iff not_le simp flip: push_bit_eq_mult mult.commute [of "unat y"])
  then show ?thesis by (simp add: unsigned_or_eq p)
qed

lemma unat_GetLow64:
  assumes "2 \<le> length pn"
  shows "unat (GetLow64 pn) = limbs_val pn mod 2 ^ 64"
proof -
  obtain p q r where pn: "pn = p # q # r" using assms by (cases pn rule: remdups_adj.cases) auto
  have u: "unat (GetLow64 pn) = unat p + 2 ^ 32 * unat q"
    using unat_or_push_bit [of "ucast p :: u64" 32 32 "ucast q"] unat_u32_less [of p] unat_u32_less [of q]
    by (simp add: GetLow64_def pn)
  have "limbs_val pn = (unat p + 2 ^ 32 * unat q) + 2 ^ 64 * limbs_val r" by (simp add: pn)
  moreover have "unat p + 2 ^ 32 * unat q < 2 ^ 64"
    using unat_u32_less [of p] unat_u32_less [of q] by simp
  ultimately show ?thesis using u by (metis mod_less mod_mult_self2)
qed

subsection \<open>The compact encoding as arithmetic\<close>


lemma unat_and_low23: "unat (x AND 0x007fffff :: u32) = unat x mod 2 ^ 23"
proof -
  have "x AND 0x007fffff = take_bit 23 x" by (simp add: take_bit_eq_mask mask_eq_exp_minus_1)
  then show ?thesis by (simp only: unat_take_bit_mod)
qed

lemma and_sign_bit: "x AND 0x00800000 \<noteq> 0 \<longleftrightarrow> bit (x :: u32) 23"
  by (simp add: bit_iff_and_push_bit_not_eq_0)

lemma bit_23_small:
  assumes "unat x < 2 ^ 24"
  shows "bit (x :: u32) 23 \<longleftrightarrow> 2 ^ 23 \<le> unat x"
proof -
  have "bit x 23 \<longleftrightarrow> bit (unat x) 23" by (simp add: bit_unsigned_iff)
  also have "\<dots> \<longleftrightarrow> odd (unat x div 2 ^ 23)" by (simp only: bit_iff_odd)
  also have "\<dots> \<longleftrightarrow> 2 ^ 23 \<le> unat x"
  proof -
    have "unat x div 2 ^ 23 < 2" using assms by (simp add: less_mult_imp_div_less)
    then consider "unat x div 2 ^ 23 = 0" | "unat x div 2 ^ 23 = 1" by linarith
    then show ?thesis by cases (auto simp: div_eq_0_iff)
  qed
  finally show ?thesis .
qed

text \<open>The three parts of a compact number: exponent, mantissa and the value without reduction.\<close>

definition compact_size :: "u32 \<Rightarrow> nat" where
  "compact_size n = unat n div 2 ^ 24"

definition compact_mantissa :: "u32 \<Rightarrow> nat" where
  "compact_mantissa n = (if compact_size n \<le> 3 then (unat n mod 2 ^ 23) div 2 ^ (8 * (3 - compact_size n)) else unat n mod 2 ^ 23)"

definition compact_value :: "u32 \<Rightarrow> nat" where
  "compact_value n = compact_mantissa n * 2 ^ (8 * (compact_size n - 3))"

lemma compact_mantissa_less: "compact_mantissa n < 2 ^ 23"
proof -
  have "unat n mod 2 ^ 23 < 2 ^ 23" by simp
  then show ?thesis
    using order_le_less_trans [OF div_le_dividend] by (auto simp only: compact_mantissa_def split: if_split)
qed

lemma compact_overflow_iff:
  fixes m s :: nat
  assumes "m < 2 ^ 23"
  shows "2 ^ 256 \<le> m * 2 ^ (8 * (s - 3)) \<longleftrightarrow>
    m \<noteq> 0 \<and> (s > 34 \<or> m > 0xff \<and> s > 33 \<or> m > 0xffff \<and> s > 32)"
proof -
  consider "s \<le> 32" | "s = 33" | "s = 34" | "s > 34" by linarith
  then show ?thesis
  proof cases
    case 1
    have "m * 2 ^ (8 * (s - 3)) < 2 ^ 23 * 2 ^ (8 * (s - 3))" using assms by simp
    also have "\<dots> \<le> 2 ^ 23 * 2 ^ (8 * 29)" using 1 by (intro mult_le_mono2 power_increasing) simp_all
    also have "\<dots> < (2::nat) ^ 256" by simp
    finally show ?thesis using 1 by simp
  next
    case 4
    then have "(2::nat) ^ 256 \<le> 2 ^ (8 * (s - 3))" by (intro power_increasing) simp_all
    then have "m \<noteq> 0 \<Longrightarrow> 2 ^ 256 \<le> m * 2 ^ (8 * (s - 3))"
      by (metis One_nat_def Suc_leI mult_le_mono nat_mult_1 neq0_conv)
    then show ?thesis using 4 by (cases "m = 0") simp_all
  qed auto
qed

lemma SetCompact_eq:
  obtains num where "SetCompact n = (num, compact_mantissa n \<noteq> 0 \<and> bit n 23, 2 ^ 256 \<le> compact_value n)"
    "length num = 8" "limbs_val num = compact_value n mod 2 ^ 256"
proof -
  define s where "s = unat (drop_bit 24 n)"
  define w where "w = (if s \<le> 3 then drop_bit (8 * (3 - s)) (n AND 0x007fffff) else n AND 0x007fffff)"
  let ?num = "if s \<le> 3 then base_uint_of_u64 (ucast w)
              else base_uint_shl (base_uint_of_u64 (ucast w)) (8 * (s - 3))"
  have s: "compact_size n = s" by (simp only: compact_size_def unat_drop_bit_div s_def)
  have w: "compact_mantissa n = unat w"
    by (simp only: compact_mantissa_def s w_def if_distrib [of unat] unat_drop_bit_div unat_and_low23)
  have v: "compact_value n = unat w * 2 ^ (8 * (s - 3))" by (simp only: compact_value_def s w)
  have "unat w < 2 ^ 23" using compact_mantissa_less [of n] by (simp only: w)
  then have o: "2 ^ 256 \<le> compact_value n \<longleftrightarrow> w \<noteq> 0 \<and> (s > 34 \<or> w > 0xff \<and> s > 33 \<or> w > 0xffff \<and> s > 32)"
    by (simp only: v compact_overflow_iff word_less_nat_alt unat_eq_0 unat_numeral) simp
  have f: "SetCompact n = (?num, compact_mantissa n \<noteq> 0 \<and> bit n 23, 2 ^ 256 \<le> compact_value n)"
    by (simp only: SetCompact_def Let_def and_sign_bit o w unat_eq_0 s_def [symmetric] w_def [symmetric])
  have vn: "limbs_val ?num = compact_value n mod 2 ^ 256"
  proof (cases "s \<le> 3")
    case True
    moreover have "unat w < 2 ^ 256" using \<open>unat w < 2 ^ 23\<close> by simp
    ultimately show ?thesis by (simp add: v)
  next
    case False
    then show ?thesis by (simp add: v limbs_val_shl)
  qed
  show thesis by (rule that [OF f _ vn]) simp
qed


definition compact_norm :: "nat \<Rightarrow> nat \<times> nat" where
  "compact_norm v =
     (let s = (bit_len v + 7) div 8; m = (if s \<le> 3 then v * 2 ^ (8 * (3 - s)) else v div 2 ^ (8 * (s - 3)))
      in if 2 ^ 23 \<le> m then (m div 256, s + 1) else (m, s))"

definition compact_trunc :: "nat \<Rightarrow> nat \<Rightarrow> nat" where
  "compact_trunc v s = (if s \<le> 3 then v * 2 ^ (8 * (3 - s)) else v div 2 ^ (8 * (s - 3)))"

lemma two_power_mult: "a + b = c \<Longrightarrow> (2::nat) ^ a * 2 ^ b = 2 ^ c"
  by (simp flip: power_add)

lemma bit_len_bytes: "v < 2 ^ (8 * ((bit_len v + 7) div 8))"
proof -
  have "bit_len v \<le> 8 * ((bit_len v + 7) div 8)" by linarith
  then show ?thesis by (simp add: bit_len_le_iff [symmetric])
qed

lemma compact_trunc_less: "v < 2 ^ (8 * s) \<Longrightarrow> compact_trunc v s < 2 ^ 24"
proof (cases "s \<le> 3")
  case True
  moreover assume "v < 2 ^ (8 * s)"
  then have "v * 2 ^ (8 * (3 - s)) < 2 ^ (8 * s) * 2 ^ (8 * (3 - s))" by simp
  moreover have "(2::nat) ^ (8 * s) * 2 ^ (8 * (3 - s)) = 2 ^ 24" using True by (intro two_power_mult) linarith
  ultimately show ?thesis by (simp add: compact_trunc_def)
next
  case False
  assume "v < 2 ^ (8 * s)"
  moreover have "(2::nat) ^ (8 * s) = 2 ^ 24 * 2 ^ (8 * (s - 3))" using False by (intro two_power_mult [symmetric]) linarith
  ultimately show ?thesis using False by (simp add: compact_trunc_def less_mult_imp_div_less)
qed

lemma compact_trunc_Suc: "compact_trunc v s div 256 = compact_trunc v (Suc s)"
proof -
  consider "s < 3" | "s \<ge> 3" by linarith
  then show ?thesis
  proof cases
    case 1
    then have "(2::nat) ^ (8 * (3 - s)) = 2 ^ (8 * (3 - Suc s)) * 256"
      using two_power_mult [of "8 * (3 - Suc s)" 8 "8 * (3 - s)"] by simp
    then show ?thesis using 1 by (simp add: compact_trunc_def)
  next
    case 2
    then have "(2::nat) ^ (8 * (Suc s - 3)) = 2 ^ (8 * (s - 3)) * 256"
      using two_power_mult [of "8 * (s - 3)" 8 "8 * (Suc s - 3)"] by simp
    then show ?thesis using 2 by (cases "s = 3") (simp_all add: compact_trunc_def div_mult2_eq)
  qed
qed

lemma compact_norm_trunc:
  assumes "compact_norm v = (m, s)"
  shows "m = compact_trunc v s" "m < 2 ^ 23" "s \<le> Suc ((bit_len v + 7) div 8)" "(bit_len v + 7) div 8 \<le> s"
proof -
  let ?s = "(bit_len v + 7) div 8"
  have "compact_trunc v ?s < 2 ^ 24" using bit_len_bytes by (rule compact_trunc_less)
  then have "compact_trunc v ?s div 256 < 2 ^ 23" by (simp add: less_mult_imp_div_less)
  then show "m = compact_trunc v s" "m < 2 ^ 23" "s \<le> Suc ?s" "?s \<le> s"
    using assms compact_trunc_Suc [of v ?s]
    by (auto simp: compact_norm_def Let_def compact_trunc_def [symmetric] split: if_splits)
qed

lemma compact_norm_pos:
  assumes "compact_norm v = (m, s)" "0 < v"
  shows "2 ^ 15 \<le> m"
proof -
  let ?s = "(bit_len v + 7) div 8"
  have bl: "0 < bit_len v" using assms(2) by (simp add: bit_len_pos)
  have "(2::nat) ^ (8 * ?s - 8) \<le> 2 ^ (bit_len v - 1)" using bl by (intro power_increasing) simp_all
  then have v: "2 ^ (8 * ?s - 8) \<le> v" using power_bit_len_le [OF assms(2)] by (rule order_trans)
  have s: "0 < ?s" using bl by simp
  have t: "2 ^ 16 \<le> compact_trunc v ?s"
  proof (cases "?s \<le> 3")
    case True
    have "2 ^ (8 * ?s - 8) * 2 ^ (8 * (3 - ?s)) \<le> v * 2 ^ (8 * (3 - ?s))" using v by simp
    moreover have "(2::nat) ^ (8 * ?s - 8) * 2 ^ (8 * (3 - ?s)) = 2 ^ 16" using True s by (intro two_power_mult) linarith
    ultimately show ?thesis using True by (simp add: compact_trunc_def)
  next
    case False
    have "2 ^ (8 * ?s - 8) div 2 ^ (8 * (?s - 3)) \<le> v div 2 ^ (8 * (?s - 3))" using v by (rule div_le_mono)
    moreover have "(2::nat) ^ (8 * ?s - 8) div 2 ^ (8 * (?s - 3)) = 2 ^ 16"
    proof -
      have "(2::nat) ^ (8 * ?s - 8) = 2 ^ 16 * 2 ^ (8 * (?s - 3))"
        using False by (intro two_power_mult [symmetric]) linarith
      then show ?thesis by simp
    qed
    ultimately show ?thesis using False by (simp add: compact_trunc_def)
  qed
  show ?thesis
  proof (cases "2 ^ 23 \<le> compact_trunc v ?s")
    case True
    then have "2 ^ 23 div 256 \<le> compact_trunc v ?s div 256" by (rule div_le_mono)
    then show ?thesis using assms(1) True
      by (auto simp: compact_norm_def Let_def compact_trunc_def [symmetric])
  next
    case False
    then show ?thesis using assms(1) t
      by (auto simp: compact_norm_def Let_def compact_trunc_def [symmetric])
  qed
qed

text \<open>The exponent of a normalised mantissa is determined by the value.\<close>

lemma compact_trunc_interval:
  assumes "compact_trunc v s = m" "2 ^ 15 \<le> m" "m < 2 ^ 23"
  shows "2 ^ (15 + 8 * s) \<le> v * 2 ^ 24" "v * 2 ^ 24 < 2 ^ (23 + 8 * s)"
proof -
  show "2 ^ (15 + 8 * s) \<le> v * 2 ^ 24"
  proof (cases "s \<le> 3")
    case True
    have "2 ^ 15 * 2 ^ (8 * s) \<le> m * (2::nat) ^ (8 * s)" using assms(2) by simp
    also have "\<dots> = v * (2 ^ (8 * (3 - s)) * 2 ^ (8 * s))" using assms(1) True by (simp add: compact_trunc_def)
    also have "2 ^ (8 * (3 - s)) * 2 ^ (8 * s) = (2::nat) ^ 24" using True by (intro two_power_mult) linarith
    finally show ?thesis by (simp add: power_add)
  next
    case False
    have "2 ^ 15 * 2 ^ (8 * (s - 3)) \<le> m * (2::nat) ^ (8 * (s - 3))" using assms(2) by simp
    also have "\<dots> \<le> v" using assms(1) False by (auto simp: compact_trunc_def)
    finally have "2 ^ 15 * 2 ^ (8 * (s - 3)) * 2 ^ 24 \<le> v * (2::nat) ^ 24" by simp
    moreover have "(2::nat) ^ 15 * 2 ^ (8 * (s - 3)) * 2 ^ 24 = 2 ^ (15 + 8 * s)"
      unfolding power_add [symmetric] using False by (intro arg_cong [where f = "power 2"]) linarith
    ultimately show ?thesis by simp
  qed
  show "v * 2 ^ 24 < 2 ^ (23 + 8 * s)"
  proof (cases "s \<le> 3")
    case True
    have "(2::nat) ^ (8 * (3 - s)) * 2 ^ (8 * s) = 2 ^ 24" using True by (intro two_power_mult) linarith
    then have "v * 2 ^ 24 = v * (2 ^ (8 * (3 - s)) * 2 ^ (8 * s))" by (simp only:)
    also have "\<dots> = m * 2 ^ (8 * s)" using assms(1) True by (simp add: compact_trunc_def)
    also have "\<dots> < 2 ^ 23 * 2 ^ (8 * s)" using assms(3) by simp
    finally show ?thesis by (simp add: power_add)
  next
    case False
    have "v div 2 ^ (8 * (s - 3)) < 2 ^ 23" using assms(1,3) False by (simp add: compact_trunc_def)
    then have "v < 2 ^ 23 * 2 ^ (8 * (s - 3))" by (metis div_less_iff_less_mult zero_less_numeral zero_less_power)
    then have "v * 2 ^ 24 < 2 ^ 23 * 2 ^ (8 * (s - 3)) * 2 ^ 24" by simp
    moreover have "(2::nat) ^ 23 * 2 ^ (8 * (s - 3)) * 2 ^ 24 = 2 ^ (23 + 8 * s)"
      unfolding power_add [symmetric] using False by (intro arg_cong [where f = "power 2"]) linarith
    ultimately show ?thesis by simp
  qed
qed

lemma compact_trunc_unique:
  assumes "compact_trunc v s = m" "2 ^ 15 \<le> m" "m < 2 ^ 23"
    and "compact_trunc v t = k" "2 ^ 15 \<le> k" "k < 2 ^ 23"
  shows "s = t" "m = k"
proof -
  have "(2::nat) ^ (15 + 8 * s) < 2 ^ (23 + 8 * t)" "(2::nat) ^ (15 + 8 * t) < 2 ^ (23 + 8 * s)"
    using compact_trunc_interval [OF assms(1-3)] compact_trunc_interval [OF assms(4-6)] by (meson order_le_less_trans)+
  then show "s = t" by simp
  then show "m = k" using assms(1,4) by simp
qed


lemma bit_len_limbs_val: "length pn = 8 \<Longrightarrow> bit_len (limbs_val pn) \<le> 256"
  using limbs_val_bound [of pn] by (simp add: bit_len_le_iff)

lemma unat_ucast_small: "unat (x :: u64) < 2 ^ 32 \<Longrightarrow> unat (ucast x :: u32) = unat x"
  by (simp add: unat_ucast_u64_u32)

lemma unat_push_bit_small:
  "unat x * 2 ^ n < 2 ^ LENGTH('a) \<Longrightarrow> unat (push_bit n (x :: 'a::len word)) = unat x * 2 ^ n"
  by (metis mod_less push_bit_eq_mult take_bit_eq_mod unsigned_push_bit_eq)

lemma GetCompact_word:
  assumes "length pn = 8"
  shows "unat (if (bit_len (limbs_val pn) + 7) div 8 \<le> 3
                then ucast (push_bit (8 * (3 - (bit_len (limbs_val pn) + 7) div 8)) (GetLow64 pn))
                else ucast (GetLow64 (base_uint_shr pn (8 * ((bit_len (limbs_val pn) + 7) div 8 - 3)))) :: u32)
         = compact_trunc (limbs_val pn) ((bit_len (limbs_val pn) + 7) div 8)"
proof -
  define v where "v = limbs_val pn"
  define s where "s = (bit_len v + 7) div 8"
  have v: "v < 2 ^ (8 * s)" unfolding s_def by (rule bit_len_bytes)
  then have t: "compact_trunc v s < 2 ^ 24" by (rule compact_trunc_less)
  have "unat (if s \<le> 3 then ucast (push_bit (8 * (3 - s)) (GetLow64 pn))
                else ucast (GetLow64 (base_uint_shr pn (8 * (s - 3)))) :: u32) = compact_trunc v s"
  proof (cases "s \<le> 3")
    case True
    have "(2::nat) ^ (8 * s) \<le> 2 ^ 64" using True by (intro power_increasing) simp_all
    then have "v < 2 ^ 64" using v by (rule order_less_le_trans [rotated])
    then have l: "unat (GetLow64 pn) = v" using assms by (simp add: unat_GetLow64 v_def)
    have t': "v * 2 ^ (8 * (3 - s)) < 2 ^ 24" using t True by (simp add: compact_trunc_def)
    then have p: "unat (push_bit (8 * (3 - s)) (GetLow64 pn)) = v * 2 ^ (8 * (3 - s))"
      using l by (subst unat_push_bit_small) simp_all
    show ?thesis using True t' by (simp add: unat_ucast_small p compact_trunc_def)
  next
    case False
    then have t': "v div 2 ^ (8 * (s - 3)) < 2 ^ 24" using t by (simp add: compact_trunc_def)
    then have "unat (GetLow64 (base_uint_shr pn (8 * (s - 3)))) = v div 2 ^ (8 * (s - 3))"
      using assms by (simp add: unat_GetLow64 limbs_val_shr flip: v_def)
    then show ?thesis using False t' by (simp add: unat_ucast_small compact_trunc_def)
  qed
  then show ?thesis by (simp only: v_def s_def)
qed

lemma and_high9: "unat (x :: u32) < 2 ^ 23 \<Longrightarrow> x AND NOT 0x007fffff = 0"
proof -
  assume "unat x < 2 ^ 23"
  then have "unat (x AND 0x007fffff) = unat x" by (simp only: unat_and_low23 mod_less)
  then have "x AND 0x007fffff = x" by (simp add: word_unat_eq_iff)
  then show ?thesis by (metis and.assoc and.right_idem bit.conj_cancel_right and_zero_eq)
qed

lemma GetCompact_eq:
  assumes "length pn = 8" "compact_norm (limbs_val pn) = (m, s)"
  obtains w where "GetCompact pn neg = Some w" "compact_size w = s" "unat w mod 2 ^ 23 = m"
    "bit w 23 \<longleftrightarrow> neg \<and> m \<noteq> 0"
proof -
  define v where "v = limbs_val pn"
  define s0 where "s0 = (bit_len v + 7) div 8"
  define c0 :: u32 where "c0 = (if s0 \<le> 3 then ucast (push_bit (8 * (3 - s0)) (GetLow64 pn))
                     else ucast (GetLow64 (base_uint_shr pn (8 * (s0 - 3)))))"
  define c where "c = (if c0 AND 0x00800000 \<noteq> 0 then drop_bit 8 c0 else c0)"
  define c1 where "c1 = c OR push_bit 24 (word_of_nat s)"
  have c0: "unat c0 = compact_trunc v s0"
    using GetCompact_word [OF assms(1)] by (simp only: c0_def v_def s0_def)
  have "v < 2 ^ (8 * s0)" unfolding s0_def by (rule bit_len_bytes)
  then have "unat c0 < 2 ^ 24" unfolding c0 by (rule compact_trunc_less)
  then have sg: "c0 AND 0x00800000 \<noteq> 0 \<longleftrightarrow> 2 ^ 23 \<le> compact_trunc v s0"
    by (simp only: and_sign_bit bit_23_small c0)
  have ms: "(m, s) = (if 2 ^ 23 \<le> compact_trunc v s0 then (compact_trunc v s0 div 256, s0 + 1) else (compact_trunc v s0, s0))"
    using assms(2) by (simp only: compact_norm_def Let_def compact_trunc_def [symmetric] v_def [symmetric] s0_def [symmetric])
  then have cm: "unat c = m" by (auto simp: c_def sg c0 unat_drop_bit_div split: if_splits)
  have ss: "s = (if c0 AND 0x00800000 \<noteq> 0 then s0 + 1 else s0)" using ms sg by (auto split: if_splits)
  have m: "m < 2 ^ 23" using compact_norm_trunc(2) [OF assms(2)] .
  have s: "s < 256" using compact_norm_trunc(3) [OF assms(2)] bit_len_limbs_val [OF assms(1)] by linarith
  have us: "unat (word_of_nat s :: u32) = s" using s by (simp add: unat_of_nat)
  have c1: "unat c1 = m + 2 ^ 24 * s"
    using unat_or_push_bit [of c 24 8 "word_of_nat s"] cm m s us by (simp add: c1_def)
  have c1m: "unat (c1 AND 0x007fffff) = m" 
  proof -
    have "(m + 2 ^ 24 * s) mod 2 ^ 23 = (m + 2 ^ 23 * (2 * s)) mod 2 ^ 23" by simp
    then show ?thesis using m by (simp only: unat_and_low23 c1 mod_mult_self2 mod_less)
  qed
  define w where "w = c1 OR (if neg \<and> c1 AND 0x007fffff \<noteq> 0 then 0x00800000 else 0)"
  have pair: "(if c0 AND 0x00800000 \<noteq> 0 then (drop_bit 8 c0, s0 + 1) else (c0, s0)) = (c, s)"
    by (simp add: c_def ss)
  have nh: "c AND NOT 0x007fffff = 0" using cm m by (intro and_high9) simp
  have G: "GetCompact pn neg = Some w"
    unfolding GetCompact_def base_uint_bits_limbs_val Let_def v_def [symmetric] s0_def [symmetric]
      c0_def [symmetric] pair prod.case nh
    using s by (simp only: w_def c1_def if_True simp_thms if_False)
  have z: "c1 AND 0x007fffff \<noteq> 0 \<longleftrightarrow> m \<noteq> 0" using c1m by (metis unat_eq_0)
  define x :: u32 where "x = (if neg \<and> m \<noteq> 0 then 0x00800000 else 0)"
  have wx: "w = c1 OR x" by (simp only: w_def z x_def)
  have "unat (drop_bit 24 w) = unat (drop_bit 24 c1)" by (simp add: wx drop_bit_or x_def)
  then have w1: "compact_size w = s"
    using m by (simp only: compact_size_def unat_drop_bit_div c1) simp
  have "w AND 0x007fffff = c1 AND 0x007fffff" by (simp add: wx x_def bit.conj_disj_distrib2)
  then have w2: "unat w mod 2 ^ 23 = m" using c1m by (simp only: unat_and_low23 [symmetric])
  have "\<not> bit c1 23" using bit_23_small [of c] m cm by (simp add: c1_def bit_or_iff bit_push_bit_iff)
  moreover have "bit x 23 \<longleftrightarrow> neg \<and> m \<noteq> 0" by (simp add: x_def)
  ultimately have w3: "bit w 23 \<longleftrightarrow> neg \<and> m \<noteq> 0" by (simp add: wx bit_or_iff)
  show thesis by (rule that [OF G w1 w2 w3])
qed

text \<open>
  A compact number is normalised when it is zero, or is not negative, fits 256 bits, has a mantissa with no
  superfluous leading zero byte and, for the sizes below three, no bits that the size cuts off.
\<close>

definition compact_normal :: "u32 \<Rightarrow> bool" where
  "compact_normal n \<longleftrightarrow> n = 0 \<or> \<not> bit n 23 \<and> 2 ^ 15 \<le> unat n mod 2 ^ 23
     \<and> 2 ^ (8 * (3 - compact_size n)) dvd unat n mod 2 ^ 23 \<and> compact_value n < 2 ^ 256"

lemma unat_compact_parts:
  assumes "\<not> bit n 23"
  shows "unat n = unat n mod 2 ^ 23 + 2 ^ 24 * compact_size n"
proof -
  have "even (unat n div 2 ^ 23)"
    using assms bit_unsigned_iff [of n 23, where 'a = nat] bit_iff_odd [of "unat n" 23] by simp
  then obtain k where k: "unat n div 2 ^ 23 = 2 * k" by (elim evenE)
  have "compact_size n = k"
    using k div_mult2_eq [of "unat n" "2 ^ 23" 2] by (simp add: compact_size_def)
  moreover have "unat n = unat n mod 2 ^ 23 + 2 ^ 23 * (2 * k)" by (simp flip: k)
  ultimately show ?thesis by simp
qed

lemma compact_eqI:
  assumes "\<not> bit n 23" "\<not> bit w 23" "compact_size n = compact_size w" "unat n mod 2 ^ 23 = unat w mod 2 ^ 23"
  shows "n = w"
  using unat_compact_parts [OF assms(1)] unat_compact_parts [OF assms(2)] assms(3,4)
  by (metis word_unat_eq_iff)

lemma GetCompact_zero: "length pn = 8 \<Longrightarrow> limbs_val pn = 0 \<Longrightarrow> GetCompact pn False = Some w \<Longrightarrow> w = 0"
proof -
  assume a: "length pn = 8" "limbs_val pn = 0" "GetCompact pn False = Some w"
  then have "compact_norm (limbs_val pn) = (0, 0)" by (simp add: compact_norm_def Let_def)
  from GetCompact_eq [OF a(1) this, of False] a(3) have "compact_size w = 0" "unat w mod 2 ^ 23 = 0" "\<not> bit w 23" by auto
  then have "unat w = 0" using unat_compact_parts [of w] by simp
  then show "w = 0" by (simp add: unat_eq_0)
qed

lemma GetCompact_SetCompact:
  assumes "compact_normal n"
  shows "GetCompact (fst (SetCompact n)) False = Some n"
proof -
  let ?m = "unat n mod 2 ^ 23" and ?s = "compact_size n"
  obtain num where num: "SetCompact n = (num, compact_mantissa n \<noteq> 0 \<and> bit n 23, 2 ^ 256 \<le> compact_value n)"
    "length num = 8" "limbs_val num = compact_value n mod 2 ^ 256" by (rule SetCompact_eq)
  obtain m s where ms: "compact_norm (limbs_val num) = (m, s)" by force
  obtain w where w: "GetCompact num False = Some w" "compact_size w = s" "unat w mod 2 ^ 23 = m" "\<not> bit w 23"
    using GetCompact_eq [OF num(2) ms, of False] by blast
  have "w = n"
  proof (cases "n = 0")
    case True
    then have "limbs_val num = 0" using num(3) by (simp add: compact_value_def compact_mantissa_def)
    then show ?thesis using GetCompact_zero [OF num(2) _ w(1)] True by simp
  next
    case False
    then have n: "\<not> bit n 23" "2 ^ 15 \<le> ?m" "2 ^ (8 * (3 - ?s)) dvd ?m" "compact_value n < 2 ^ 256"
      using assms by (simp_all add: compact_normal_def)
    then have v: "limbs_val num = compact_value n" by (simp add: num(3))
    have tr: "compact_trunc (limbs_val num) ?s = ?m"
      using n(3) unfolding v by (auto simp: compact_trunc_def compact_value_def compact_mantissa_def)
    then have "0 < limbs_val num" using n(2) by (intro gr0I) (auto simp: compact_trunc_def split: if_splits)
    then have m: "compact_trunc (limbs_val num) s = m" "2 ^ 15 \<le> m" "m < 2 ^ 23"
      using compact_norm_trunc [OF ms] compact_norm_pos [OF ms] by simp_all
    have "?s = s" "?m = m" using compact_trunc_unique [OF tr n(2) _ m] by simp_all
    then show ?thesis using w n(1) by (intro compact_eqI) simp_all
  qed
  then show ?thesis using num(1) w(1) by simp
qed

lemma SetCompact_GetCompact:
  assumes "length pn = 8"
  obtains w num where "GetCompact pn False = Some w" "SetCompact w = (num, False, False)" "length num = 8"
    "limbs_val num \<le> limbs_val pn"
    "limbs_val pn - limbs_val num < 2 ^ (8 * (compact_size w - 3))"
proof -
  let ?v = "limbs_val pn"
  obtain m s where ms: "compact_norm ?v = (m, s)" by force
  obtain w where w: "GetCompact pn False = Some w" "compact_size w = s" "unat w mod 2 ^ 23 = m" "\<not> bit w 23"
    using GetCompact_eq [OF assms ms, of False] by blast
  obtain num where num: "SetCompact w = (num, compact_mantissa w \<noteq> 0 \<and> bit w 23, 2 ^ 256 \<le> compact_value w)"
    "length num = 8" "limbs_val num = compact_value w mod 2 ^ 256" by (rule SetCompact_eq)
  have m: "m = compact_trunc ?v s" using compact_norm_trunc(1) [OF ms] .
  have cv: "compact_value w \<le> ?v \<and> ?v - compact_value w < 2 ^ (8 * (s - 3))"
  proof (cases "s \<le> 3")
    case True
    then have "compact_value w = m div 2 ^ (8 * (3 - s))"
      by (simp only: compact_value_def compact_mantissa_def w(2,3)) simp
    then show ?thesis using m True by (simp add: compact_trunc_def)
  next
    case False
    then have "compact_value w = ?v div 2 ^ (8 * (s - 3)) * 2 ^ (8 * (s - 3))"
      using m by (simp only: compact_value_def compact_mantissa_def w(2,3) compact_trunc_def) simp
    then show ?thesis by (simp add: minus_div_mult_eq_mod)
  qed
  have "?v < 2 ^ 256" using limbs_val_bound [of pn] assms by simp
  then have "compact_value w < 2 ^ 256" using cv by linarith
  then show thesis using that [of w num] w num cv by simp
qed

lemma GetCompact_normal:
  assumes "length pn = 8" "GetCompact pn False = Some n"
  shows "compact_normal n"
proof (cases "limbs_val pn = 0")
  case True
  then show ?thesis using GetCompact_zero assms by (simp add: compact_normal_def)
next
  case False
  obtain m s where ms: "compact_norm (limbs_val pn) = (m, s)" by force
  have w: "compact_size n = s" "unat n mod 2 ^ 23 = m" "\<not> bit n 23"
    using GetCompact_eq [OF assms(1) ms, of False] assms(2) by auto
  obtain num' where "SetCompact n = (num', False, False)" using SetCompact_GetCompact [OF assms(1)] assms(2) by auto
  then have "compact_value n < 2 ^ 256" using SetCompact_eq [of n] by fastforce
  moreover have "2 ^ 15 \<le> m" "m = compact_trunc (limbs_val pn) s"
    using compact_norm_trunc [OF ms] compact_norm_pos [OF ms] False by simp_all
  moreover from this have "2 ^ (8 * (3 - s)) dvd m" by (simp add: compact_trunc_def)
  ultimately show ?thesis using w by (simp add: compact_normal_def)
qed

subsection \<open>Hashes as numbers\<close>

lemma length_UintToArith256 [simp]: "length (UintToArith256 a) = 8"
  by (simp add: UintToArith256_def WIDTH_def)

lemma length_ArithToUint256: "length (ArithToUint256 a) = 4 * length a"
  by (induction a) (simp_all add: ArithToUint256_def)

lemma ReadLE32_drop_ArithToUint256: "x < length a \<Longrightarrow> ReadLE32 (drop (x * 4) (ArithToUint256 a)) = a ! x"
proof (induction a arbitrary: x)
  case (Cons p a)
  show ?case
  proof (cases x)
    case (Suc y)
    then have "drop (x * 4) (ArithToUint256 (p # a)) = drop (y * 4) (ArithToUint256 a)"
      by (simp add: ArithToUint256_def)
    then show ?thesis using Cons Suc by simp
  qed (simp add: ArithToUint256_def)
qed simp

lemma UintToArith256_ArithToUint256: "length a = 8 \<Longrightarrow> UintToArith256 (ArithToUint256 a) = a"
  by (rule nth_equalityI) (simp_all add: UintToArith256_def WIDTH_def ReadLE32_drop_ArithToUint256)

lemma limbs_val_ReadLE32:
  "length a = 4 * n \<Longrightarrow> limbs_val (map (\<lambda>x. ReadLE32 (drop (x * 4) a)) [0..<n]) = le_val a"
proof (induction n arbitrary: a)
  case (Suc n)
  have IH: "limbs_val (map (\<lambda>x. ReadLE32 (drop (x * 4) (drop 4 a))) [0..<n]) = le_val (drop 4 a)"
    using Suc.IH [of "drop 4 a"] Suc.prems by (simp del: drop_drop)
  have "le_val (take 4 a) < 256 ^ 4" using le_val_less [of "take 4 a"] Suc.prems by simp
  then have r: "unat (ReadLE32 a) = le_val (take 4 a)" by (simp add: ReadLE32_def unat_of_nat)
  have "map (\<lambda>x. ReadLE32 (drop (x * 4) a)) [0..<Suc n] = ReadLE32 a # map (\<lambda>x. ReadLE32 (drop (x * 4) (drop 4 a))) [0..<n]"
    by (simp add: upt_conv_Cons map_Suc_upt [symmetric] add.commute del: upt_Suc)
  then have "limbs_val (map (\<lambda>x. ReadLE32 (drop (x * 4) a)) [0..<Suc n]) = le_val (take 4 a) + 256 ^ 4 * le_val (drop 4 a)"
    using IH r by simp
  also have "\<dots> = le_val a" using le_val_append [of "take 4 a" "drop 4 a"] Suc.prems by simp
  finally show ?case .
qed simp

lemma limbs_val_UintToArith256: "length a = 32 \<Longrightarrow> limbs_val (UintToArith256 a) = le_val a"
  by (simp add: UintToArith256_def WIDTH_def limbs_val_ReadLE32)

lemma EqualTo_limbs_val:
  assumes "length pn = 8"
  shows "EqualTo pn b \<longleftrightarrow> limbs_val pn = unat b"
proof -
  have e: "EqualTo pn b \<longleftrightarrow> pn = base_uint_of_u64 b"
  proof -
    have l: "ucast (pn ! 0) = b AND 0xffffffff \<longleftrightarrow> pn ! 0 = ucast b"
      by (auto simp: and_low32 word_unat_eq_iff unat_take_bit_mod unat_ucast_u64_u32)
    have h: "ucast (pn ! 1) = drop_bit 32 b \<longleftrightarrow> pn ! 1 = ucast (drop_bit 32 b)"
    proof -
      have "unat (drop_bit 32 b) < 2 ^ 32" using unat_u64_less [of b] by (simp add: unat_drop_bit_div less_mult_imp_div_less)
      then show ?thesis by (auto simp: word_unat_eq_iff unat_ucast_u64_u32)
    qed
    have "EqualTo pn b \<longleftrightarrow> (\<forall>i \<in> {2..<8}. pn ! i = 0) \<and> ucast (pn ! 1) = drop_bit 32 b \<and> ucast (pn ! 0) = b AND 0xffffffff"
      unfolding EqualTo_def assms set_upt by meson
    also have "\<dots> \<longleftrightarrow> (\<forall>i \<in> {2..<8}. pn ! i = 0) \<and> pn ! 1 = ucast (drop_bit 32 b) \<and> pn ! 0 = ucast b"
      by (simp only: h l)
    also have "\<dots> \<longleftrightarrow> (\<forall>i < 8. pn ! i = base_uint_of_u64 b ! i)"
    proof -
      have z: "base_uint_of_u64 b ! i = 0" if "i \<in> {2..<8}" for i
      proof -
        have "2 \<le> i" "i < 8" using that by simp_all
        then obtain j where "i = 2 + j" "j < 6" by (auto dest: le_Suc_ex)
        then show ?thesis by (simp add: base_uint_of_u64_def WIDTH_def)
      qed
      have h: "base_uint_of_u64 b ! 0 = ucast b" "base_uint_of_u64 b ! 1 = ucast (drop_bit 32 b)"
        by (simp_all add: base_uint_of_u64_def)
      have "i < 8 \<longleftrightarrow> i = 0 \<or> i = 1 \<or> i \<in> {2..<8}" for i :: nat by auto
      then have "(\<forall>i < 8. pn ! i = base_uint_of_u64 b ! i) \<longleftrightarrow>
          pn ! 0 = ucast b \<and> pn ! 1 = ucast (drop_bit 32 b) \<and> (\<forall>i \<in> {2..<8}. pn ! i = base_uint_of_u64 b ! i)"
        using h by metis
      also have "(\<forall>i \<in> {2..<8}. pn ! i = base_uint_of_u64 b ! i) \<longleftrightarrow> (\<forall>i \<in> {2..<8}. pn ! i = 0)"
        by (rule ball_cong) (simp_all only: z)
      finally show ?thesis by (simp only: conj_ac)
    qed
    also have "\<dots> \<longleftrightarrow> pn = base_uint_of_u64 b"
      using assms by (auto simp: list_eq_iff_nth_eq)
    finally show ?thesis .
  qed
  then show ?thesis using assms limbs_val_inj [of pn "base_uint_of_u64 b"] by auto
qed

subsection \<open>The interface of the difficulty rules\<close>

text \<open>
  What the difficulty rules rely on: a fixed-width unsigned type with values below \<open>M\<close>, on which scaling by a
  32-bit factor and addition work modulo \<open>M\<close>, division by a non-zero 64-bit number is exact integer division, and
  comparison orders by value.
\<close>

locale bounded_uint =
  fixes inv :: "'n \<Rightarrow> bool" and val :: "'n \<Rightarrow> nat" and M :: nat
    and scale :: "'n \<Rightarrow> u32 \<Rightarrow> 'n" and plus' :: "'n \<Rightarrow> 'n \<Rightarrow> 'n" and minus' :: "'n \<Rightarrow> 'n \<Rightarrow> 'n"
    and quot :: "'n \<Rightarrow> u64 \<Rightarrow> 'e + 'n" and cmp :: "'n \<Rightarrow> 'n \<Rightarrow> int"
  assumes scale: "inv x \<Longrightarrow> inv (scale x a) \<and> val (scale x a) = val x * unat a mod M"
    and plus: "inv x \<Longrightarrow> inv y \<Longrightarrow> inv (plus' x y) \<and> val (plus' x y) = (val x + val y) mod M"
    and minus: "inv x \<Longrightarrow> inv y \<Longrightarrow> val y \<le> val x \<Longrightarrow> inv (minus' x y) \<and> val (minus' x y) = val x - val y"
    and quot: "inv x \<Longrightarrow> k \<noteq> 0 \<Longrightarrow> \<exists>q. quot x k = Inr q \<and> inv q \<and> val q = val x div unat k"
    and cmp: "inv x \<Longrightarrow> inv y \<Longrightarrow> cmp x y = sgn (int (val x) - int (val y))"
    and bound: "inv x \<Longrightarrow> val x < M"
begin

lemma cap_val:
  assumes "inv x" "inv lim"
  shows "inv (if cmp x lim > 0 then lim else x) \<and> val (if cmp x lim > 0 then lim else x) = min (val x) (val lim)"
  using assms cmp [OF assms] by (auto simp: sgn_if)

lemma rescale_val:
  assumes "inv x" "k \<noteq> 0" "val x * unat a < M"
  shows "\<exists>q. quot (scale x a) k = Inr q \<and> inv q \<and> val q = val x * unat a div unat k"
  using quot [of "scale x a" k] scale [OF assms(1), of a] assms by auto

lemma rescale_total:
  assumes "inv x" "k \<noteq> 0"
  shows "\<exists>q. quot (scale x a) k = Inr q \<and> inv q"
  using quot [of "scale x a" k] scale [OF assms(1), of a] assms by blast

lemma weighted_mean_val:
  assumes "inv x" "inv y" "m \<noteq> 0" "val x * unat n + val y < M"
  shows "\<exists>q. quot (plus' (scale x n) y) m = Inr q \<and> inv q \<and> val q = (val x * unat n + val y) div unat m"
proof -
  have s: "inv (scale x n)" "val (scale x n) = val x * unat n" using scale [OF assms(1), of n] assms(4) by simp_all
  have "inv (plus' (scale x n) y)" "val (plus' (scale x n) y) = val x * unat n + val y"
    using plus [OF s(1) assms(2)] s(2) assms(4) by simp_all
  then show ?thesis using quot [OF _ assms(3), of "plus' (scale x n) y"] by simp
qed

text \<open>A step of a running average moves towards the new sample and stays between the two.\<close>

lemma running_mean_val:
  assumes "inv x" "inv p" "i \<noteq> 0"
  shows "cmp x p \<ge> 0 \<Longrightarrow> \<exists>q. quot (minus' x p) i = Inr q \<and> inv (plus' q p) \<and> val (plus' q p) \<le> val x \<and> val p \<le> val (plus' q p)"
    and "\<not> cmp x p \<ge> 0 \<Longrightarrow> \<exists>q. quot (minus' p x) i = Inr q \<and> inv (minus' p q) \<and> val (minus' p q) \<le> val p \<and> val x \<le> val (minus' p q)"
proof -
  have c: "cmp x p = sgn (int (val x) - int (val p))" by (rule cmp [OF assms(1,2)])
  {
    assume "cmp x p \<ge> 0"
    then have le: "val p \<le> val x" unfolding c by (simp add: sgn_if split: if_splits)
    obtain q where q: "quot (minus' x p) i = Inr q" "inv q" "val q = (val x - val p) div unat i"
      using quot [OF _ assms(3)] minus [OF assms(1,2) le] by metis
    have "val q \<le> val x - val p" unfolding q(3) by (rule div_le_dividend)
    then have "val q + val p \<le> val x" using le by simp
    then show "\<exists>q. quot (minus' x p) i = Inr q \<and> inv (plus' q p) \<and> val (plus' q p) \<le> val x \<and> val p \<le> val (plus' q p)"
      using q plus [OF q(2) assms(2)] bound [OF assms(1)] by (intro exI [of _ q]) simp
  next
    assume "\<not> cmp x p \<ge> 0"
    then have le: "val x \<le> val p" unfolding c by (simp add: sgn_if split: if_splits)
    obtain q where q: "quot (minus' p x) i = Inr q" "inv q" "val q = (val p - val x) div unat i"
      using quot [OF _ assms(3)] minus [OF assms(2,1) le] by metis
    have d: "val q \<le> val p - val x" unfolding q(3) by (rule div_le_dividend)
    then have "val q \<le> val p" by simp
    then show "\<exists>q. quot (minus' p x) i = Inr q \<and> inv (minus' p q) \<and> val (minus' p q) \<le> val p \<and> val x \<le> val (minus' p q)"
      using q(1) minus [OF assms(2) q(2)] d le by (intro exI [of _ q]) simp
  }
qed

end

interpretation u256: bounded_uint "\<lambda>pn. length pn = WIDTH" limbs_val "2 ^ 256" base_uint_mul32 base_uint_add base_uint_sub
  "\<lambda>num k. base_uint_div num (base_uint_of_u64 k)" CompareTo
proof unfold_locales
  fix x y :: base_uint and k :: u64 and c :: u32
  assume x: "length x = WIDTH"
  then have l: "length x = 8" by (simp add: WIDTH_def)
  show "length (base_uint_mul32 x c) = WIDTH \<and> limbs_val (base_uint_mul32 x c) = limbs_val x * unat c mod 2 ^ 256"
    using l by (simp add: limbs_val_mul32 WIDTH_def)
  show "limbs_val x < 2 ^ 256" using limbs_val_bound [of x] l by simp
  show "\<exists>q. base_uint_div x (base_uint_of_u64 k) = Inr q \<and> length q = WIDTH \<and> limbs_val q = limbs_val x div unat k" if "k \<noteq> 0"
    using base_uint_div_limbs_val [of "base_uint_of_u64 k" x] that l by (auto simp: WIDTH_def unat_gt_0)
  assume "length y = WIDTH"
  then have l2: "length y = 8" by (simp add: WIDTH_def)
  show "length (base_uint_add x y) = WIDTH \<and> limbs_val (base_uint_add x y) = (limbs_val x + limbs_val y) mod 2 ^ 256"
    using l l2 by (simp add: limbs_val_add WIDTH_def)
  show "CompareTo x y = sgn (int (limbs_val x) - int (limbs_val y))"
    using l l2 by (auto simp: CompareTo_limbs_val sgn_if)
  show "length (base_uint_sub x y) = WIDTH \<and> limbs_val (base_uint_sub x y) = limbs_val x - limbs_val y" if "limbs_val y \<le> limbs_val x"
    using limbs_val_sub_le [of x y] that l l2 by (simp add: WIDTH_def)
qed

subsection \<open>Correctness of the 256-bit arithmetic\<close>

text \<open>
  C19.  Long division returns the quotient of the two values rounded down, and fails exactly on a zero
  divisor.
\<close>

theorem base_uint_div_correct:
  assumes "length num = WIDTH" "length b = WIDTH"
  shows "case base_uint_div num b of
      Inl e \<Rightarrow> e = DivisionByZero \<and> limbs_val b = 0
    | Inr q \<Rightarrow> limbs_val b \<noteq> 0 \<and> length q = WIDTH \<and> limbs_val q = limbs_val num div limbs_val b"
proof (cases "limbs_val b = 0")
  case False
  then obtain q where "base_uint_div num b = Inr q" "length q = length num" "limbs_val q = limbs_val num div limbs_val b"
    using base_uint_div_limbs_val [of b num] assms by auto
  then show ?thesis using False assms by simp
qed (simp add: base_uint_div_by_zero)

theorem base_uint_div_correct_witness:
  "case base_uint_div (base_uint_shl (base_uint_of_u64 7) 200) (base_uint_of_u64 3) of
      Inl e \<Rightarrow> False | Inr q \<Rightarrow> limbs_val q = 7 * 2 ^ 200 div 3"
  using base_uint_div_correct [of "base_uint_shl (base_uint_of_u64 7) 200" "base_uint_of_u64 3"]
  by (simp add: limbs_val_shl limbs_val_of_u64 WIDTH_def split: sum.splits)

text \<open>
  Schoolbook multiplication, addition and subtraction on the limbs are multiplication, addition and
  subtraction modulo \<open>2 ^ 256\<close>, and \<open>CompareTo\<close> orders limb vectors by their values.
\<close>

theorem base_uint_ring:
  assumes "length a = WIDTH" "length b = WIDTH"
  shows "limbs_val (base_uint_mul a b) = limbs_val a * limbs_val b mod 2 ^ 256 \<and>
    limbs_val (base_uint_add a b) = (limbs_val a + limbs_val b) mod 2 ^ 256 \<and>
    int (limbs_val (base_uint_sub a b)) = (int (limbs_val a) - int (limbs_val b)) mod 2 ^ 256 \<and>
    CompareTo a b = sgn (int (limbs_val a) - int (limbs_val b))"
proof -
  have l: "length a = 8" "length b = 8" using assms by (simp_all add: WIDTH_def)
  have "limbs_val b \<le> 2 ^ 256" using limbs_val_bound [of b] l by simp
  then have "int (limbs_val (base_uint_sub a b)) = (int (limbs_val a) + 2 ^ 256 - int (limbs_val b)) mod 2 ^ 256"
    using l by (simp add: limbs_val_sub of_nat_mod of_nat_diff)
  also have "\<dots> = (int (limbs_val a) - int (limbs_val b)) mod 2 ^ 256"
    using mod_add_self2 [of "int (limbs_val a) - int (limbs_val b)" "2 ^ 256"] by (simp only: algebra_simps)
  finally show ?thesis
    using l by (auto simp: limbs_val_mul limbs_val_add CompareTo_limbs_val sgn_if)
qed

theorem base_uint_ring_witness:
  "limbs_val (base_uint_mul (base_uint_of_u64 (2 ^ 40)) (base_uint_of_u64 (2 ^ 50))) = 2 ^ 90"
  using base_uint_ring [of "base_uint_of_u64 (2 ^ 40)" "base_uint_of_u64 (2 ^ 50)"]
  by (simp add: limbs_val_of_u64 WIDTH_def)

text \<open>
  C20.  \<open>SetCompact\<close> decodes a compact target to its value modulo \<open>2 ^ 256\<close>; its overflow flag is set exactly
  when the value needs more than 256 bits and its sign flag exactly when the sign bit is set on a
  non-zero mantissa.
\<close>

theorem SetCompact_correct:
  "case SetCompact n of (num, fNegative, fOverflow) \<Rightarrow>
     length num = WIDTH \<and> limbs_val num = compact_value n mod 2 ^ 256 \<and>
     fOverflow = (2 ^ 256 \<le> compact_value n) \<and> fNegative = (compact_mantissa n \<noteq> 0 \<and> bit n 23)"
proof -
  obtain num where "SetCompact n = (num, compact_mantissa n \<noteq> 0 \<and> bit n 23, 2 ^ 256 \<le> compact_value n)"
    "length num = 8" "limbs_val num = compact_value n mod 2 ^ 256" by (rule SetCompact_eq)
  then show ?thesis by (simp add: WIDTH_def)
qed

text \<open>
  C21.  Every target has a compact form: the assertions of \<open>GetCompact\<close> hold, and decoding the result gives,
  without sign or overflow, the target rounded down by less than one unit of the last kept byte.
\<close>

theorem GetCompact_truncates:
  assumes "length pn = WIDTH"
  shows "\<exists>w num. GetCompact pn False = Some w \<and> SetCompact w = (num, False, False) \<and>
    limbs_val num \<le> limbs_val pn \<and> limbs_val pn - limbs_val num < 2 ^ (8 * (compact_size w - 3))"
proof -
  obtain w num where "GetCompact pn False = Some w" "SetCompact w = (num, False, False)" "length num = 8"
    "limbs_val num \<le> limbs_val pn" "limbs_val pn - limbs_val num < 2 ^ (8 * (compact_size w - 3))"
    using SetCompact_GetCompact [of pn] assms by (auto simp: WIDTH_def)
  then show ?thesis by blast
qed

theorem GetCompact_truncates_witness:
  "\<exists>w num. GetCompact (base_uint_of_u64 0x12345678) False = Some w \<and> SetCompact w = (num, False, False) \<and>
    limbs_val num \<le> 0x12345678"
  using GetCompact_truncates [of "base_uint_of_u64 0x12345678"] by (auto simp: limbs_val_of_u64 WIDTH_def)

text \<open>
  C22.  Encoding inverts decoding exactly on the normalized non-negative compact values: those of sizes 1 to 33 that fit
  256 bits, and zero.
\<close>

theorem compact_round_trip: "GetCompact (fst (SetCompact n)) False = Some n \<longleftrightarrow> compact_normal n"
proof -
  obtain num where "fst (SetCompact n) = num" "length num = 8" using SetCompact_eq [of n] by fastforce
  then show ?thesis using GetCompact_normal [of num n] GetCompact_SetCompact [of n] by blast
qed

end
