(* ===== verification/Chain_Index.thy ===== *)
theory Chain_Index
  imports Arith_Uint256
begin

text \<open>
  \<^verbatim>\<open>src/src/chain.{h,cpp}\<close>: the tree of block index entries, its skip list, and the active chain.
  Entries live in a store indexed by pointers; a null pointer is \<^const>\<open>None\<close>.  Heights are natural
  numbers: an entry is created with height 0 or with its parent's height plus one.
\<close>

type_synonym block_ptr = nat

record CBlockIndex =
  phashBlock :: uint256
  pprev :: "block_ptr option"
  pskip :: "block_ptr option"
  nHeight :: nat
  nFile :: int
  nDataPos :: u32
  nUndoPos :: u32
  nChainWork :: base_uint
  nTx :: u32
  nChainTx :: u32
  nStatus :: u32
  nVersion :: int
  hashMerkleRoot :: uint256
  nTime :: u32
  nBits :: u32
  nNonce :: u32
  nSequenceId :: int
  nTimeMax :: u32

type_synonym block_store = "block_ptr \<rightharpoonup> CBlockIndex"

text \<open>
  \<open>phashBlock\<close> holds the hash the source's pointer refers to: an entry is put in the tree together with it.

  Faults: an assertion of the source that fails, a null or dangling pointer that is followed, and
  (never in the source) a bounded loop that runs out of fuel.\<close>

datatype fault = AssertFailed | BadPointer | OutOfFuel

subsection \<open>Block status flags\<close>

definition BLOCK_VALID_MASK :: u32 where
  "BLOCK_VALID_MASK = 1 OR 2 OR 3 OR 4 OR 5"

definition BLOCK_FAILED_MASK :: u32 where
  "BLOCK_FAILED_MASK = 32 OR 64"

definition BLOCK_VALID_SCRIPTS :: u32 where
  "BLOCK_VALID_SCRIPTS = 5"

definition BLOCK_ASSUMED_VALID :: u32 where
  "BLOCK_ASSUMED_VALID = 256"

definition IsValid :: "CBlockIndex \<Rightarrow> u32 \<Rightarrow> fault + bool" where
  "IsValid b nUpTo =
     (if nUpTo AND NOT BLOCK_VALID_MASK \<noteq> 0 then Inl AssertFailed
      else if nStatus b AND BLOCK_FAILED_MASK \<noteq> 0 then Inr False
      else Inr (nStatus b AND BLOCK_VALID_MASK \<ge> nUpTo))"

definition IsAssumedValid :: "CBlockIndex \<Rightarrow> bool" where
  "IsAssumedValid b = (nStatus b AND BLOCK_ASSUMED_VALID \<noteq> 0)"

definition RaiseValidity :: "CBlockIndex \<Rightarrow> u32 \<Rightarrow> fault + bool \<times> CBlockIndex" where
  "RaiseValidity b nUpTo =
     (if nUpTo AND NOT BLOCK_VALID_MASK \<noteq> 0 then Inl AssertFailed
      else if nStatus b AND BLOCK_FAILED_MASK \<noteq> 0 then Inr (False, b)
      else if nStatus b AND BLOCK_VALID_MASK < nUpTo
      then let st = (if nStatus b AND BLOCK_ASSUMED_VALID \<noteq> 0 \<and> nUpTo \<ge> BLOCK_VALID_SCRIPTS
                     then nStatus b AND NOT BLOCK_ASSUMED_VALID else nStatus b)
           in Inr (True, b\<lparr>nStatus := (st AND NOT BLOCK_VALID_MASK) OR nUpTo\<rparr>)
      else Inr (False, b))"

definition BLOCK_HAVE_DATA :: u32 where
  "BLOCK_HAVE_DATA = 8"

definition BLOCK_HAVE_UNDO :: u32 where
  "BLOCK_HAVE_UNDO = 16"

text \<open>A \<^verbatim>\<open>FlatFilePos\<close> is a file number and an offset; by default the null position \<open>(-1, 0)\<close>.\<close>

definition GetBlockPos :: "CBlockIndex \<Rightarrow> int \<times> u32" where
  "GetBlockPos b = (if nStatus b AND BLOCK_HAVE_DATA \<noteq> 0 then (nFile b, nDataPos b) else (- 1, 0))"

definition GetUndoPos :: "CBlockIndex \<Rightarrow> int \<times> u32" where
  "GetUndoPos b = (if nStatus b AND BLOCK_HAVE_UNDO \<noteq> 0 then (nFile b, nUndoPos b) else (- 1, 0))"

definition HaveTxsDownloaded :: "CBlockIndex \<Rightarrow> bool" where
  "HaveTxsDownloaded b = (nChainTx b \<noteq> 0)"

subsection \<open>Times\<close>

definition GetBlockTime :: "CBlockIndex \<Rightarrow> int" where
  "GetBlockTime b = uint (nTime b)"

definition GetBlockTimeMax :: "CBlockIndex \<Rightarrow> int" where
  "GetBlockTimeMax b = uint (nTimeMax b)"

definition nMedianTimeSpan :: nat where
  "nMedianTimeSpan = 11"

text \<open>The times written to \<^verbatim>\<open>pmedian\<close>: the loop stops after \<open>n\<close> blocks or at the genesis block.\<close>

fun median_times :: "nat \<Rightarrow> block_store \<Rightarrow> block_ptr option \<Rightarrow> fault + int list" where
  "median_times 0 st p = Inr []"
| "median_times (Suc n) st None = Inr []"
| "median_times (Suc n) st (Some p) =
     (case st p of None \<Rightarrow> Inl BadPointer
      | Some b \<Rightarrow> (case median_times n st (pprev b) of Inl e \<Rightarrow> Inl e | Inr ts \<Rightarrow> Inr (ts @ [GetBlockTime b])))"

definition GetMedianTimePast :: "block_store \<Rightarrow> block_ptr \<Rightarrow> fault + int" where
  "GetMedianTimePast st p =
     (case median_times nMedianTimeSpan st (Some p) of Inl e \<Rightarrow> Inl e
      | Inr ts \<Rightarrow> Inr (sort ts ! (length ts div 2)))"

subsection \<open>The skip list\<close>

definition InvertLowestOne :: "nat \<Rightarrow> nat" where
  "InvertLowestOne n = n AND (n - 1)"

definition GetSkipHeight :: "nat \<Rightarrow> nat" where
  "GetSkipHeight height =
     (if height < 2 then 0
      else if height AND 1 \<noteq> 0 then InvertLowestOne (InvertLowestOne (height - 1)) + 1
      else InvertLowestOne height)"

lemma nat_and_le1: "(m :: nat) AND n \<le> m"
  by (metis AND_upper1 of_nat_0_le_iff of_nat_and_eq of_nat_le_iff)

lemma nat_and_le2: "(m :: nat) AND n \<le> n"
  by (metis and.commute nat_and_le1)

lemma InvertLowestOne_less: "0 < n \<Longrightarrow> InvertLowestOne n < n"
  using nat_and_le2 [of n "n - 1"] by (simp add: InvertLowestOne_def)

lemma InvertLowestOne_le: "InvertLowestOne n \<le> n"
  by (simp add: InvertLowestOne_def nat_and_le1)

lemma GetSkipHeight_less: "0 < h \<Longrightarrow> GetSkipHeight h < h"
  using InvertLowestOne_less [of "h - 1"] InvertLowestOne_le [of "InvertLowestOne (h - 1)"] InvertLowestOne_less [of h]
  by (auto simp: GetSkipHeight_def)

text \<open>The loop of \<open>GetAncestor\<close>, with \<^verbatim>\<open>pindexWalk\<close> and \<^verbatim>\<open>heightWalk\<close> as its state.\<close>

function ancestor_walk :: "block_store \<Rightarrow> nat \<Rightarrow> block_ptr \<Rightarrow> nat \<Rightarrow> fault + block_ptr" where
  "ancestor_walk st height p heightWalk =
     (if heightWalk > height then
        case st p of None \<Rightarrow> Inl BadPointer
        | Some b \<Rightarrow>
          let heightSkip = GetSkipHeight heightWalk; heightSkipPrev = GetSkipHeight (heightWalk - 1) in
          (case pskip b of
             Some q \<Rightarrow>
               if heightSkip = height \<or>
                  heightSkip > height \<and> \<not> (int heightSkipPrev < int heightSkip - 2 \<and> heightSkipPrev \<ge> height)
               then ancestor_walk st height q heightSkip
               else (case pprev b of None \<Rightarrow> Inl AssertFailed
                     | Some q' \<Rightarrow> ancestor_walk st height q' (heightWalk - 1))
           | None \<Rightarrow> (case pprev b of None \<Rightarrow> Inl AssertFailed
                      | Some q' \<Rightarrow> ancestor_walk st height q' (heightWalk - 1)))
      else Inr p)"
  by pat_completeness auto
termination
  by (relation "measure (\<lambda>(st, height, p, heightWalk). heightWalk)") (auto simp: GetSkipHeight_less)

declare ancestor_walk.simps [simp del]

definition GetAncestor :: "block_store \<Rightarrow> block_ptr \<Rightarrow> int \<Rightarrow> fault + block_ptr option" where
  "GetAncestor st p height =
     (case st p of None \<Rightarrow> Inl BadPointer
      | Some b \<Rightarrow>
        if height > int (nHeight b) \<or> height < 0 then Inr None
        else (case ancestor_walk st (nat height) p (nHeight b) of Inl e \<Rightarrow> Inl e | Inr q \<Rightarrow> Inr (Some q)))"

definition BuildSkip :: "block_store \<Rightarrow> block_ptr \<Rightarrow> fault + block_store" where
  "BuildSkip st p =
     (case st p of None \<Rightarrow> Inl BadPointer
      | Some b \<Rightarrow>
        (case pprev b of None \<Rightarrow> Inr st
         | Some q \<Rightarrow>
           (case GetAncestor st q (int (GetSkipHeight (nHeight b))) of Inl e \<Rightarrow> Inl e
            | Inr s \<Rightarrow> Inr (st(p \<mapsto> b\<lparr>pskip := s\<rparr>)))))"

subsection \<open>Work of a block\<close>

definition GetBlockProof :: "CBlockIndex \<Rightarrow> uint_error + base_uint" where
  "GetBlockProof block =
     (let (bnTarget, fNegative, fOverflow) = SetCompact (nBits block) in
      if fNegative \<or> fOverflow \<or> EqualTo bnTarget 0 then Inr (base_uint_of_u64 0)
      else case base_uint_div (base_uint_not bnTarget) (base_uint_add64 bnTarget 1) of
             Inl e \<Rightarrow> Inl e | Inr q \<Rightarrow> Inr (base_uint_add64 q 1))"

definition GetBlockProofEquivalentTime ::
    "CBlockIndex \<Rightarrow> CBlockIndex \<Rightarrow> CBlockIndex \<Rightarrow> u64 \<Rightarrow> uint_error + int" where
  "GetBlockProofEquivalentTime to from tip nPowTargetSpacing =
     (let (r, sign) = (if CompareTo (nChainWork to) (nChainWork from) > 0
                       then (base_uint_sub (nChainWork to) (nChainWork from), 1)
                       else (base_uint_sub (nChainWork from) (nChainWork to), - 1))
      in case GetBlockProof tip of Inl e \<Rightarrow> Inl e
         | Inr proof' \<Rightarrow>
           (case base_uint_div (base_uint_mul r (base_uint_of_u64 nPowTargetSpacing)) proof' of Inl e \<Rightarrow> Inl e
            | Inr q \<Rightarrow> if base_uint_bits q > 63 then Inr (sign * (2 ^ 63 - 1))
                       else Inr (sign * uint (GetLow64 q))))"

subsection \<open>The active chain\<close>

type_synonym CChain = "block_ptr option list"

definition Genesis :: "CChain \<Rightarrow> block_ptr option" where
  "Genesis vChain = (if length vChain > 0 then vChain ! 0 else None)"

definition Tip :: "CChain \<Rightarrow> block_ptr option" where
  "Tip vChain = (if length vChain > 0 then vChain ! (length vChain - 1) else None)"

definition chain_at :: "CChain \<Rightarrow> int \<Rightarrow> block_ptr option" where
  "chain_at vChain h = (if h < 0 \<or> h \<ge> int (length vChain) then None else vChain ! nat h)"

definition Height :: "CChain \<Rightarrow> int" where
  "Height vChain = int (length vChain) - 1"

definition Contains :: "block_store \<Rightarrow> CChain \<Rightarrow> block_ptr \<Rightarrow> fault + bool" where
  "Contains st vChain p =
     (case st p of None \<Rightarrow> Inl BadPointer | Some b \<Rightarrow> Inr (chain_at vChain (int (nHeight b)) = Some p))"

definition chain_Next :: "block_store \<Rightarrow> CChain \<Rightarrow> block_ptr \<Rightarrow> fault + block_ptr option" where
  "chain_Next st vChain p =
     (case st p of None \<Rightarrow> Inl BadPointer
      | Some b \<Rightarrow> if chain_at vChain (int (nHeight b)) = Some p then Inr (chain_at vChain (int (nHeight b) + 1))
                 else Inr None)"

text \<open>\<^verbatim>\<open>vChain.resize(n)\<close> truncates or appends null pointers.\<close>

definition resize :: "CChain \<Rightarrow> nat \<Rightarrow> CChain" where
  "resize vChain n = take n vChain @ replicate (n - length vChain) None"

text \<open>
  The loop of \<open>SetTip\<close> follows \<^verbatim>\<open>pprev\<close> until it meets an entry already in place.  It is bounded by
  fuel: the walk goes down one height at each step, so one unit per height and one for the
  null pointer at the end suffice.
\<close>

fun set_tip_loop :: "nat \<Rightarrow> block_store \<Rightarrow> CChain \<Rightarrow> block_ptr option \<Rightarrow> fault + CChain" where
  "set_tip_loop n st vChain None = Inr vChain"
| "set_tip_loop 0 st vChain (Some p) = Inl OutOfFuel"
| "set_tip_loop (Suc n) st vChain (Some p) =
     (case st p of None \<Rightarrow> Inl BadPointer
      | Some b \<Rightarrow>
        if \<not> nHeight b < length vChain then Inl BadPointer
        else if vChain ! nHeight b \<noteq> Some p
        then set_tip_loop n st (vChain[nHeight b := Some p]) (pprev b)
        else Inr vChain)"

definition SetTip :: "block_store \<Rightarrow> CChain \<Rightarrow> block_ptr \<Rightarrow> fault + CChain" where
  "SetTip st vChain p =
     (case st p of None \<Rightarrow> Inl BadPointer
      | Some b \<Rightarrow> set_tip_loop (Suc (nHeight b)) st (resize vChain (nHeight b + 1)) (Some p))"

fun find_fork_loop :: "nat \<Rightarrow> block_store \<Rightarrow> CChain \<Rightarrow> block_ptr option \<Rightarrow> fault + block_ptr option" where
  "find_fork_loop n st vChain None = Inr None"
| "find_fork_loop 0 st vChain (Some p) = Inl OutOfFuel"
| "find_fork_loop (Suc n) st vChain (Some p) =
     (case st p of None \<Rightarrow> Inl BadPointer
      | Some b \<Rightarrow> if chain_at vChain (int (nHeight b)) = Some p then Inr (Some p)
                 else find_fork_loop n st vChain (pprev b))"

definition FindFork :: "block_store \<Rightarrow> CChain \<Rightarrow> block_ptr option \<Rightarrow> fault + block_ptr option" where
  "FindFork st vChain pindex =
     (case pindex of None \<Rightarrow> Inr None
      | Some p \<Rightarrow>
        (case st p of None \<Rightarrow> Inl BadPointer
         | Some b \<Rightarrow>
           (case (if int (nHeight b) > Height vChain then GetAncestor st p (Height vChain) else Inr (Some p)) of
              Inl e \<Rightarrow> Inl e
            | Inr q \<Rightarrow> find_fork_loop (Suc (nHeight b)) st vChain q)))"

text \<open>
  \<^verbatim>\<open>std::lower_bound\<close> over the chain: the range \<open>[first, first + len)\<close> is halved at each step; \<open>P\<close> is
  the comparison of an element with the searched value.
\<close>

function lower_bound :: "(nat \<Rightarrow> bool) \<Rightarrow> nat \<Rightarrow> nat \<Rightarrow> nat" where
  "lower_bound P first len =
     (if len = 0 then first
      else let half = len div 2; middle = first + half in
        if P middle then lower_bound P (middle + 1) (len - half - 1) else lower_bound P first half)"
  by pat_completeness auto
termination
  by (relation "measure (\<lambda>(P, first, len). len)") auto

declare lower_bound.simps [simp del]

definition FindEarliestAtLeast :: "block_store \<Rightarrow> CChain \<Rightarrow> int \<Rightarrow> int \<Rightarrow> block_ptr option" where
  "FindEarliestAtLeast st vChain nTime' height =
     (let lower = lower_bound (\<lambda>i. case vChain ! i of None \<Rightarrow> False | Some p \<Rightarrow>
                    (case st p of None \<Rightarrow> False
                     | Some b \<Rightarrow> GetBlockTimeMax b < nTime' \<or> int (nHeight b) < height)) 0 (length vChain)
      in if lower = length vChain then None else vChain ! lower)"

text \<open>
  \<^verbatim>\<open>nStep\<close> doubles once eleven hashes have been collected; each iteration moves to a strictly lower
  height, so the height of the starting block bounds the number of iterations.
\<close>

fun locator_loop ::
    "nat \<Rightarrow> block_store \<Rightarrow> CChain \<Rightarrow> int \<Rightarrow> uint256 list \<Rightarrow> block_ptr option \<Rightarrow> fault + uint256 list" where
  "locator_loop n st vChain nStep vHave None = Inr vHave"
| "locator_loop 0 st vChain nStep vHave (Some p) = Inl OutOfFuel"
| "locator_loop (Suc n) st vChain nStep vHave (Some p) =
     (case st p of None \<Rightarrow> Inl BadPointer
      | Some b \<Rightarrow>
        let vHave' = vHave @ [phashBlock b] in
        if nHeight b = 0 then Inr vHave'
        else let h = max (int (nHeight b) - nStep) 0;
                 nStep' = (if length vHave' > 10 then 2 * nStep else nStep) in
          (case (if chain_at vChain (int (nHeight b)) = Some p then Inr (chain_at vChain h) else GetAncestor st p h) of
             Inl e \<Rightarrow> Inl e
           | Inr q \<Rightarrow> locator_loop n st vChain nStep' vHave' q))"

definition GetLocator :: "block_store \<Rightarrow> CChain \<Rightarrow> block_ptr option \<Rightarrow> fault + uint256 list" where
  "GetLocator st vChain pindex =
     (let pindex = (case pindex of None \<Rightarrow> Tip vChain | Some p \<Rightarrow> Some p) in
      case pindex of None \<Rightarrow> Inr []
      | Some p \<Rightarrow> (case st p of None \<Rightarrow> Inl BadPointer
                   | Some b \<Rightarrow> locator_loop (Suc (nHeight b)) st vChain 1 [] (Some p)))"

fun last_common_loop :: "nat \<Rightarrow> block_store \<Rightarrow> block_ptr option \<Rightarrow> block_ptr option \<Rightarrow> fault + block_ptr option" where
  "last_common_loop n st pa pb =
     (if pa = pb then Inr pa
      else case (pa, pb) of
        (Some a, Some b) \<Rightarrow>
          (case n of 0 \<Rightarrow> Inl OutOfFuel
           | Suc m \<Rightarrow> (case (st a, st b) of
                        (Some ba, Some bb) \<Rightarrow> last_common_loop m st (pprev ba) (pprev bb)
                      | _ \<Rightarrow> Inl BadPointer))
      | _ \<Rightarrow> Inl AssertFailed)"

declare last_common_loop.simps [simp del]

definition LastCommonAncestor :: "block_store \<Rightarrow> block_ptr \<Rightarrow> block_ptr \<Rightarrow> fault + block_ptr option" where
  "LastCommonAncestor st pa pb =
     (case (st pa, st pb) of
        (Some ba, Some bb) \<Rightarrow>
          (if nHeight ba > nHeight bb
           then (case GetAncestor st pa (int (nHeight bb)) of Inl e \<Rightarrow> Inl e
                 | Inr qa \<Rightarrow> last_common_loop (Suc (nHeight bb)) st qa (Some pb))
           else if nHeight bb > nHeight ba
           then (case GetAncestor st pb (int (nHeight ba)) of Inl e \<Rightarrow> Inl e
                 | Inr qb \<Rightarrow> last_common_loop (Suc (nHeight ba)) st (Some pa) qb)
           else last_common_loop (Suc (nHeight ba)) st (Some pa) (Some pb))
      | _ \<Rightarrow> Inl BadPointer)"

subsection \<open>Ancestors by following \<^verbatim>\<open>pprev\<close>\<close>

fun nth_prev :: "block_store \<Rightarrow> nat \<Rightarrow> block_ptr \<Rightarrow> block_ptr option" where
  "nth_prev st 0 p = Some p"
| "nth_prev st (Suc n) p =
     (case st p of None \<Rightarrow> None | Some b \<Rightarrow> (case pprev b of None \<Rightarrow> None | Some q \<Rightarrow> nth_prev st n q))"

definition links_ok :: "block_store \<Rightarrow> bool" where
  "links_ok st \<longleftrightarrow> (\<forall>p b. st p = Some b \<longrightarrow>
     (case pprev b of None \<Rightarrow> nHeight b = 0
      | Some q \<Rightarrow> (\<exists>c. st q = Some c \<and> nHeight b = Suc (nHeight c))))"

definition skips_ok :: "block_store \<Rightarrow> bool" where
  "skips_ok st \<longleftrightarrow> (\<forall>p b q. st p = Some b \<longrightarrow> pskip b = Some q \<longrightarrow>
     nHeight b > 0 \<and> nth_prev st (nHeight b - GetSkipHeight (nHeight b)) p = Some q)"

definition wf_tree :: "block_store \<Rightarrow> bool" where
  "wf_tree st \<longleftrightarrow> links_ok st \<and> skips_ok st"

lemma links_okE:
  assumes "links_ok st" "st p = Some b"
  obtains "pprev b = None" "nHeight b = 0"
  | q c where "pprev b = Some q" "st q = Some c" "nHeight b = Suc (nHeight c)"
proof (cases "pprev b")
  case None
  with assms have "nHeight b = 0" unfolding links_ok_def by fastforce
  with None show thesis by (rule that(1))
next
  case (Some q)
  with assms obtain c where "st q = Some c" "nHeight b = Suc (nHeight c)" unfolding links_ok_def by fastforce
  with Some show thesis by (rule that(2))
qed

lemma nth_prev_height:
  assumes "links_ok st"
  shows "st p = Some b \<Longrightarrow> n \<le> nHeight b \<Longrightarrow> \<exists>q c. nth_prev st n p = Some q \<and> st q = Some c \<and> nHeight c + n = nHeight b"
proof (induction n arbitrary: p b)
  case (Suc n)
  then obtain q c where q: "pprev b = Some q" "st q = Some c" "nHeight b = Suc (nHeight c)"
    using assms by (auto elim: links_okE)
  then show ?case using Suc.IH [of q c] Suc.prems by simp
qed simp

lemma nth_prev_add: "nth_prev st (m + n) p = Option.bind (nth_prev st m p) (nth_prev st n)"
  by (induction m arbitrary: p) (simp_all split: option.split)

lemma nth_prev_some_le:
  assumes "links_ok st"
  shows "st p = Some b \<Longrightarrow> nth_prev st n p = Some q \<Longrightarrow> n \<le> nHeight b"
proof (induction n arbitrary: p b)
  case (Suc n)
  then obtain q' where q: "pprev b = Some q'" "nth_prev st n q' = Some q" by (auto split: option.splits)
  then show ?case using assms Suc by (auto elim: links_okE)
qed simp

lemma nth_prev_SucD:
  assumes "nth_prev st n p = Some q" "st q = Some c" "pprev c = Some r"
  shows "nth_prev st (Suc n) p = Some r"
  using nth_prev_add [of st n 1 p] assms by simp

lemma ancestor_walk_nth_prev:
  assumes "wf_tree st"
  shows "st p = Some b \<Longrightarrow> nHeight b = hw \<Longrightarrow> h \<le> hw \<Longrightarrow>
    \<exists>q. ancestor_walk st h p hw = Inr q \<and> nth_prev st (hw - h) p = Some q"
proof (induction hw arbitrary: p b rule: less_induct)
  case (less hw)
  have lk: "links_ok st" "skips_ok st" using assms by (simp_all add: wf_tree_def)
  show ?case
  proof (cases "hw = h")
    case False
    then have h: "h < hw" using less.prems by simp
    obtain q' c where q': "pprev b = Some q'" "st q' = Some c" "hw = Suc (nHeight c)"
      using lk(1) less.prems h by (auto elim: links_okE)
    have prev: "\<exists>q. ancestor_walk st h q' (hw - 1) = Inr q \<and> nth_prev st (hw - h) p = Some q"
    proof -
      have "\<exists>q. ancestor_walk st h q' (hw - 1) = Inr q \<and> nth_prev st (hw - 1 - h) q' = Some q"
      proof (rule less.IH)
        show "hw - 1 < hw" "h \<le> hw - 1" using h by simp_all
        show "st q' = Some c" "nHeight c = hw - 1" using q' by simp_all
      qed
      moreover have "hw - h = Suc (hw - 1 - h)" using h by simp
      ultimately show ?thesis using less.prems q' by simp
    qed
    have skip: "\<exists>r. ancestor_walk st h q (GetSkipHeight hw) = Inr r \<and> nth_prev st (hw - h) p = Some r"
      if q: "pskip b = Some q" and sk: "h \<le> GetSkipHeight hw" for q
    proof -
      have sl: "GetSkipHeight hw < hw" using h by (simp add: GetSkipHeight_less)
      have np: "nth_prev st (hw - GetSkipHeight hw) p = Some q"
        using lk(2) less.prems q by (auto simp: skips_ok_def)
      then obtain d where d: "st q = Some d" "nHeight d = GetSkipHeight hw"
        using nth_prev_height [OF lk(1) less.prems(1), of "hw - GetSkipHeight hw"] less.prems sl by auto
      have "hw - h = (hw - GetSkipHeight hw) + (GetSkipHeight hw - h)" using sk sl by simp
      then have "nth_prev st (hw - h) p = nth_prev st (GetSkipHeight hw - h) q"
        using np nth_prev_add by simp
      then show ?thesis using less.IH [OF sl d sk] by simp
    qed
    note unf = ancestor_walk.simps [of st h p hw]
    show ?thesis
    proof (cases "pskip b")
      case None
      then show ?thesis using prev h less.prems(1) q'(1) by (simp add: unf)
    next
      case (Some q)
      show ?thesis
      proof (cases "GetSkipHeight hw = h \<or> GetSkipHeight hw > h \<and>
          \<not> (int (GetSkipHeight (hw - 1)) < int (GetSkipHeight hw) - 2 \<and> GetSkipHeight (hw - 1) \<ge> h)")
        case True
        then have "h \<le> GetSkipHeight hw" by auto
        from skip [OF Some this] show ?thesis using True Some h less.prems(1) by (simp add: unf)
      next
        case False
        then have "ancestor_walk st h p hw = ancestor_walk st h q' (hw - 1)"
          unfolding unf using Some h less.prems(1) q'(1) by (simp only: if_True option.case Let_def if_False)
        then show ?thesis using prev by simp
      qed
    qed
  qed (subst ancestor_walk.simps, simp)
qed

lemma GetAncestor_nth_prev:
  assumes "wf_tree st" "st p = Some b" "h \<le> nHeight b"
  shows "GetAncestor st p (int h) = Inr (nth_prev st (nHeight b - h) p)"
  using ancestor_walk_nth_prev [OF assms(1,2) refl assms(3)] assms(2,3) by (auto simp: GetAncestor_def)

lemma nth_prev_upd_skip:
  assumes "st p = Some b"
  shows "nth_prev (st(p \<mapsto> b\<lparr>pskip := s\<rparr>)) n q = nth_prev st n q"
  using assms by (induction n arbitrary: q) (auto split: option.splits)

lemma BuildSkip_wf_tree:
  assumes "wf_tree st" "st p = Some b" "nHeight b > 0"
  obtains st' where "BuildSkip st p = Inr st'" "wf_tree st'"
    "st' = st(p \<mapsto> b\<lparr>pskip := nth_prev st (nHeight b - GetSkipHeight (nHeight b)) p\<rparr>)"
proof -
  have lk: "links_ok st" "skips_ok st" using assms by (simp_all add: wf_tree_def)
  obtain q c where q: "pprev b = Some q" "st q = Some c" "nHeight b = Suc (nHeight c)"
    using lk(1) assms(2,3) by (auto elim: links_okE)
  let ?g = "GetSkipHeight (nHeight b)"
  have g: "?g \<le> nHeight c" using GetSkipHeight_less [of "nHeight b"] q(3) by simp
  let ?s = "nth_prev st (nHeight b - ?g) p"
  have "nHeight b - ?g = Suc (nHeight c - ?g)" using g q(3) by simp
  then have s: "nth_prev st (nHeight c - ?g) q = ?s" using assms(2) q by simp
  define st' where "st' = st(p \<mapsto> b\<lparr>pskip := ?s\<rparr>)"
  have B: "BuildSkip st p = Inr st'"
    using GetAncestor_nth_prev [OF assms(1) q(2) g] assms(2) q(1) s by (simp add: BuildSkip_def st'_def)
  have np: "nth_prev st' n r = nth_prev st n r" for n r
    unfolding st'_def using assms(2) by (rule nth_prev_upd_skip)
  have "links_ok st'"
    unfolding links_ok_def
  proof (intro allI impI)
    fix r d assume "st' r = Some d"
    then obtain e where e: "st r = Some e" "pprev d = pprev e" "nHeight d = nHeight e"
      using assms(2) by (auto simp: st'_def split: if_splits)
    show "case pprev d of None \<Rightarrow> nHeight d = 0 | Some q \<Rightarrow> \<exists>c. st' q = Some c \<and> nHeight d = Suc (nHeight c)"
      using lk(1) e(1) by (rule links_okE) (use e assms(2) in \<open>auto simp: st'_def\<close>)
  qed
  moreover have "skips_ok st'"
    using lk(2) assms(2,3) unfolding skips_ok_def np by (auto simp: st'_def)
  ultimately show thesis using that B by (simp add: wf_tree_def st'_def)
qed

subsection \<open>The active chain\<close>

definition chain_ok :: "block_store \<Rightarrow> CChain \<Rightarrow> bool" where
  "chain_ok st vChain \<longleftrightarrow> (\<forall>i < length vChain. \<exists>p b. vChain ! i = Some p \<and> st p = Some b \<and> nHeight b = i \<and>
     (i > 0 \<longrightarrow> pprev b = vChain ! (i - 1)))"

lemma chain_okE:
  assumes "chain_ok st vChain" "i < length vChain"
  obtains p b where "vChain ! i = Some p" "st p = Some b" "nHeight b = i" "i > 0 \<Longrightarrow> pprev b = vChain ! (i - 1)"
  using assms unfolding chain_ok_def by blast

lemma chain_ok_nth_prev:
  assumes "chain_ok st vChain" "i < length vChain" "vChain ! i = Some p"
  shows "n \<le> i \<Longrightarrow> nth_prev st n p = vChain ! (i - n)"
  using assms(2,3)
proof (induction n arbitrary: i p)
  case (Suc n)
  obtain b where b: "st p = Some b" "pprev b = vChain ! (i - 1)"
    by (rule chain_okE [OF assms(1) Suc.prems(2)]) (use Suc.prems in auto)
  have "i - 1 < length vChain" using Suc.prems by simp
  then obtain q where q: "vChain ! (i - 1) = Some q" by (rule chain_okE [OF assms(1)])
  then show ?case using Suc.IH [of "i - 1" q] Suc.prems b by simp
qed simp

text \<open>
  The state of the loop after \<open>k\<close> steps: the top \<open>k\<close> entries are the ancestors of the new tip and
  the others are those of the resized old chain.
\<close>

lemma set_tip_loop_correct:
  assumes lk: "links_ok st" and tip: "st t = Some bt" "length u = Suc (nHeight bt)"
    and ok: "\<And>i p. i < length u \<Longrightarrow> u ! i = Some p \<Longrightarrow> \<forall>n \<le> i. nth_prev st n p = u ! (i - n)"
  shows "k \<le> Suc (nHeight bt) \<Longrightarrow> length v = length u \<Longrightarrow>
     (\<forall>i < length u. v ! i = (if nHeight bt < i + k then nth_prev st (nHeight bt - i) t else u ! i)) \<Longrightarrow>
     \<exists>w. set_tip_loop (Suc (nHeight bt) - k) st v (nth_prev st k t) = Inr w \<and> length w = length u \<and>
         (\<forall>i < length u. w ! i = nth_prev st (nHeight bt - i) t)"
proof (induction "Suc (nHeight bt) - k" arbitrary: k v)
  case 0
  then have k: "k = Suc (nHeight bt)" by simp
  have "nth_prev st k t = None"
  proof (rule ccontr)
    assume "nth_prev st k t \<noteq> None"
    then have "k \<le> nHeight bt" using nth_prev_some_le [OF lk tip(1)] by auto
    with k show False by simp
  qed
  then show ?case using 0 k tip(2) by auto
next
  case (Suc n)
  then have kn: "k \<le> nHeight bt" "n = nHeight bt - k" by auto
  obtain p b where p: "nth_prev st k t = Some p" "st p = Some b" "nHeight b + k = nHeight bt"
    using nth_prev_height [OF lk tip(1) kn(1)] by blast
  have hb: "nHeight b < length v" "nHeight b < length u" using p(3) tip(2) Suc.prems(2) by auto
  have f: "Suc (nHeight bt) - k = Suc n" using Suc.hyps(2) by simp
  show ?case
  proof (cases "v ! nHeight b = Some p")
    case True
    have vb: "v ! nHeight b = u ! nHeight b" using Suc.prems(3) hb p(3) by auto
    have "w ! i = nth_prev st (nHeight bt - i) t" if "i < length u" "w = v" for i w
    proof (cases "nHeight bt < i + k")
      case True
      then show ?thesis using Suc.prems(3) that by simp
    next
      case False
      then have ib: "i \<le> nHeight b" using p(3) by simp
      have "u ! i = nth_prev st (nHeight b - i) p"
        using ok [OF hb(2)] True vb ib by (metis diff_diff_cancel diff_le_self)
      also have "\<dots> = nth_prev st (k + (nHeight b - i)) t" using nth_prev_add [of st k] p(1) by simp
      also have "k + (nHeight b - i) = nHeight bt - i" using ib p(3) by simp
      finally show ?thesis using Suc.prems(3) that False by simp
    qed
    then show ?thesis using True p hb f Suc.prems(2) by simp
  next
    case False
    let ?v = "v[nHeight b := Some p]"
    have st: "nth_prev st (Suc k) t = pprev b" using nth_prev_add [of st k 1 t] p by (simp split: option.split)
    have inv: "\<forall>i < length u. ?v ! i = (if nHeight bt < i + Suc k then nth_prev st (nHeight bt - i) t else u ! i)"
    proof (intro allI impI)
      fix i assume i: "i < length u"
      consider "i = nHeight b" | "i \<noteq> nHeight b" by blast
      then show "?v ! i = (if nHeight bt < i + Suc k then nth_prev st (nHeight bt - i) t else u ! i)"
      proof cases
        case 1
        have "nHeight bt - nHeight b = k" using p(3) by simp
        then show ?thesis using 1 p hb by simp
      next
        case 2
        then have "nHeight bt < i + Suc k \<longleftrightarrow> nHeight bt < i + k" using p(3) by auto
        then show ?thesis using 2 Suc.prems(3) i by simp
      qed
    qed
    have "\<exists>w. set_tip_loop (Suc (nHeight bt) - Suc k) st ?v (nth_prev st (Suc k) t) = Inr w \<and> length w = length u \<and>
         (\<forall>i < length u. w ! i = nth_prev st (nHeight bt - i) t)"
      by (rule Suc.hyps(1)) (use Suc.hyps(2) kn Suc.prems(2) inv in simp_all)
    moreover have "Suc (nHeight bt) - Suc k = n" using kn by simp
    ultimately show ?thesis using False p hb f by (simp only: st) simp
  qed
qed

lemma resize_prefix:
  assumes "chain_ok st vChain" "i < length (resize vChain n)" "resize vChain n ! i = Some p"
  shows "\<forall>k \<le> i. nth_prev st k p = resize vChain n ! (i - k)"
proof -
  have i: "i < n" "i < length vChain" "vChain ! i = Some p"
    using assms(2,3) by (auto simp: resize_def nth_append split: if_splits)
  have "resize vChain n ! j = vChain ! j" if "j \<le> i" for j
    using that i by (simp add: resize_def nth_append)
  then show ?thesis using chain_ok_nth_prev [OF assms(1) i(2,3)] by simp
qed

lemma SetTip_nth_prev:
  assumes "links_ok st" "chain_ok st vChain" "st p = Some b"
  obtains w where "SetTip st vChain p = Inr w" "length w = Suc (nHeight b)"
    "\<And>i. i \<le> nHeight b \<Longrightarrow> w ! i = nth_prev st (nHeight b - i) p"
proof -
  let ?u = "resize vChain (nHeight b + 1)"
  have len: "length ?u = Suc (nHeight b)" by (simp add: resize_def)
  have "\<exists>w. set_tip_loop (Suc (nHeight b) - 0) st ?u (nth_prev st 0 p) = Inr w \<and> length w = length ?u \<and>
         (\<forall>i < length ?u. w ! i = nth_prev st (nHeight b - i) p)"
    by (rule set_tip_loop_correct [OF assms(1,3) len])
      (use resize_prefix [OF assms(2)] len in \<open>auto simp del: set_tip_loop.simps\<close>)
  then show thesis using that assms(3) len by (auto simp: SetTip_def simp del: set_tip_loop.simps)
qed

lemma chain_ok_ancestors:
  assumes "links_ok st" "st p = Some b" "length w = Suc (nHeight b)"
    "\<And>i. i \<le> nHeight b \<Longrightarrow> w ! i = nth_prev st (nHeight b - i) p"
  shows "chain_ok st w"
  unfolding chain_ok_def
proof (intro allI impI)
  fix i assume "i < length w"
  then have i: "i \<le> nHeight b" using assms(3) by simp
  obtain q c where q: "nth_prev st (nHeight b - i) p = Some q" "st q = Some c" "nHeight c + (nHeight b - i) = nHeight b"
    using nth_prev_height [OF assms(1,2), of "nHeight b - i"] by auto
  have "pprev c = w ! (i - 1)" if "i > 0"
  proof -
    have "nHeight b - (i - 1) = (nHeight b - i) + 1" using that i by simp
    then have "w ! (i - 1) = nth_prev st 1 q"
      using assms(4) [of "i - 1"] i q(1) nth_prev_add [of st "nHeight b - i" 1 p] by simp
    then show ?thesis using q(2) by (simp split: option.split)
  qed
  then show "\<exists>p b. w ! i = Some p \<and> st p = Some b \<and> nHeight b = i \<and> (0 < i \<longrightarrow> pprev b = w ! (i - 1))"
    using assms(4) [OF i] q i by auto
qed

subsection \<open>Forks and common ancestors\<close>

definition in_chain :: "block_store \<Rightarrow> CChain \<Rightarrow> block_ptr \<Rightarrow> bool" where
  "in_chain st vChain q \<longleftrightarrow> (\<exists>c. st q = Some c \<and> chain_at vChain (int (nHeight c)) = Some q)"

definition anc :: "block_store \<Rightarrow> block_ptr \<Rightarrow> block_ptr \<Rightarrow> bool" where
  "anc st p q \<longleftrightarrow> (\<exists>n. nth_prev st n p = Some q)"

lemma nth_prev_None:
  assumes "links_ok st" "st p = Some b" "nHeight b < n"
  shows "nth_prev st n p = None"
  using nth_prev_some_le [OF assms(1,2), of n] assms(3) by (cases "nth_prev st n p") auto

lemma find_fork_loop_first:
  assumes lk: "links_ok st" and b: "st p = Some b"
  shows "Suc (nHeight b) - k \<le> n \<Longrightarrow>
    \<exists>r. find_fork_loop n st vChain (nth_prev st k p) = Inr r \<and>
      (case r of None \<Rightarrow> \<forall>j q. k \<le> j \<longrightarrow> nth_prev st j p = Some q \<longrightarrow> \<not> in_chain st vChain q
       | Some q \<Rightarrow> \<exists>j \<ge> k. nth_prev st j p = Some q \<and> in_chain st vChain q \<and>
           (\<forall>i q'. k \<le> i \<longrightarrow> i < j \<longrightarrow> nth_prev st i p = Some q' \<longrightarrow> \<not> in_chain st vChain q'))"
proof (induction n arbitrary: k)
  case 0
  then have "nth_prev st j p = None" if "k \<le> j" for j
    using nth_prev_None [OF lk b] that by simp
  then show ?case by simp
next
  case (Suc n)
  show ?case
  proof (cases "nth_prev st k p")
    case None
    have "nth_prev st j p = None" if "k \<le> j" for j
      using nth_prev_add [of st k "j - k" p] None that by simp
    then show ?thesis using None by simp
  next
    case (Some q)
    then obtain c where c: "st q = Some c" 
      using nth_prev_height [OF lk b] nth_prev_some_le [OF lk b] by fastforce
    show ?thesis
    proof (cases "in_chain st vChain q")
      case True
      then show ?thesis using Some c by (auto simp: in_chain_def intro!: exI [of _ k])
    next
      case False
      have nx: "pprev c = nth_prev st (Suc k) p"
        using nth_prev_add [of st k 1 p] Some c by (simp split: option.split)
      have step: "find_fork_loop (Suc n) st vChain (nth_prev st k p) = find_fork_loop n st vChain (nth_prev st (Suc k) p)"
        using False Some c by (simp add: in_chain_def nx [symmetric] del: nth_prev.simps)
      have notk: "nth_prev st i p = Some q' \<Longrightarrow> \<not> in_chain st vChain q'" if "i = k" for i q'
        using that False Some by simp
      obtain r where r: "find_fork_loop n st vChain (nth_prev st (Suc k) p) = Inr r"
        "case r of None \<Rightarrow> \<forall>j q. Suc k \<le> j \<longrightarrow> nth_prev st j p = Some q \<longrightarrow> \<not> in_chain st vChain q
         | Some q \<Rightarrow> \<exists>j \<ge> Suc k. nth_prev st j p = Some q \<and> in_chain st vChain q \<and>
           (\<forall>i q'. Suc k \<le> i \<longrightarrow> i < j \<longrightarrow> nth_prev st i p = Some q' \<longrightarrow> \<not> in_chain st vChain q')"
      proof -
        have "Suc (nHeight b) - Suc k \<le> n" using Suc.prems by simp
        from Suc.IH [OF this] show thesis using that by blast
      qed
      show ?thesis
      proof (cases r)
        case None
        have "\<not> in_chain st vChain q'" if "k \<le> j" "nth_prev st j p = Some q'" for j q'
        proof (cases "j = k")
          case False
          then have "Suc k \<le> j" using that by simp
          then show ?thesis using that(2) r(2) None by simp
        qed (use that notk in simp)
        then show ?thesis using r(1) step None by simp
      next
        case (Some x)
        then obtain j where j: "Suc k \<le> j" "nth_prev st j p = Some x" "in_chain st vChain x"
          "\<And>i q'. Suc k \<le> i \<Longrightarrow> i < j \<Longrightarrow> nth_prev st i p = Some q' \<Longrightarrow> \<not> in_chain st vChain q'"
          using r(2) by auto
        have "\<not> in_chain st vChain q'" if "k \<le> i" "i < j" "nth_prev st i p = Some q'" for i q'
          using that j(4) [of i q'] notk [of i q'] by (cases "i = k") simp_all
        then have "\<exists>j \<ge> k. nth_prev st j p = Some x \<and> in_chain st vChain x \<and>
           (\<forall>i q'. k \<le> i \<longrightarrow> i < j \<longrightarrow> nth_prev st i p = Some q' \<longrightarrow> \<not> in_chain st vChain q')"
          using j by (intro exI [of _ j]) auto
        then show ?thesis using r(1) step Some by simp
      qed
    qed
  qed
qed

lemma above_tip_not_in_chain:
  assumes "links_ok st" "st p = Some b" "nth_prev st i p = Some q" "int i < int (nHeight b) - Height vChain"
  shows "\<not> in_chain st vChain q"
proof -
  have "i \<le> nHeight b" using nth_prev_some_le [OF assms(1,2,3)] .
  then obtain c where "st q = Some c" "nHeight c + i = nHeight b"
    using nth_prev_height [OF assms(1,2), of i] assms(3) by auto
  then show ?thesis using assms(4) by (auto simp: in_chain_def chain_at_def Height_def)
qed

lemma FindFork_first:
  assumes wf: "wf_tree st" and b: "st p = Some b"
  obtains r where "FindFork st vChain (Some p) = Inr r"
    "case r of None \<Rightarrow> \<forall>q. anc st p q \<longrightarrow> \<not> in_chain st vChain q
     | Some q \<Rightarrow> anc st p q \<and> in_chain st vChain q \<and> (\<forall>q'. anc st p q' \<longrightarrow> in_chain st vChain q' \<longrightarrow> anc st q q')"
proof -
  have lk: "links_ok st" using wf by (simp add: wf_tree_def)
  define k where "k = (if int (nHeight b) > Height vChain then nat (int (nHeight b) - Height vChain) else 0)"
  have start: "(if int (nHeight b) > Height vChain then GetAncestor st p (Height vChain) else Inr (Some p)) = Inr (nth_prev st k p)"
  proof (cases "int (nHeight b) > Height vChain")
    case True
    show ?thesis
    proof (cases "Height vChain < 0")
      case neg: True
      then have "nHeight b < k" using True by (simp add: k_def)
      then show ?thesis using True neg b nth_prev_None [OF lk b] by (simp add: GetAncestor_def)
    next
      case False
      then have "k = nHeight b - nat (Height vChain)" using True by (simp add: k_def)
      then show ?thesis
        using GetAncestor_nth_prev [OF wf b, of "nat (Height vChain)"] True False by simp
    qed
  qed (simp add: k_def)
  have low: "\<not> in_chain st vChain q" if "i < k" "nth_prev st i p = Some q" for i q
    using above_tip_not_in_chain [OF lk b that(2)] that(1) by (auto simp: k_def split: if_splits)
  obtain r where r: "find_fork_loop (Suc (nHeight b)) st vChain (nth_prev st k p) = Inr r"
      "case r of None \<Rightarrow> \<forall>j q. k \<le> j \<longrightarrow> nth_prev st j p = Some q \<longrightarrow> \<not> in_chain st vChain q
       | Some q \<Rightarrow> \<exists>j \<ge> k. nth_prev st j p = Some q \<and> in_chain st vChain q \<and>
           (\<forall>i q'. k \<le> i \<longrightarrow> i < j \<longrightarrow> nth_prev st i p = Some q' \<longrightarrow> \<not> in_chain st vChain q')"
    using find_fork_loop_first [OF lk b, of k "Suc (nHeight b)" vChain] by auto
  have F: "FindFork st vChain (Some p) = Inr r"
    using b start r(1) by (simp add: FindFork_def del: find_fork_loop.simps)
  show thesis
  proof (rule that [OF F], cases r)
    case None
    then show "case r of None \<Rightarrow> \<forall>q. anc st p q \<longrightarrow> \<not> in_chain st vChain q
     | Some q \<Rightarrow> anc st p q \<and> in_chain st vChain q \<and> (\<forall>q'. anc st p q' \<longrightarrow> in_chain st vChain q' \<longrightarrow> anc st q q')"
      using r(2) low by (auto simp: anc_def) (metis not_le)
  next
    case (Some q)
    then obtain j where j: "k \<le> j" "nth_prev st j p = Some q" "in_chain st vChain q"
      "\<And>i q'. k \<le> i \<Longrightarrow> i < j \<Longrightarrow> nth_prev st i p = Some q' \<Longrightarrow> \<not> in_chain st vChain q'" using r(2) by auto
    have "anc st q q'" if "nth_prev st i p = Some q'" "in_chain st vChain q'" for i q'
    proof -
      have "j \<le> i" using j(4) low that by (meson not_le)
      then have "nth_prev st (i - j) q = Some q'" using nth_prev_add [of st j "i - j" p] j(2) that(1) by simp
      then show ?thesis by (auto simp: anc_def)
    qed
    then show "case r of None \<Rightarrow> \<forall>q. anc st p q \<longrightarrow> \<not> in_chain st vChain q
     | Some q \<Rightarrow> anc st p q \<and> in_chain st vChain q \<and> (\<forall>q'. anc st p q' \<longrightarrow> in_chain st vChain q' \<longrightarrow> anc st q q')"
      using Some j by (auto simp: anc_def)
  qed
qed


lemma last_common_loop_first:
  assumes lk: "links_ok st" and a: "st a = Some ba" and b: "st b = Some bb" and h: "nHeight ba = nHeight bb"
  shows "Suc (nHeight ba) - k \<le> n \<Longrightarrow>
    \<exists>j \<ge> k. last_common_loop n st (nth_prev st k a) (nth_prev st k b) = Inr (nth_prev st j a) \<and>
      nth_prev st j a = nth_prev st j b \<and> (\<forall>i. k \<le> i \<longrightarrow> i < j \<longrightarrow> nth_prev st i a \<noteq> nth_prev st i b)"
proof (induction n arbitrary: k)
  case 0
  then have "nth_prev st k a = None" "nth_prev st k b = None"
    using nth_prev_None [OF lk a] nth_prev_None [OF lk b] h by simp_all
  then show ?case by (intro exI [of _ k]) (simp add: last_common_loop.simps)
next
  case (Suc n)
  show ?case
  proof (cases "nth_prev st k a = nth_prev st k b")
    case True
    then show ?thesis by (intro exI [of _ k]) (simp add: last_common_loop.simps)
  next
    case False
    have k: "k \<le> nHeight ba"
    proof (rule ccontr)
      assume "\<not> k \<le> nHeight ba"
      then show False using False nth_prev_None [OF lk a, of k] nth_prev_None [OF lk b, of k] h by simp
    qed
    obtain qa ca where qa: "nth_prev st k a = Some qa" "st qa = Some ca" using nth_prev_height [OF lk a k] by blast
    obtain qb cb where qb: "nth_prev st k b = Some qb" "st qb = Some cb" using nth_prev_height [OF lk b] k h by force
    have nx: "nth_prev st (Suc k) a = pprev ca" "nth_prev st (Suc k) b = pprev cb"
      using nth_prev_add [of st k 1 a] nth_prev_add [of st k 1 b] qa qb by (simp_all split: option.split)
    have step: "last_common_loop (Suc n) st (nth_prev st k a) (nth_prev st k b)
        = last_common_loop n st (nth_prev st (Suc k) a) (nth_prev st (Suc k) b)"
      unfolding nx qa(1) qb(1) using False qa qb by (subst last_common_loop.simps) simp
    have "Suc (nHeight ba) - Suc k \<le> n" using Suc.prems by simp
    then obtain j where j: "Suc k \<le> j" "last_common_loop n st (nth_prev st (Suc k) a) (nth_prev st (Suc k) b) = Inr (nth_prev st j a)"
      "nth_prev st j a = nth_prev st j b" "\<And>i. Suc k \<le> i \<Longrightarrow> i < j \<Longrightarrow> nth_prev st i a \<noteq> nth_prev st i b"
      using Suc.IH by blast
    have "nth_prev st i a \<noteq> nth_prev st i b" if "k \<le> i" "i < j" for i
      using that j(4) False by (cases "i = k") auto
    then show ?thesis using j step by (intro exI [of _ j]) auto
  qed
qed

lemma common_ancestor_frame:
  assumes lk: "links_ok st" and a: "st a = Some ba" and p: "st p = Some bp"
    and pa: "nth_prev st m p = Some a" and q: "anc st p q" and c: "st q = Some c" "nHeight c \<le> nHeight ba"
  shows "nth_prev st (nHeight ba - nHeight c) a = Some q"
proof -
  obtain n where n: "nth_prev st n p = Some q" using q by (auto simp: anc_def)
  have m: "m \<le> nHeight bp" "n \<le> nHeight bp" using nth_prev_some_le [OF lk p] pa n by blast+
  have "nHeight ba + m = nHeight bp" using nth_prev_height [OF lk p m(1)] pa a by auto
  moreover have "nHeight c + n = nHeight bp" using nth_prev_height [OF lk p m(2)] n c by auto
  ultimately have "n = m + (nHeight ba - nHeight c)" using c(2) by simp
  then show ?thesis using n nth_prev_add [of st m] pa by simp
qed

lemma last_common_spec:
  assumes lk: "links_ok st" and a: "st a = Some ba" and b: "st b = Some bb" and h: "nHeight ba = nHeight bb"
    and pa: "st pa = Some bpa" "nth_prev st m pa = Some a" and pb: "st pb = Some bpb" "nth_prev st n pb = Some b"
    and low: "m = 0 \<or> n = 0"
  shows "\<exists>r. last_common_loop (Suc (nHeight ba)) st (Some a) (Some b) = Inr r \<and>
    (case r of None \<Rightarrow> \<forall>q. \<not> (anc st pa q \<and> anc st pb q)
     | Some q \<Rightarrow> anc st pa q \<and> anc st pb q \<and> (\<forall>q'. anc st pa q' \<longrightarrow> anc st pb q' \<longrightarrow> anc st q q'))"
proof -
  obtain j where j: "last_common_loop (Suc (nHeight ba)) st (Some a) (Some b) = Inr (nth_prev st j a)"
      "nth_prev st j a = nth_prev st j b" "\<And>i. i < j \<Longrightarrow> nth_prev st i a \<noteq> nth_prev st i b"
    using last_common_loop_first [OF lk a b h, of 0 "Suc (nHeight ba)"] by auto
  have common: "\<exists>i \<ge> j. nth_prev st i a = Some q" if q: "anc st pa q" "anc st pb q" for q
  proof -
    have "\<exists>c. st q = Some c \<and> nHeight c \<le> nHeight ba"
      using low
    proof
      assume "m = 0"
      then have "pa = a" using pa(2) by simp
      then show ?thesis using q(1) nth_prev_height [OF lk a] nth_prev_some_le [OF lk a] by (fastforce simp: anc_def)
    next
      assume "n = 0"
      then have "pb = b" using pb(2) by simp
      then show ?thesis using q(2) h nth_prev_height [OF lk b] nth_prev_some_le [OF lk b] by (fastforce simp: anc_def)
    qed
    then obtain c where c: "st q = Some c" "nHeight c \<le> nHeight ba" by blast
    have "nth_prev st (nHeight ba - nHeight c) a = Some q" "nth_prev st (nHeight ba - nHeight c) b = Some q"
      using common_ancestor_frame [OF lk a pa q(1) c] common_ancestor_frame [OF lk b pb q(2) c(1)] c(2) h by simp_all
    then show ?thesis using j(3) by (metis not_le)
  qed
  show ?thesis
  proof (cases "nth_prev st j a")
    case None
    have "nth_prev st i a = None" if "j \<le> i" for i using nth_prev_add [of st j "i - j" a] None that by simp
    then show ?thesis using j(1) None common by fastforce
  next
    case (Some x)
    have "anc st pa x" "anc st pb x"
      using Some j(2) pa(2) pb(2) nth_prev_add [of st m j pa] nth_prev_add [of st n j pb] by (auto simp: anc_def)
    moreover have "anc st x q'" if q': "anc st pa q'" "anc st pb q'" for q'
    proof -
      obtain i where i: "j \<le> i" "nth_prev st i a = Some q'" using common [OF q'] by blast
      then have "nth_prev st (i - j) x = Some q'" using nth_prev_add [of st j "i - j" a] Some by simp
      then show ?thesis by (auto simp: anc_def)
    qed
    ultimately show ?thesis using j(1) Some by auto
  qed
qed

lemma LastCommonAncestor_spec:
  assumes wf: "wf_tree st" and pa: "st pa = Some ba" and pb: "st pb = Some bb"
  obtains r where "LastCommonAncestor st pa pb = Inr r"
    "case r of None \<Rightarrow> \<forall>q. \<not> (anc st pa q \<and> anc st pb q)
     | Some q \<Rightarrow> anc st pa q \<and> anc st pb q \<and> (\<forall>q'. anc st pa q' \<longrightarrow> anc st pb q' \<longrightarrow> anc st q q')"
proof -
  have lk: "links_ok st" using wf by (simp add: wf_tree_def)
  consider "nHeight ba > nHeight bb" | "nHeight bb > nHeight ba" | "nHeight ba = nHeight bb" by linarith
  then show thesis
  proof cases
    case 1
    obtain a c where a: "nth_prev st (nHeight ba - nHeight bb) pa = Some a" "st a = Some c" "nHeight c = nHeight bb"
      using nth_prev_height [OF lk pa, of "nHeight ba - nHeight bb"] 1 by auto
    have G: "GetAncestor st pa (int (nHeight bb)) = Inr (Some a)"
      using GetAncestor_nth_prev [OF wf pa, of "nHeight bb"] 1 a by simp
    show thesis
      using last_common_spec [OF lk a(2) pb a(3) pa a(1) pb, of 0] a(3) 1 G pa pb that
      by (auto simp: LastCommonAncestor_def)
  next
    case 2
    obtain b c where b: "nth_prev st (nHeight bb - nHeight ba) pb = Some b" "st b = Some c" "nHeight c = nHeight ba"
      using nth_prev_height [OF lk pb, of "nHeight bb - nHeight ba"] 2 by auto
    have G: "GetAncestor st pb (int (nHeight ba)) = Inr (Some b)"
      using GetAncestor_nth_prev [OF wf pb, of "nHeight ba"] 2 b by simp
    show thesis
      using last_common_spec [OF lk pa b(2) b(3) [symmetric] pa _ pb b(1), of 0] 2 G pa pb that
      by (auto simp: LastCommonAncestor_def)
  next
    case 3
    show thesis
      using last_common_spec [OF lk pa pb 3 pa _ pb, of 0 0] 3 pa pb that
      by (auto simp: LastCommonAncestor_def)
  qed
qed

subsection \<open>Work of a block\<close>

lemma limbs_val_not:
  assumes "length pn = 8"
  shows "limbs_val (base_uint_not pn) = 2 ^ 256 - 1 - limbs_val pn"
  using limbs_val_map_not [of pn] assms by (simp add: base_uint_not_def)

lemma length_base_uint_not [simp]: "length (base_uint_not pn) = length pn"
  by (simp add: base_uint_not_def)

lemma limbs_val_add64:
  assumes "length pn = 8"
  shows "limbs_val (base_uint_add64 pn b) = (limbs_val pn + unat b) mod 2 ^ 256"
  using assms by (simp add: base_uint_add64_def limbs_val_add)

lemma length_add64 [simp]: "length pn = 8 \<Longrightarrow> length (base_uint_add64 pn b) = 8"
  by (simp add: base_uint_add64_def)

lemma complement_div: "(t :: nat) < M \<Longrightarrow> (M - 1 - t) div (t + 1) + 1 = M div (t + 1)"
proof -
  assume "t < M"
  then have "M = (M - 1 - t) + (t + 1)" by simp
  then show ?thesis by (metis add.commute add_gr_0 div_add_self2 less_numeral_extra(1) less_irrefl)
qed

lemma compact_value_not_max: "compact_value n + 1 < 2 ^ 256 \<or> 2 ^ 256 \<le> compact_value n"
proof (cases "compact_size n \<le> 3")
  case True
  then have "compact_value n < 2 ^ 23" using compact_mantissa_less [of n] by (simp add: compact_value_def)
  then show ?thesis by simp
next
  case False
  then obtain k where "8 * (compact_size n - 3) = Suc k" by (cases "8 * (compact_size n - 3)") auto
  then have "even (compact_value n)" by (simp add: compact_value_def)
  moreover have "odd ((2::nat) ^ 256 - 1)" by simp
  ultimately have "compact_value n \<noteq> 2 ^ 256 - 1" by metis
  then show ?thesis by linarith
qed

lemma GetBlockProof_value:
  assumes "compact_value (nBits block) \<noteq> 0" "compact_value (nBits block) < 2 ^ 256"
    "\<not> bit (nBits block) 23"
  obtains w where "GetBlockProof block = Inr w" "length w = 8"
    "limbs_val w = 2 ^ 256 div (compact_value (nBits block) + 1)"
proof -
  let ?v = "compact_value (nBits block)"
  obtain t where t: "SetCompact (nBits block) = (t, False, False)" "length t = 8" "limbs_val t = ?v"
    by (rule SetCompact_eq [of "nBits block"]) (use assms in auto)
  have ne: "\<not> EqualTo t 0" using t(2,3) assms(1) by (simp add: EqualTo_limbs_val)
  have v: "?v + 1 < 2 ^ 256" using compact_value_not_max [of "nBits block"] assms(2) by simp
  have a: "limbs_val (base_uint_add64 t 1) = ?v + 1" using t v by (simp add: limbs_val_add64)
  obtain q where q: "base_uint_div (base_uint_not t) (base_uint_add64 t 1) = Inr q" "length q = 8"
    "limbs_val q = (2 ^ 256 - 1 - ?v) div (?v + 1)"
    by (rule base_uint_div_limbs_val [of "base_uint_add64 t 1" "base_uint_not t"])
      (use t a in \<open>simp_all add: limbs_val_not\<close>)
  have e: "limbs_val q + 1 = 2 ^ 256 div (?v + 1)"
    unfolding q(3) using assms(2) by (rule complement_div)
  moreover have "2 ^ 256 div (?v + 1) < 2 ^ 256" using assms(1) by (intro div_less_dividend) simp_all
  ultimately have "limbs_val (base_uint_add64 q 1) = 2 ^ 256 div (?v + 1)" using q(2) by (simp add: limbs_val_add64)
  then show thesis using that [of "base_uint_add64 q 1"] t(1) ne q by (simp add: GetBlockProof_def)
qed

lemma GetBlockProof_invalid:
  assumes "compact_value (nBits block) = 0 \<or> 2 ^ 256 \<le> compact_value (nBits block) \<or> bit (nBits block) 23"
  obtains w where "GetBlockProof block = Inr w" "limbs_val w = 0"
proof -
  obtain t where t: "SetCompact (nBits block) = (t, compact_mantissa (nBits block) \<noteq> 0 \<and> bit (nBits block) 23,
      2 ^ 256 \<le> compact_value (nBits block))" "length t = 8" "limbs_val t = compact_value (nBits block) mod 2 ^ 256"
    by (rule SetCompact_eq)
  have "compact_mantissa (nBits block) = 0 \<Longrightarrow> compact_value (nBits block) = 0" by (simp add: compact_value_def)
  then have "GetBlockProof block = Inr (base_uint_of_u64 0)"
    using assms t by (auto simp: GetBlockProof_def EqualTo_limbs_val)
  then show thesis using that by simp
qed

subsection \<open>Median time\<close>

lemma median_times_total:
  assumes "links_ok st"
  shows "st p = Some b \<Longrightarrow> \<exists>ts. median_times n st (Some p) = Inr ts \<and> length ts = min n (Suc (nHeight b)) \<and>
    (\<forall>t \<in> set ts. \<exists>k q c. k < n \<and> nth_prev st k p = Some q \<and> st q = Some c \<and> t = GetBlockTime c)"
proof (induction n arbitrary: p b)
  case (Suc n)
  show ?case
    using assms Suc.prems
  proof (rule links_okE)
    assume g: "pprev b = None" "nHeight b = 0"
    have "\<exists>k q c. k < Suc n \<and> nth_prev st k p = Some q \<and> st q = Some c \<and> GetBlockTime b = GetBlockTime c"
      using Suc.prems by (intro exI [of _ 0] exI [of _ p] exI [of _ b]) simp
    then show ?case using Suc.prems g by (cases n) simp_all
  next
    fix q c assume q: "pprev b = Some q" "st q = Some c" "nHeight b = Suc (nHeight c)"
    obtain ts where ts: "median_times n st (Some q) = Inr ts" "length ts = min n (Suc (nHeight c))"
      "\<And>t. t \<in> set ts \<Longrightarrow> \<exists>k r d. k < n \<and> nth_prev st k q = Some r \<and> st r = Some d \<and> t = GetBlockTime d"
      using Suc.IH [OF q(2)] by blast
    have "\<exists>k r d. k < Suc n \<and> nth_prev st k p = Some r \<and> st r = Some d \<and> t = GetBlockTime d"
      if "t \<in> set (ts @ [GetBlockTime b])" for t
    proof (cases "t = GetBlockTime b")
      case True
      then show ?thesis using Suc.prems by (intro exI [of _ 0] exI [of _ p] exI [of _ b]) simp
    next
      case False
      then have "t \<in> set ts" using that by auto
      then obtain k r d where "k < n" "nth_prev st k q = Some r" "st r = Some d" "t = GetBlockTime d"
        using ts(3) by blast
      then show ?thesis using q Suc.prems by (intro exI [of _ "Suc k"] exI [of _ r] exI [of _ d]) simp
    qed
    then show ?case using Suc.prems q ts by auto
  qed
qed simp

lemma sorted_median:
  assumes "sorted xs" "k < length xs"
  shows "k < length (filter (\<lambda>x. x \<le> xs ! k) xs)" "length xs - k \<le> length (filter (\<lambda>x. xs ! k \<le> x) xs)"
proof -
  have "Suc k = card {..k}" by simp
  also have "\<dots> \<le> card {i. i < length xs \<and> xs ! i \<le> xs ! k}"
    using assms by (intro card_mono) (auto simp: sorted_iff_nth_mono)
  finally show "k < length (filter (\<lambda>x. x \<le> xs ! k) xs)" by (simp add: length_filter_conv_card)
  have "length xs - k = card {k..<length xs}" by simp
  also have "\<dots> \<le> card {i. i < length xs \<and> xs ! k \<le> xs ! i}"
    using assms by (intro card_mono) (auto simp: sorted_iff_nth_mono)
  finally show "length xs - k \<le> length (filter (\<lambda>x. xs ! k \<le> x) xs)" by (simp add: length_filter_conv_card)
qed

lemma length_filter_sort: "length (filter P (sort xs)) = length (filter P xs)"
  by (simp add: filter_sort)


subsection \<open>Block locators\<close>

lemma locator_loop_ends:
  assumes wf: "wf_tree st" and ok: "chain_ok st vChain"
  shows "st p = Some b \<Longrightarrow> nHeight b < n \<Longrightarrow> 1 \<le> nStep \<Longrightarrow>
    \<exists>hs g gb. locator_loop n st vChain nStep acc (Some p) = Inr (acc @ hs) \<and> hs \<noteq> [] \<and> hd hs = phashBlock b \<and>
      length hs \<le> Suc (nHeight b) \<and> nth_prev st (nHeight b) p = Some g \<and> st g = Some gb \<and> last hs = phashBlock gb"
proof (induction n arbitrary: p b nStep acc)
  case (Suc n)
  have lk: "links_ok st" using wf by (simp add: wf_tree_def)
  show ?case
  proof (cases "nHeight b = 0")
    case True
    then show ?thesis using Suc.prems by (intro exI [of _ "[phashBlock b]"]) simp
  next
    case False
    define h where "h = nat (max (int (nHeight b) - nStep) 0)"
    have h: "max (int (nHeight b) - nStep) 0 = int h" "h < nHeight b" using Suc.prems(3) False by (simp_all add: h_def)
    obtain q c where q: "nth_prev st (nHeight b - h) p = Some q" "st q = Some c" "nHeight c = h"
      using nth_prev_height [OF lk Suc.prems(1), of "nHeight b - h"] h(2) by auto
    have next': "(if chain_at vChain (int (nHeight b)) = Some p then Inr (chain_at vChain (int h)) else GetAncestor st p (int h)) = Inr (Some q)"
    proof (cases "chain_at vChain (int (nHeight b)) = Some p")
      case True
      then have "nHeight b < length vChain" "vChain ! nHeight b = Some p" by (auto simp: chain_at_def split: if_splits)
      then have "nth_prev st (nHeight b - h) p = vChain ! h"
        using chain_ok_nth_prev [OF ok, of "nHeight b" p "nHeight b - h"] h(2) by simp
      then show ?thesis using True q(1) h(2) \<open>nHeight b < length vChain\<close> by (simp add: chain_at_def)
    next
      case False
      then show ?thesis using GetAncestor_nth_prev [OF wf Suc.prems(1), of h] h(2) q(1) by simp
    qed
    define s' where "s' = (if length (acc @ [phashBlock b]) > 10 then 2 * nStep else nStep)"
    have "1 \<le> s'" using Suc.prems(3) by (simp add: s'_def)
    then obtain hs g gb where IH: "locator_loop n st vChain s' (acc @ [phashBlock b]) (Some q) = Inr ((acc @ [phashBlock b]) @ hs)"
      "hs \<noteq> []" "length hs \<le> Suc h" "nth_prev st h q = Some g" "st g = Some gb" "last hs = phashBlock gb"
      using Suc.IH [of q c s' "acc @ [phashBlock b]"] q(2,3) h(2) Suc.prems(2) by auto
    have "locator_loop (Suc n) st vChain nStep acc (Some p) = Inr (acc @ phashBlock b # hs)"
      using Suc.prems(1) False next' IH(1) by (simp add: Let_def h(1) s'_def)
    moreover have "nth_prev st (nHeight b) p = Some g"
      using nth_prev_add [of st "nHeight b - h" h p] q(1) h(2) IH(4) by simp
    ultimately show ?thesis using IH h(2) by (intro exI [of _ "phashBlock b # hs"] exI [of _ g] exI [of _ gb]) auto
  qed
qed simp

subsection \<open>Searching the chain by time\<close>

lemma lower_bound_spec:
  assumes "\<And>i j. first \<le> i \<Longrightarrow> i \<le> j \<Longrightarrow> j < first + len \<Longrightarrow> P j \<Longrightarrow> P i"
  shows "first \<le> lower_bound P first len \<and> lower_bound P first len \<le> first + len \<and>
    (\<forall>i. first \<le> i \<and> i < lower_bound P first len \<longrightarrow> P i) \<and>
    (\<forall>i. lower_bound P first len \<le> i \<and> i < first + len \<longrightarrow> \<not> P i)"
  using assms
proof (induction P first len rule: lower_bound.induct)
  case (1 P first len)
  show ?case
  proof (cases "len = 0")
    case True
    then show ?thesis by (auto simp: lower_bound.simps)
  next
    case False
    define m where "m = first + len div 2"
    have m: "first \<le> m" "m < first + len" using False by (simp_all add: m_def)
    show ?thesis
    proof (cases "P m")
      case True
      have rec: "lower_bound P first len = lower_bound P (m + 1) (len - len div 2 - 1)"
        using False True by (simp add: lower_bound.simps [of P first] m_def Let_def)
      have end': "m + 1 + (len - len div 2 - 1) = first + len" using False by (simp add: m_def)
      have IH: "m + 1 \<le> lower_bound P (m + 1) (len - len div 2 - 1) \<and> lower_bound P (m + 1) (len - len div 2 - 1) \<le> first + len \<and>
        (\<forall>i. m + 1 \<le> i \<and> i < lower_bound P (m + 1) (len - len div 2 - 1) \<longrightarrow> P i) \<and>
        (\<forall>i. lower_bound P (m + 1) (len - len div 2 - 1) \<le> i \<and> i < first + len \<longrightarrow> \<not> P i)"
        unfolding end' [symmetric] unfolding m_def
      proof (rule 1(1) [OF False refl refl])
        show "P (first + len div 2)" using True by (simp add: m_def)
        show "P i" if "first + len div 2 + 1 \<le> i" "i \<le> j" "j < first + len div 2 + 1 + (len - len div 2 - 1)" "P j" for i j
          using 1(3) [OF _ that(2) _ that(4)] that(1,3) end' by (simp add: m_def)
      qed
      have below: "P i" if "first \<le> i" "i \<le> m" for i using 1(3) [OF that] m True by blast
      show ?thesis unfolding rec using IH below m by (auto simp: not_le) (metis Suc_leI not_less)
    next
      case False2: False
      have rec: "lower_bound P first len = lower_bound P first (len div 2)"
        using False False2 by (simp add: lower_bound.simps [of P first] m_def Let_def)
      have IH: "first \<le> lower_bound P first (len div 2) \<and> lower_bound P first (len div 2) \<le> m \<and>
        (\<forall>i. first \<le> i \<and> i < lower_bound P first (len div 2) \<longrightarrow> P i) \<and>
        (\<forall>i. lower_bound P first (len div 2) \<le> i \<and> i < m \<longrightarrow> \<not> P i)"
        unfolding m_def
      proof (rule 1(2) [OF False refl refl])
        show "\<not> P (first + len div 2)" using False2 by (simp add: m_def)
        show "P i" if "first \<le> i" "i \<le> j" "j < first + len div 2" "P j" for i j
          using 1(3) [OF that(1,2) _ that(4)] that(3) by simp
      qed
      have above: "\<not> P i" if "m \<le> i" "i < first + len" for i using 1(3) [of m i] that m False2 by blast
      show ?thesis unfolding rec using IH above m by (meson le_trans less_imp_le not_less)
    qed
  qed
qed

text \<open>\<^verbatim>\<open>nTimeMax\<close> is kept as the largest time up to a block, so it does not decrease along the chain.\<close>

definition time_max_ok :: "block_store \<Rightarrow> bool" where
  "time_max_ok st \<longleftrightarrow> (\<forall>p b q c. st p = Some b \<longrightarrow> pprev b = Some q \<longrightarrow> st q = Some c \<longrightarrow> nTimeMax c \<le> nTimeMax b)"

definition too_early :: "block_store \<Rightarrow> CChain \<Rightarrow> int \<Rightarrow> int \<Rightarrow> nat \<Rightarrow> bool" where
  "too_early st vChain t h i = (case vChain ! i of None \<Rightarrow> False | Some p \<Rightarrow>
     (case st p of None \<Rightarrow> False | Some b \<Rightarrow> GetBlockTimeMax b < t \<or> int (nHeight b) < h))"

lemma too_early_step:
  assumes "chain_ok st vChain" "time_max_ok st" "Suc j < length vChain" "too_early st vChain t h (Suc j)"
  shows "too_early st vChain t h j"
proof -
  obtain p b where p: "vChain ! Suc j = Some p" "st p = Some b" "nHeight b = Suc j" "pprev b = vChain ! j"
    using chain_okE [OF assms(1,3)] by auto
  obtain q c where q: "vChain ! j = Some q" "st q = Some c" "nHeight c = j"
    using chain_okE [OF assms(1) Suc_lessD [OF assms(3)]] by metis
  have "nTimeMax c \<le> nTimeMax b" using assms(2) p q unfolding time_max_ok_def by metis
  then have "GetBlockTimeMax c \<le> GetBlockTimeMax b" by (simp add: GetBlockTimeMax_def word_le_def)
  then show ?thesis using assms(4) p q by (auto simp: too_early_def)
qed

lemma too_early_downward:
  assumes "chain_ok st vChain" "time_max_ok st"
  shows "i \<le> j \<Longrightarrow> j < length vChain \<Longrightarrow> too_early st vChain t h j \<Longrightarrow> too_early st vChain t h i"
proof (induction j rule: dec_induct)
  case (step j)
  then show ?case using too_early_step [OF assms] by simp
qed

lemma FindEarliestAtLeast_spec:
  assumes "chain_ok st vChain" "time_max_ok st"
  shows "case FindEarliestAtLeast st vChain t h of
      None \<Rightarrow> (\<forall>i < length vChain. too_early st vChain t h i)
    | Some p \<Rightarrow> (\<exists>b. st p = Some b \<and> nHeight b < length vChain \<and> vChain ! nHeight b = Some p \<and>
        t \<le> GetBlockTimeMax b \<and> h \<le> int (nHeight b) \<and> (\<forall>i < nHeight b. too_early st vChain t h i))"
proof -
  define k where "k = lower_bound (too_early st vChain t h) 0 (length vChain)"
  have k: "k \<le> length vChain" "\<forall>i < k. too_early st vChain t h i" "\<forall>i. k \<le> i \<and> i < length vChain \<longrightarrow> \<not> too_early st vChain t h i"
    using lower_bound_spec [of 0 "length vChain" "too_early st vChain t h"] too_early_downward [OF assms]
    unfolding k_def by auto
  have eq: "FindEarliestAtLeast st vChain t h = (if k = length vChain then None else vChain ! k)"
    by (simp add: FindEarliestAtLeast_def k_def too_early_def [abs_def] Let_def)
  show ?thesis
  proof (cases "k = length vChain")
    case True
    then show ?thesis using eq k by simp
  next
    case False
    then obtain p b where p: "vChain ! k = Some p" "st p = Some b" "nHeight b = k"
      using chain_okE [OF assms(1), of k] le_neq_implies_less [OF k(1) False] by metis
    moreover have "\<not> too_early st vChain t h k" using k False by auto
    ultimately show ?thesis using eq False k by (auto simp: too_early_def)
  qed
qed

subsection \<open>Correctness of the block index\<close>

text \<open>
  A concrete tree: the chain 0 - 1 - 2 - 3 with a block 4 that forks off at block 1.  The skip
  pointers are the ones \<open>BuildSkip\<close> computes.
\<close>

definition sample_entry :: "nat \<Rightarrow> block_ptr option \<Rightarrow> block_ptr option \<Rightarrow> u32 \<Rightarrow> CBlockIndex" where
  "sample_entry h prev skip t = \<lparr>phashBlock = [word_of_nat h], pprev = prev, pskip = skip, nHeight = h,
     nFile = 0, nDataPos = 0, nUndoPos = 0, nChainWork = base_uint_default, nTx = 1, nChainTx = 1, nStatus = 5,
     nVersion = 1, hashMerkleRoot = [], nTime = t, nBits = 0x1e0fffff, nNonce = 0, nSequenceId = 0, nTimeMax = t\<rparr>"

definition sample_store :: block_store where
  "sample_store = [0 \<mapsto> sample_entry 0 None None 10, 1 \<mapsto> sample_entry 1 (Some 0) (Some 0) 30,
     2 \<mapsto> sample_entry 2 (Some 1) (Some 0) 40, 3 \<mapsto> sample_entry 3 (Some 2) (Some 1) 70,
     4 \<mapsto> sample_entry 2 (Some 1) None 90]"

lemma sample_store_simps [simp]:
  "sample_store 0 = Some (sample_entry 0 None None 10)"
  "sample_store (Suc 0) = Some (sample_entry 1 (Some 0) (Some 0) 30)"
  "sample_store 2 = Some (sample_entry 2 (Some 1) (Some 0) 40)"
  "sample_store 3 = Some (sample_entry 3 (Some 2) (Some 1) 70)"
  "sample_store 4 = Some (sample_entry 2 (Some 1) None 90)"
  by (simp_all add: sample_store_def)

lemma sample_entry_simps [simp]:
  "pprev (sample_entry h p s t) = p" "pskip (sample_entry h p s t) = s" "nHeight (sample_entry h p s t) = h"
  "nTime (sample_entry h p s t) = t" "nTimeMax (sample_entry h p s t) = t"
  "phashBlock (sample_entry h p s t) = [word_of_nat h]" "nBits (sample_entry h p s t) = 0x1e0fffff"
  by (simp_all add: sample_entry_def)

lemma sample_store_cases:
  assumes "sample_store p = Some b"
  shows "p = 0 \<and> b = sample_entry 0 None None 10 \<or> p = 1 \<and> b = sample_entry 1 (Some 0) (Some 0) 30 \<or>
    p = 2 \<and> b = sample_entry 2 (Some 1) (Some 0) 40 \<or> p = 3 \<and> b = sample_entry 3 (Some 2) (Some 1) 70 \<or>
    p = 4 \<and> b = sample_entry 2 (Some 1) None 90"
  using assms by (auto simp: sample_store_def split: if_splits)

lemma sample_skips: "GetSkipHeight 1 = 0" "GetSkipHeight 2 = 0" "GetSkipHeight 3 = 1"
  by (simp_all add: GetSkipHeight_def InvertLowestOne_def)

lemma sample_nth_prev:
  "nth_prev sample_store 1 1 = Some 0" "nth_prev sample_store 2 2 = Some 0" "nth_prev sample_store 2 3 = Some 1"
  "nth_prev sample_store 2 4 = Some 0"
proof -
  have "nth_prev sample_store (Suc (Suc 0)) p = Some q \<Longrightarrow> nth_prev sample_store 2 p = Some q" for p q
    by (simp only: numeral_2_eq_2)
  then show "nth_prev sample_store 2 2 = Some 0" "nth_prev sample_store 2 3 = Some 1" "nth_prev sample_store 2 4 = Some 0"
    by simp_all
qed simp

lemma wf_tree_sample: "wf_tree sample_store"
proof -
  have "links_ok sample_store"
    unfolding links_ok_def by (auto dest!: sample_store_cases split: option.split)
  moreover have "skips_ok sample_store"
    unfolding skips_ok_def
    by (auto dest!: sample_store_cases simp: sample_skips [simplified] sample_nth_prev [simplified])
  ultimately show ?thesis by (simp add: wf_tree_def)
qed

lemma chain_ok_sample: "chain_ok sample_store [Some 0, Some 1, Some 2, Some 3]"
  unfolding chain_ok_def by (auto simp: less_Suc_eq numeral_2_eq_2 numeral_3_eq_3
        sample_store_simps [unfolded numeral_2_eq_2 numeral_3_eq_3])

text \<open>
  C23.  \<open>GetAncestor\<close>, which jumps along the skip list, never meets a failing assertion or a dangling pointer
  and returns the block reached by following \<^verbatim>\<open>pprev\<close> down to the requested height; outside the heights
  from 0 to the block's own it returns null.
\<close>

theorem GetAncestor_correct:
  assumes "wf_tree st" "st p = Some b"
  shows "GetAncestor st p h =
    Inr (if 0 \<le> h \<and> h \<le> int (nHeight b) then nth_prev st (nHeight b - nat h) p else None)"
  using GetAncestor_nth_prev [OF assms, of "nat h"] assms(2) by (auto simp: GetAncestor_def)

theorem GetAncestor_correct_witness:
  "GetAncestor sample_store 3 1 = Inr (Some 1) \<and> GetAncestor sample_store 4 0 = Inr (Some 0) \<and>
   GetAncestor sample_store 2 3 = Inr None"
  using GetAncestor_correct [OF wf_tree_sample, of 3 _ 1] GetAncestor_correct [OF wf_tree_sample, of 4 _ 0]
    GetAncestor_correct [OF wf_tree_sample, of 2 _ 3]
  by (simp add: sample_nth_prev)

text \<open>
  C24.  \<open>BuildSkip\<close> on a block whose parent is in the tree succeeds, changes only its skip pointer, and keeps
  the tree well formed: heights count the distance to the root and every skip pointer leads to the ancestor
  at \<open>GetSkipHeight\<close>.
\<close>

theorem BuildSkip_keeps_wf_tree:
  assumes "wf_tree st" "st p = Some b" "nHeight b > 0"
  shows "\<exists>s. BuildSkip st p = Inr (st(p \<mapsto> b\<lparr>pskip := Some s\<rparr>)) \<and> wf_tree (st(p \<mapsto> b\<lparr>pskip := Some s\<rparr>)) \<and>
    nth_prev st (nHeight b - GetSkipHeight (nHeight b)) p = Some s"
proof -
  have "links_ok st" using assms(1) by (simp add: wf_tree_def)
  then obtain s c where "nth_prev st (nHeight b - GetSkipHeight (nHeight b)) p = Some s"
    using nth_prev_height [of st p b "nHeight b - GetSkipHeight (nHeight b)"] assms(2) by auto
  then show ?thesis using BuildSkip_wf_tree [OF assms] by metis
qed

theorem BuildSkip_keeps_wf_tree_witness:
  "BuildSkip sample_store 4 = Inr (sample_store(4 \<mapsto> (sample_entry 2 (Some 1) None 90)\<lparr>pskip := Some 0\<rparr>))"
  using BuildSkip_keeps_wf_tree [OF wf_tree_sample, of 4]
  by (auto simp: sample_skips sample_nth_prev)

text \<open>
  C25.  Whatever chain was active before, \<open>SetTip\<close> leaves the chain that ends at the new tip: it succeeds, the
  new vector has the tip's height plus one entries, each the tip's ancestor at its own index, and is again a
  chain of parents.
\<close>

theorem SetTip_correct:
  assumes "links_ok st" "chain_ok st vChain" "st p = Some b"
  shows "\<exists>w. SetTip st vChain p = Inr w \<and> chain_ok st w \<and> Height w = int (nHeight b) \<and> Tip w = Some p \<and>
    (\<forall>i \<le> nHeight b. w ! i = nth_prev st (nHeight b - i) p)"
proof -
  obtain w where w: "SetTip st vChain p = Inr w" "length w = Suc (nHeight b)"
    "\<And>i. i \<le> nHeight b \<Longrightarrow> w ! i = nth_prev st (nHeight b - i) p"
    using SetTip_nth_prev [OF assms] by blast
  moreover have "chain_ok st w" using chain_ok_ancestors [OF assms(1,3) w(2,3)] .
  ultimately show ?thesis by (auto simp: Height_def Tip_def)
qed

theorem SetTip_correct_witness:
  "\<exists>w. SetTip sample_store [Some 0, Some 1, Some 2, Some 3] 4 = Inr w \<and> chain_ok sample_store w \<and>
     Height w = 2 \<and> Tip w = Some 4"
  using SetTip_correct [OF _ chain_ok_sample, of 4] wf_tree_sample by (auto simp: wf_tree_def)

text \<open>
  C26.  \<open>FindFork\<close> returns the highest ancestor of a block (the block included) that lies on the active chain:
  every other ancestor on the chain is an ancestor of the result.  It returns null only when there is none.
\<close>

theorem FindFork_correct:
  assumes "wf_tree st" "st p = Some b"
  shows "\<exists>r. FindFork st vChain (Some p) = Inr r \<and>
    (case r of None \<Rightarrow> \<forall>q. anc st p q \<longrightarrow> \<not> in_chain st vChain q
     | Some q \<Rightarrow> anc st p q \<and> in_chain st vChain q \<and> (\<forall>q'. anc st p q' \<longrightarrow> in_chain st vChain q' \<longrightarrow> anc st q q'))"
  using FindFork_first [OF assms, of vChain] by blast

theorem FindFork_correct_witness:
  "\<exists>r. FindFork sample_store [Some 0, Some 1, Some 2, Some 3] (Some 4) = Inr r \<and>
    (case r of None \<Rightarrow> False
     | Some q \<Rightarrow> anc sample_store 4 q \<and> in_chain sample_store [Some 0, Some 1, Some 2, Some 3] q)"
proof -
  have "anc sample_store 4 1" unfolding anc_def by (rule exI [of _ 1]) simp
  moreover have "in_chain sample_store [Some 0, Some 1, Some 2, Some 3] 1" by (simp add: in_chain_def chain_at_def)
  ultimately show ?thesis
    using FindFork_correct [OF wf_tree_sample, of 4 _ "[Some 0, Some 1, Some 2, Some 3]"]
    by (auto split: option.splits)
qed

text \<open>
  C27.  \<open>LastCommonAncestor\<close> returns the greatest common ancestor of two blocks: a common ancestor of which every
  other common ancestor is an ancestor; null only when the blocks have none.
\<close>

theorem LastCommonAncestor_correct:
  assumes "wf_tree st" "st pa = Some ba" "st pb = Some bb"
  shows "\<exists>r. LastCommonAncestor st pa pb = Inr r \<and>
    (case r of None \<Rightarrow> \<forall>q. \<not> (anc st pa q \<and> anc st pb q)
     | Some q \<Rightarrow> anc st pa q \<and> anc st pb q \<and> (\<forall>q'. anc st pa q' \<longrightarrow> anc st pb q' \<longrightarrow> anc st q q'))"
  using LastCommonAncestor_spec [OF assms] by blast

theorem LastCommonAncestor_correct_witness:
  "\<exists>r. LastCommonAncestor sample_store 3 4 = Inr r \<and>
    (case r of None \<Rightarrow> \<forall>q. \<not> (anc sample_store 3 q \<and> anc sample_store 4 q)
     | Some q \<Rightarrow> anc sample_store 3 q \<and> anc sample_store 4 q \<and>
         (\<forall>q'. anc sample_store 3 q' \<longrightarrow> anc sample_store 4 q' \<longrightarrow> anc sample_store q q'))"
  using LastCommonAncestor_correct [OF wf_tree_sample, of 3 _ 4] by simp

text \<open>
  The work of a block is the expected number of hashes for its target \<open>t\<close>, that is \<open>2 ^ 256 div (t + 1)\<close>,
  although \<open>2 ^ 256\<close> itself does not fit the type; it is zero for a zero, negative or overflowing target, and
  the division never fails.
\<close>

theorem GetBlockProof_correct:
  "\<exists>w. GetBlockProof block = Inr w \<and>
    limbs_val w = (let t = compact_value (nBits block) in
      if t = 0 \<or> 2 ^ 256 \<le> t \<or> bit (nBits block) 23 then 0 else 2 ^ 256 div (t + 1))"
proof (cases "compact_value (nBits block) = 0 \<or> 2 ^ 256 \<le> compact_value (nBits block) \<or> bit (nBits block) 23")
  case True
  then show ?thesis using GetBlockProof_invalid [OF True] by auto
next
  case False
  then show ?thesis using GetBlockProof_value [of block] by (auto simp: not_le)
qed

text \<open>
  \<open>GetMedianTimePast\<close> is defined for every block of the tree and is a median of the times of the last
  \<^verbatim>\<open>nMedianTimeSpan\<close> blocks: one of these times, with at least half of them at most as large and at least
  half of them at least as large.
\<close>

theorem GetMedianTimePast_median:
  assumes "links_ok st" "st p = Some b"
  shows "\<exists>ts m. median_times nMedianTimeSpan st (Some p) = Inr ts \<and> length ts = min nMedianTimeSpan (Suc (nHeight b)) \<and>
    GetMedianTimePast st p = Inr m \<and> m \<in> set ts \<and>
    length ts \<le> 2 * length (filter (\<lambda>t. t \<le> m) ts) \<and> length ts \<le> 2 * length (filter (\<lambda>t. m \<le> t) ts)"
proof -
  obtain ts where ts: "median_times nMedianTimeSpan st (Some p) = Inr ts" "length ts = min nMedianTimeSpan (Suc (nHeight b))"
    using median_times_total [OF assms, of nMedianTimeSpan] by auto
  have "0 < length ts" using ts(2) by (simp add: nMedianTimeSpan_def)
  then have k: "length ts div 2 < length (sort ts)" by simp
  define m where "m = sort ts ! (length ts div 2)"
  have "GetMedianTimePast st p = Inr m" using ts by (simp add: GetMedianTimePast_def m_def)
  moreover have "m \<in> set ts" using nth_mem [OF k] by (simp add: m_def)
  moreover have "length ts div 2 < length (filter (\<lambda>t. t \<le> m) ts)" "length ts - length ts div 2 \<le> length (filter (\<lambda>t. m \<le> t) ts)"
    using sorted_median [OF sorted_sort k] by (simp_all add: m_def length_filter_sort)
  ultimately show ?thesis using ts by (intro exI [of _ ts] exI [of _ m]) auto
qed

theorem GetMedianTimePast_median_witness: "\<exists>m. GetMedianTimePast sample_store 3 = Inr m"
  using GetMedianTimePast_median [of sample_store 3] wf_tree_sample by (auto simp: wf_tree_def)

text \<open>
  \<open>FindEarliestAtLeast\<close>, a binary search, returns the lowest block of the chain whose \<^verbatim>\<open>nTimeMax\<close> and
  height reach the requested ones, and null exactly when no block does.
\<close>

theorem FindEarliestAtLeast_correct:
  assumes "chain_ok st vChain" "time_max_ok st"
  shows "case FindEarliestAtLeast st vChain t h of
      None \<Rightarrow> (\<forall>i < length vChain. too_early st vChain t h i)
    | Some p \<Rightarrow> (\<exists>b. st p = Some b \<and> nHeight b < length vChain \<and> vChain ! nHeight b = Some p \<and>
        t \<le> GetBlockTimeMax b \<and> h \<le> int (nHeight b) \<and> (\<forall>i < nHeight b. too_early st vChain t h i))"
  by (rule FindEarliestAtLeast_spec [OF assms])

theorem FindEarliestAtLeast_correct_witness:
  "\<exists>p. FindEarliestAtLeast sample_store [Some 0, Some 1, Some 2, Some 3] 35 0 = Some p \<and>
     35 \<le> GetBlockTimeMax (the (sample_store p))"
proof -
  have "time_max_ok sample_store"
    unfolding time_max_ok_def by (auto dest!: sample_store_cases)
  moreover have "\<not> too_early sample_store [Some 0, Some 1, Some 2, Some 3] 35 0 3"
    by (simp add: too_early_def GetBlockTimeMax_def)
  ultimately show ?thesis
    using FindEarliestAtLeast_correct [OF chain_ok_sample, of 35 0] by (auto split: option.splits)
qed

text \<open>
  A block locator starts at the requested block and ends at the root of its branch, and the loop that
  builds it ends: the number of hashes is at most the height plus one.
\<close>

theorem GetLocator_ends_at_root:
  assumes "wf_tree st" "chain_ok st vChain" "st p = Some b"
  shows "\<exists>hs g gb. GetLocator st vChain (Some p) = Inr hs \<and> hs \<noteq> [] \<and> hd hs = phashBlock b \<and>
    length hs \<le> Suc (nHeight b) \<and> nth_prev st (nHeight b) p = Some g \<and> st g = Some gb \<and> last hs = phashBlock gb"
  using locator_loop_ends [OF assms, of "Suc (nHeight b)" 1 "[]"] assms(3) by (simp add: GetLocator_def)

theorem GetLocator_ends_at_root_witness:
  "\<exists>hs. GetLocator sample_store [Some 0, Some 1, Some 2, Some 3] (Some 4) = Inr hs \<and> hd hs = [2] \<and> last hs = [0]"
  using GetLocator_ends_at_root [OF wf_tree_sample chain_ok_sample, of 4] by (auto simp: sample_nth_prev)

end
