(* ===== verification/Strencodings.thy ===== *)
theory Strencodings
  imports Prelude "HOL-Library.Char_ord"
begin

text \<open>
  \<^verbatim>\<open>src/src/util/strencodings.{h,cpp}\<close>: hexadecimal, base 64 and base 32 text, integers and fixed-point numbers
  in decimal, and small string utilities.  A \<^verbatim>\<open>std::string\<close> is a \<^typ>\<open>string\<close>; a \<^verbatim>\<open>char\<close> has 8 bits, and
  \<open>of_char\<close> is its unsigned code.
\<close>

subsection \<open>Characters\<close>

definition IsDigit :: "char \<Rightarrow> bool" where
  "IsDigit c \<longleftrightarrow> c \<ge> CHR ''0'' \<and> c \<le> CHR ''9''"

definition IsSpace :: "char \<Rightarrow> bool" where
  "IsSpace c \<longleftrightarrow> c = CHR '' '' \<or> c = CHR 0x0C \<or> c = CHR 0x0A \<or> c = CHR 0x0D \<or> c = CHR 0x09 \<or> c = CHR 0x0B"

definition ToLower_char :: "char \<Rightarrow> char" where
  "ToLower_char c = (if c \<ge> CHR ''A'' \<and> c \<le> CHR ''Z'' then char_of (of_char c - 65 + 97 :: nat) else c)"

definition ToUpper_char :: "char \<Rightarrow> char" where
  "ToUpper_char c = (if c \<ge> CHR ''a'' \<and> c \<le> CHR ''z'' then char_of (of_char c - 97 + 65 :: nat) else c)"

definition ToLower :: "string \<Rightarrow> string" where
  "ToLower str = map ToLower_char str"

definition ToUpper :: "string \<Rightarrow> string" where
  "ToUpper str = map ToUpper_char str"

definition Capitalize :: "string \<Rightarrow> string" where
  "Capitalize str = (case str of [] \<Rightarrow> [] | c # cs \<Rightarrow> ToUpper_char c # cs)"

definition CHARS_ALPHA_NUM :: string where
  "CHARS_ALPHA_NUM = ''abcdefghijklmnopqrstuvwxyzABCDEFGHIJKLMNOPQRSTUVWXYZ0123456789''"

definition SAFE_CHARS :: "string list" where
  "SAFE_CHARS = [CHARS_ALPHA_NUM @ '' .,;-_/:?@()'', CHARS_ALPHA_NUM @ '' .,;-_?@'', CHARS_ALPHA_NUM @ ''.-_'',
     CHARS_ALPHA_NUM @ ''!*'' @ [CHR 0x27] @ ''();:@&=+$,/?#[]-_.~%'']"

definition SanitizeString :: "string \<Rightarrow> nat \<Rightarrow> string" where
  "SanitizeString str rule = filter (\<lambda>c. c \<in> set (SAFE_CHARS ! rule)) str"

subsection \<open>Hexadecimal text\<close>

definition p_util_hexdigit :: "int list" where
  "p_util_hexdigit =
    [-1,-1,-1,-1,-1,-1,-1,-1,-1,-1,-1,-1,-1,-1,-1,-1,
     -1,-1,-1,-1,-1,-1,-1,-1,-1,-1,-1,-1,-1,-1,-1,-1,
     -1,-1,-1,-1,-1,-1,-1,-1,-1,-1,-1,-1,-1,-1,-1,-1,
     0,1,2,3,4,5,6,7,8,9,-1,-1,-1,-1,-1,-1,
     -1,0xa,0xb,0xc,0xd,0xe,0xf,-1,-1,-1,-1,-1,-1,-1,-1,-1,
     -1,-1,-1,-1,-1,-1,-1,-1,-1,-1,-1,-1,-1,-1,-1,-1,
     -1,0xa,0xb,0xc,0xd,0xe,0xf,-1,-1,-1,-1,-1,-1,-1,-1,-1,
     -1,-1,-1,-1,-1,-1,-1,-1,-1,-1,-1,-1,-1,-1,-1,-1,
     -1,-1,-1,-1,-1,-1,-1,-1,-1,-1,-1,-1,-1,-1,-1,-1,
     -1,-1,-1,-1,-1,-1,-1,-1,-1,-1,-1,-1,-1,-1,-1,-1,
     -1,-1,-1,-1,-1,-1,-1,-1,-1,-1,-1,-1,-1,-1,-1,-1,
     -1,-1,-1,-1,-1,-1,-1,-1,-1,-1,-1,-1,-1,-1,-1,-1,
     -1,-1,-1,-1,-1,-1,-1,-1,-1,-1,-1,-1,-1,-1,-1,-1,
     -1,-1,-1,-1,-1,-1,-1,-1,-1,-1,-1,-1,-1,-1,-1,-1,
     -1,-1,-1,-1,-1,-1,-1,-1,-1,-1,-1,-1,-1,-1,-1,-1,
     -1,-1,-1,-1,-1,-1,-1,-1,-1,-1,-1,-1,-1,-1,-1,-1]"

definition HexDigit :: "char \<Rightarrow> int" where
  "HexDigit c = p_util_hexdigit ! of_char c"

definition IsHex :: "string \<Rightarrow> bool" where
  "IsHex str \<longleftrightarrow> (\<forall>c \<in> set str. \<not> HexDigit c < 0) \<and> length str > 0 \<and> length str mod 2 = 0"

definition IsHexNumber :: "string \<Rightarrow> bool" where
  "IsHexNumber str \<longleftrightarrow>
     (let str = (if take 2 str = ''0x'' then drop 2 str else str) in
      (\<forall>c \<in> set str. \<not> HexDigit c < 0) \<and> length str > 0)"

fun TryParseHex :: "string \<Rightarrow> bytes option" where
  "TryParseHex [] = Some []"
| "TryParseHex (c # cs) =
     (if IsSpace c then TryParseHex cs
      else case cs of [] \<Rightarrow> None
           | d # ds \<Rightarrow>
             if HexDigit c < 0 \<or> HexDigit d < 0 then None
             else (case TryParseHex ds of None \<Rightarrow> None
                   | Some vch \<Rightarrow> Some ((word_of_int (push_bit 4 (HexDigit c)) OR word_of_int (HexDigit d)) # vch)))"

definition ParseHex :: "string \<Rightarrow> bytes" where
  "ParseHex str = (case TryParseHex str of None \<Rightarrow> [] | Some v \<Rightarrow> v)"

definition hexmap :: string where
  "hexmap = ''0123456789abcdef''"

definition byte_to_hex :: "u8 \<Rightarrow> string" where
  "byte_to_hex v = [hexmap ! (unat v div 2 ^ 4), hexmap ! (unat v mod 16)]"

definition HexStr :: "bytes \<Rightarrow> string" where
  "HexStr s = concat (map byte_to_hex s)"

subsection \<open>Change of power-of-two base\<close>

text \<open>
  The accumulator is masked to \<open>frombits + tobits - 1\<close> bits at each step, so the shifts of the source never
  leave \<^verbatim>\<open>size_t\<close> for the widths in use (at most 8) and it is a natural number here.  The inner loop
  returns the digits it emits and the bits left; the source instantiates \<open>tobits\<close> with positive widths.
\<close>

function convert_inner :: "nat \<Rightarrow> nat \<Rightarrow> nat \<Rightarrow> nat list \<times> nat" where
  "convert_inner tobits acc bits =
     (if tobits \<le> bits \<and> 0 < tobits then
        let bits' = bits - tobits; (out, r) = convert_inner tobits acc bits'
        in ((acc div 2 ^ bits') mod 2 ^ tobits # out, r)
      else ([], bits))"
  by pat_completeness auto
termination
  by (relation "measure (\<lambda>(tobits, acc, bits). bits)") auto

declare convert_inner.simps [simp del]

text \<open>The loop over the input: the digits emitted, and the final \<open>(acc, bits)\<close> unless a digit is invalid.\<close>

fun convert_loop :: "nat \<Rightarrow> nat \<Rightarrow> ('a \<Rightarrow> int) \<Rightarrow> nat \<Rightarrow> nat \<Rightarrow> 'a list \<Rightarrow> nat list \<times> (nat \<times> nat) option" where
  "convert_loop frombits tobits infn acc bits [] = ([], Some (acc, bits))"
| "convert_loop frombits tobits infn acc bits (x # xs) =
     (let v = infn x in
      if v < 0 then ([], None)
      else let acc' = (push_bit frombits acc OR nat v) AND (2 ^ (frombits + tobits - 1) - 1);
               (out, bits') = convert_inner tobits acc' (bits + frombits);
               (out', r) = convert_loop frombits tobits infn acc' bits' xs
           in (out @ out', r))"

definition ConvertBits :: "nat \<Rightarrow> nat \<Rightarrow> bool \<Rightarrow> ('a \<Rightarrow> int) \<Rightarrow> 'a list \<Rightarrow> bool \<times> nat list" where
  "ConvertBits frombits tobits pad infn xs =
     (case convert_loop frombits tobits infn 0 0 xs of
        (out, None) \<Rightarrow> (False, out)
      | (out, Some (acc, bits)) \<Rightarrow>
          let last_v = (acc * 2 ^ (tobits - bits)) mod 2 ^ tobits in
          if pad then (True, if bits \<noteq> 0 then out @ [last_v] else out)
          else if bits \<ge> frombits \<or> last_v \<noteq> 0 then (False, out)
          else (True, out))"

text \<open>\<^verbatim>\<open>while (str.size() % n) str += '='\<close>: the padding up to the next multiple of \<open>n\<close>.\<close>

definition pad_equals :: "nat \<Rightarrow> string \<Rightarrow> string" where
  "pad_equals n str = str @ replicate ((n - length str mod n) mod n) (CHR ''='')"

definition pbase64 :: string where
  "pbase64 = ''ABCDEFGHIJKLMNOPQRSTUVWXYZabcdefghijklmnopqrstuvwxyz0123456789+/''"

definition EncodeBase64 :: "bytes \<Rightarrow> string" where
  "EncodeBase64 input =
     pad_equals 4 (map ((!) pbase64) (snd (ConvertBits 8 6 True (\<lambda>b. uint b) input)))"

definition decode64_table :: "int list" where
  "decode64_table =
   [-1, -1, -1, -1, -1, -1, -1, -1, -1, -1, -1, -1, -1, -1, -1, -1, -1, -1, -1, -1,
    -1, -1, -1, -1, -1, -1, -1, -1, -1, -1, -1, -1, -1, -1, -1, -1, -1, -1, -1, -1,
    -1, -1, -1, 62, -1, -1, -1, 63, 52, 53, 54, 55, 56, 57, 58, 59, 60, 61, -1, -1,
    -1, -1, -1, -1, -1,  0,  1,  2,  3,  4,  5,  6,  7,  8,  9, 10, 11, 12, 13, 14,
    15, 16, 17, 18, 19, 20, 21, 22, 23, 24, 25, -1, -1, -1, -1, -1, -1, 26, 27, 28,
    29, 30, 31, 32, 33, 34, 35, 36, 37, 38, 39, 40, 41, 42, 43, 44, 45, 46, 47, 48,
    49, 50, 51, -1, -1, -1, -1, -1, -1, -1, -1, -1, -1, -1, -1, -1, -1, -1, -1, -1,
    -1, -1, -1, -1, -1, -1, -1, -1, -1, -1, -1, -1, -1, -1, -1, -1, -1, -1, -1, -1,
    -1, -1, -1, -1, -1, -1, -1, -1, -1, -1, -1, -1, -1, -1, -1, -1, -1, -1, -1, -1,
    -1, -1, -1, -1, -1, -1, -1, -1, -1, -1, -1, -1, -1, -1, -1, -1, -1, -1, -1, -1,
    -1, -1, -1, -1, -1, -1, -1, -1, -1, -1, -1, -1, -1, -1, -1, -1, -1, -1, -1, -1,
    -1, -1, -1, -1, -1, -1, -1, -1, -1, -1, -1, -1, -1, -1, -1, -1, -1, -1, -1, -1,
    -1, -1, -1, -1, -1, -1, -1, -1, -1, -1, -1, -1, -1, -1, -1, -1]"

text \<open>\<^verbatim>\<open>if (str.size() >= n && str.substr(str.size() - n) == \<dots>) str.remove_suffix(n)\<close> for \<open>n\<close> signs \<open>=\<close>.\<close>

definition strip_equals :: "nat \<Rightarrow> string \<Rightarrow> string" where
  "strip_equals n str =
     (if length str \<ge> n \<and> drop (length str - n) str = replicate n (CHR ''='') then take (length str - n) str else str)"

definition DecodeBase64 :: "string \<Rightarrow> bytes option" where
  "DecodeBase64 str =
     (if length str mod 4 \<noteq> 0 then None
      else let str = strip_equals 1 (strip_equals 1 str);
               (valid, ret) = ConvertBits 6 8 False (\<lambda>c. decode64_table ! of_char c) str
           in if valid then Some (map word_of_nat ret) else None)"

definition pbase32 :: string where
  "pbase32 = ''abcdefghijklmnopqrstuvwxyz234567''"

definition EncodeBase32 :: "bytes \<Rightarrow> bool \<Rightarrow> string" where
  "EncodeBase32 input pad =
     (let str = map ((!) pbase32) (snd (ConvertBits 8 5 True (\<lambda>b. uint b) input))
      in if pad then pad_equals 8 str else str)"

definition decode32_table :: "int list" where
  "decode32_table =
   [-1, -1, -1, -1, -1, -1, -1, -1, -1, -1, -1, -1, -1, -1, -1, -1, -1, -1, -1, -1,
    -1, -1, -1, -1, -1, -1, -1, -1, -1, -1, -1, -1, -1, -1, -1, -1, -1, -1, -1, -1,
    -1, -1, -1, -1, -1, -1, -1, -1, -1, -1, 26, 27, 28, 29, 30, 31, -1, -1, -1, -1,
    -1, -1, -1, -1, -1,  0,  1,  2,  3,  4,  5,  6,  7,  8,  9, 10, 11, 12, 13, 14,
    15, 16, 17, 18, 19, 20, 21, 22, 23, 24, 25, -1, -1, -1, -1, -1, -1,  0,  1,  2,
     3,  4,  5,  6,  7,  8,  9, 10, 11, 12, 13, 14, 15, 16, 17, 18, 19, 20, 21, 22,
    23, 24, 25, -1, -1, -1, -1, -1, -1, -1, -1, -1, -1, -1, -1, -1, -1, -1, -1, -1,
    -1, -1, -1, -1, -1, -1, -1, -1, -1, -1, -1, -1, -1, -1, -1, -1, -1, -1, -1, -1,
    -1, -1, -1, -1, -1, -1, -1, -1, -1, -1, -1, -1, -1, -1, -1, -1, -1, -1, -1, -1,
    -1, -1, -1, -1, -1, -1, -1, -1, -1, -1, -1, -1, -1, -1, -1, -1, -1, -1, -1, -1,
    -1, -1, -1, -1, -1, -1, -1, -1, -1, -1, -1, -1, -1, -1, -1, -1, -1, -1, -1, -1,
    -1, -1, -1, -1, -1, -1, -1, -1, -1, -1, -1, -1, -1, -1, -1, -1, -1, -1, -1, -1,
    -1, -1, -1, -1, -1, -1, -1, -1, -1, -1, -1, -1, -1, -1, -1, -1]"

definition DecodeBase32 :: "string \<Rightarrow> bytes option" where
  "DecodeBase32 str =
     (if length str mod 8 \<noteq> 0 then None
      else let str = strip_equals 2 (strip_equals 1 (strip_equals 2 (strip_equals 1 str)));
               (valid, ret) = ConvertBits 5 8 False (\<lambda>c. decode32_table ! of_char c) str
           in if valid then Some (map word_of_nat ret) else None)"


subsection \<open>Trimming and searching\<close>

definition TrimStringView :: "string \<Rightarrow> string" where
  "TrimStringView str = rev (dropWhile IsSpace (rev (dropWhile IsSpace str)))"

definition ContainsNoNUL :: "string \<Rightarrow> bool" where
  "ContainsNoNUL str \<longleftrightarrow> (\<forall>c \<in> set str. c \<noteq> CHR 0x00)"

definition TimingResistantEqual :: "bytes \<Rightarrow> bytes \<Rightarrow> bool" where
  "TimingResistantEqual a b =
     (if length b = 0 then length a = 0
      else foldl (\<lambda>accumulator i. accumulator OR unat (a ! i XOR b ! (i mod length b))) (length a XOR length b)
             [0..<length a] = 0)"

subsection \<open>Integers in decimal\<close>

text \<open>An integral type of the source: whether it is signed, and its range.\<close>

record int_type =
  it_signed :: bool
  it_min :: int
  it_max :: int

definition int32_t :: int_type where
  "int32_t = \<lparr>it_signed = True, it_min = - (2 ^ 31), it_max = 2 ^ 31 - 1\<rparr>"

definition int64_t :: int_type where
  "int64_t = \<lparr>it_signed = True, it_min = - (2 ^ 63), it_max = 2 ^ 63 - 1\<rparr>"

definition uint8_t :: int_type where
  "uint8_t = \<lparr>it_signed = False, it_min = 0, it_max = 2 ^ 8 - 1\<rparr>"

definition uint16_t :: int_type where
  "uint16_t = \<lparr>it_signed = False, it_min = 0, it_max = 2 ^ 16 - 1\<rparr>"

definition uint32_t :: int_type where
  "uint32_t = \<lparr>it_signed = False, it_min = 0, it_max = 2 ^ 32 - 1\<rparr>"

definition uint64_t :: int_type where
  "uint64_t = \<lparr>it_signed = False, it_min = 0, it_max = 2 ^ 64 - 1\<rparr>"

definition digit_val :: "char \<Rightarrow> nat" where
  "digit_val c = of_char c - 48"

definition dec_val :: "string \<Rightarrow> nat" where
  "dec_val ds = foldl (\<lambda>a c. a * 10 + digit_val c) 0 ds"

datatype errc = invalid_argument | result_out_of_range

text \<open>\<^verbatim>\<open>std::from_chars\<close> in base 10: the unread suffix, and the value or the error.\<close>

definition from_chars :: "int_type \<Rightarrow> string \<Rightarrow> string \<times> (errc + int)" where
  "from_chars T s =
     (let neg = (it_signed T \<and> s \<noteq> [] \<and> hd s = CHR ''-'');
          body = (if neg then tl s else s);
          ds = takeWhile IsDigit body;
          v = (if neg then - int (dec_val ds) else int (dec_val ds))
      in if ds = [] then (s, Inl invalid_argument)
         else if v < it_min T \<or> v > it_max T then (dropWhile IsDigit body, Inl result_out_of_range)
         else (dropWhile IsDigit body, Inr v))"

definition ToIntegral :: "int_type \<Rightarrow> string \<Rightarrow> int option" where
  "ToIntegral T str =
     (case from_chars T str of (rest, Inl e) \<Rightarrow> None | (rest, Inr result) \<Rightarrow> if rest \<noteq> [] then None else Some result)"

definition ParseIntegral :: "int_type \<Rightarrow> string \<Rightarrow> int option" where
  "ParseIntegral T str =
     (if length str \<ge> 2 \<and> str ! 0 = CHR ''+'' \<and> str ! 1 = CHR ''-'' then None
      else ToIntegral T (if str \<noteq> [] \<and> str ! 0 = CHR ''+'' then drop 1 str else str))"

definition ParseInt32 :: "string \<Rightarrow> int option" where
  "ParseInt32 str = ParseIntegral int32_t str"

definition ParseInt64 :: "string \<Rightarrow> int option" where
  "ParseInt64 str = ParseIntegral int64_t str"

definition ParseUInt8 :: "string \<Rightarrow> int option" where
  "ParseUInt8 str = ParseIntegral uint8_t str"

definition ParseUInt16 :: "string \<Rightarrow> int option" where
  "ParseUInt16 str = ParseIntegral uint16_t str"

definition ParseUInt32 :: "string \<Rightarrow> int option" where
  "ParseUInt32 str = ParseIntegral uint32_t str"

definition ParseUInt64 :: "string \<Rightarrow> int option" where
  "ParseUInt64 str = ParseIntegral uint64_t str"

definition LocaleIndependentAtoi :: "int_type \<Rightarrow> string \<Rightarrow> int" where
  "LocaleIndependentAtoi T str =
     (let s = TrimStringView str in
      if s \<noteq> [] \<and> s ! 0 = CHR ''+'' \<and> length s \<ge> 2 \<and> s ! 1 = CHR ''-'' then 0
      else let s = (if s \<noteq> [] \<and> s ! 0 = CHR ''+'' then drop 1 s else s) in
        (case snd (from_chars T s) of
           Inl result_out_of_range \<Rightarrow> if length s \<ge> 1 \<and> s ! 0 = CHR ''-'' then it_min T else it_max T
         | Inl invalid_argument \<Rightarrow> 0
         | Inr result \<Rightarrow> result))"

definition ParseByteUnits :: "string \<Rightarrow> int \<Rightarrow> int option" where
  "ParseByteUnits str default_multiplier =
     (if str = [] then None
      else let unit = last str;
               (multiplier, has_unit) =
                 (if unit = CHR ''k'' then (1000, True) else if unit = CHR ''K'' then (1024, True)
                  else if unit = CHR ''m'' then (1000000, True) else if unit = CHR ''M'' then (2 ^ 20, True)
                  else if unit = CHR ''g'' then (1000000000, True) else if unit = CHR ''G'' then (2 ^ 30, True)
                  else if unit = CHR ''t'' then (1000000000000, True) else if unit = CHR ''T'' then (2 ^ 40, True)
                  else (default_multiplier, False))
           in (case ToIntegral uint64_t (if has_unit then butlast str else str) of
                 None \<Rightarrow> None
               | Some parsed_num \<Rightarrow>
                   if parsed_num > cdiv (2 ^ 64 - 1) multiplier then None else Some (parsed_num * multiplier)))"

text \<open>\<^verbatim>\<open>find_last_of(c)\<close>: the index of the last occurrence.\<close>

definition find_last_of :: "char \<Rightarrow> string \<Rightarrow> nat option" where
  "find_last_of c s = (case filter (\<lambda>i. s ! i = c) [0..<length s] of [] \<Rightarrow> None | is \<Rightarrow> Some (last is))"

text \<open>
  The result is \<open>(valid, port, host)\<close>; the port is \<^const>\<open>None\<close> when \<^verbatim>\<open>portOut\<close> is left unchanged.
\<close>

definition SplitHostPort :: "string \<Rightarrow> bool \<times> int option \<times> string" where
  "SplitHostPort s =
     (let colon = find_last_of (CHR '':'') s;
          (valid, port, s') =
            (case colon of None \<Rightarrow> (True, None, s)
             | Some k \<Rightarrow>
               let fBracketed = (s ! 0 = CHR ''['' \<and> s ! (k - 1) = CHR '']'');
                   fMultiColon = (k \<noteq> 0 \<and> find_last_of (CHR '':'') (take k s) \<noteq> None)
               in if k = 0 \<or> fBracketed \<or> \<not> fMultiColon
                  then (case ParseUInt16 (drop (k + 1) s) of None \<Rightarrow> (False, None, s)
                        | Some n \<Rightarrow> (n \<noteq> 0, Some n, take k s))
                  else (True, None, s))
      in (valid, port,
          if length s' > 0 \<and> s' ! 0 = CHR ''['' \<and> s' ! (length s' - 1) = CHR '']''
          then take (length s' - 2) (drop 1 s') else s'))"

subsection \<open>Fixed-point numbers\<close>

definition UPPER_BOUND :: int where
  "UPPER_BOUND = 1000000000000000000 - 1"

fun mantissa_shift :: "nat \<Rightarrow> int \<Rightarrow> int option" where
  "mantissa_shift 0 m = Some m"
| "mantissa_shift (Suc n) m = (if m > cdiv UPPER_BOUND 10 then None else mantissa_shift n (m * 10))"

definition ProcessMantissaDigit :: "char \<Rightarrow> int \<times> nat \<Rightarrow> (int \<times> nat) option" where
  "ProcessMantissaDigit ch s =
     (case s of (mantissa, tzeros) \<Rightarrow>
        if ch = CHR ''0'' then Some (mantissa, tzeros + 1)
        else (case mantissa_shift (tzeros + 1) mantissa of None \<Rightarrow> None
              | Some m \<Rightarrow> Some (m + int (digit_val ch), 0)))"

text \<open>The digit loops; the result has the unread suffix, the state and the number of digits read.\<close>

fun mantissa_loop :: "string \<Rightarrow> int \<times> nat \<Rightarrow> (string \<times> (int \<times> nat) \<times> nat) option" where
  "mantissa_loop [] s = Some ([], s, 0)"
| "mantissa_loop (c # cs) s =
     (if IsDigit c then
        (case ProcessMantissaDigit c s of None \<Rightarrow> None
         | Some s' \<Rightarrow> (case mantissa_loop cs s' of None \<Rightarrow> None | Some (r, t, n) \<Rightarrow> Some (r, t, Suc n)))
      else Some (c # cs, s, 0))"

fun exponent_loop :: "string \<Rightarrow> int \<Rightarrow> (string \<times> int) option" where
  "exponent_loop [] e = Some ([], e)"
| "exponent_loop (c # cs) e =
     (if IsDigit c then
        if e > cdiv UPPER_BOUND 10 then None else exponent_loop cs (e * 10 + int (digit_val c))
      else Some (c # cs, e))"

definition fp_integer :: "string \<Rightarrow> (string \<times> (int \<times> nat)) option" where
  "fp_integer val =
     (case val of [] \<Rightarrow> None
      | c # cs \<Rightarrow>
        if c = CHR ''0'' then Some (cs, (0, 0))
        else if c \<ge> CHR ''1'' \<and> c \<le> CHR ''9''
        then (case mantissa_loop val (0, 0) of None \<Rightarrow> None | Some (r, s, n) \<Rightarrow> Some (r, s))
        else None)"

definition fp_fraction :: "string \<Rightarrow> int \<times> nat \<Rightarrow> (string \<times> (int \<times> nat) \<times> nat) option" where
  "fp_fraction val s =
     (case val of [] \<Rightarrow> Some (val, s, 0)
      | c # cs \<Rightarrow>
        if c = CHR ''.'' then (if cs \<noteq> [] \<and> IsDigit (hd cs) then mantissa_loop cs s else None)
        else Some (val, s, 0))"

definition fp_exponent_sign :: "string \<Rightarrow> bool \<times> string" where
  "fp_exponent_sign cs =
     (case cs of [] \<Rightarrow> (False, cs)
      | d # ds \<Rightarrow> if d = CHR ''+'' then (False, ds) else if d = CHR ''-'' then (True, ds) else (False, cs))"

definition fp_exponent :: "string \<Rightarrow> (string \<times> int) option" where
  "fp_exponent val =
     (case val of [] \<Rightarrow> Some (val, 0)
      | c # cs \<Rightarrow>
        if c = CHR ''e'' \<or> c = CHR ''E'' then
          let (neg, ds) = fp_exponent_sign cs
          in if ds \<noteq> [] \<and> IsDigit (hd ds)
             then (case exponent_loop ds 0 of None \<Rightarrow> None | Some (r, e) \<Rightarrow> Some (r, if neg then - e else e))
             else None
        else Some (val, 0))"

fun fp_scale :: "nat \<Rightarrow> int \<Rightarrow> int option" where
  "fp_scale 0 m = (if m > UPPER_BOUND \<or> m < - UPPER_BOUND then None else Some m)"
| "fp_scale (Suc n) m =
     (if m > cdiv UPPER_BOUND 10 \<or> m < - cdiv UPPER_BOUND 10 then None else fp_scale n (m * 10))"

definition ParseFixedPoint :: "string \<Rightarrow> int \<Rightarrow> int option" where
  "ParseFixedPoint val decimals =
     (let (mantissa_sign, val1) =
        (case val of [] \<Rightarrow> (False, val) | c # cs \<Rightarrow> if c = CHR ''-'' then (True, cs) else (False, val)) in
      case fp_integer val1 of None \<Rightarrow> None
      | Some (val2, s2) \<Rightarrow>
        (case fp_fraction val2 s2 of None \<Rightarrow> None
         | Some (val3, (mantissa, tzeros), point_ofs) \<Rightarrow>
           (case fp_exponent val3 of None \<Rightarrow> None
            | Some (val4, e) \<Rightarrow>
              if val4 \<noteq> [] then None
              else let exponent = e - int point_ofs + int tzeros + decimals;
                       m = (if mantissa_sign then - mantissa else mantissa)
                   in if exponent < 0 then None
                      else if exponent \<ge> 18 then None
                      else fp_scale (nat exponent) m)))"

subsection \<open>Digits in a power-of-two base\<close>

text \<open>The value read from \<open>v\<close> by appending the digits of \<open>xs\<close> in base \<open>2 ^ b\<close>, most significant first.\<close>

primrec be_from :: "nat \<Rightarrow> nat \<Rightarrow> nat list \<Rightarrow> nat" where
  "be_from b v [] = v"
| "be_from b v (x # xs) = be_from b (v * 2 ^ b + x) xs"

lemma be_from_append [simp]: "be_from b v (xs @ ys) = be_from b (be_from b v xs) ys"
  by (induction xs arbitrary: v) simp_all

lemma be_from_inj:
  assumes "length xs = length ys" "\<forall>x \<in> set xs. x < 2 ^ b" "\<forall>y \<in> set ys. y < 2 ^ b" "be_from b v xs = be_from b v ys"
  shows "xs = ys"
  using assms
proof (induction xs arbitrary: ys rule: rev_induct)
  case (snoc x xs)
  obtain y zs where ys: "ys = zs @ [y]" using snoc.prems(1) by (cases ys rule: rev_cases) auto
  have e: "be_from b v xs * 2 ^ b + x = be_from b v zs * 2 ^ b + y" "x < 2 ^ b" "y < 2 ^ b"
    using snoc.prems ys by auto
  have "x = y" using arg_cong [OF e(1), of "\<lambda>t. t mod 2 ^ b"] e(2,3) by simp
  moreover have "be_from b v xs = be_from b v zs" using e(1) \<open>x = y\<close> by simp
  ultimately show ?case using snoc.IH [of zs] snoc.prems ys by auto
qed simp

lemma nat_or_push_bit: "v < 2 ^ n \<Longrightarrow> push_bit n a OR v = a * 2 ^ n + (v :: nat)"
proof -
  assume v: "v < 2 ^ n"
  have "push_bit n a AND v = 0"
  proof (rule bit_eqI)
    fix k
    have "\<not> bit v k" if "n \<le> k"
    proof -
      have "v < 2 ^ k" using v that by (meson less_le_trans one_le_numeral power_increasing)
      then show ?thesis by (simp add: bit_iff_odd)
    qed
    then show "bit (push_bit n a AND v) k = bit 0 k" by (auto simp: bit_and_iff bit_push_bit_iff)
  qed
  then have "push_bit n a OR v = push_bit n a + v" by (simp add: disjunctive_add_eq_or)
  then show ?thesis by (simp add: push_bit_eq_mult)
qed

lemma nat_and_mask: "(a :: nat) AND (2 ^ n - 1) = a mod 2 ^ n"
  using take_bit_eq_mask [of n a] by (simp add: mask_eq_exp_minus_1 take_bit_eq_mod)

lemma mod_power_add_split: "(a :: nat) mod 2 ^ (m + n) = (a div 2 ^ n) mod 2 ^ m * 2 ^ n + a mod 2 ^ n"
  by (metis add.commute mod_mult2_eq mult.commute power_add)

lemma convert_inner_spec:
  assumes "0 < t" "convert_inner t acc bits = (out, r)"
  shows "r < t \<and> bits = length out * t + r \<and> (\<forall>d \<in> set out. d < 2 ^ t) \<and>
    be_from t v out * 2 ^ r + acc mod 2 ^ r = v * 2 ^ bits + acc mod 2 ^ bits"
  using assms
proof (induction t acc bits arbitrary: out r v rule: convert_inner.induct)
  case (1 t acc bits)
  show ?case
  proof (cases "t \<le> bits")
    case False
    then show ?thesis using 1(2,3) by (simp add: convert_inner.simps [of t])
  next
    case True
    define b where "b = bits - t"
    define d where "d = (acc div 2 ^ b) mod 2 ^ t"
    obtain out' where out': "convert_inner t acc b = (out', r)" "out = d # out'"
      using 1(2,3) True by (auto simp: convert_inner.simps [of t acc bits] Let_def b_def d_def split: prod.splits)
    have bits: "bits = t + b" using True by (simp add: b_def)
    have IH: "r < t" "b = length out' * t + r" "\<forall>d \<in> set out'. d < 2 ^ t"
      "be_from t (v * 2 ^ t + d) out' * 2 ^ r + acc mod 2 ^ r = (v * 2 ^ t + d) * 2 ^ b + acc mod 2 ^ b"
      using 1(1) [OF conjI [OF True 1(2)] b_def 1(2) out'(1) ] by blast+
    have "(v * 2 ^ t + d) * 2 ^ b + acc mod 2 ^ b = v * 2 ^ bits + acc mod 2 ^ bits"
      using mod_power_add_split [of acc t b] by (simp add: bits d_def power_add add_mult_distrib)
    moreover have "d < 2 ^ t" by (simp add: d_def)
    ultimately show ?thesis using IH by (simp add: out'(2) bits)
  qed
qed

lemma convert_loop_spec:
  assumes "0 < f" "0 < t" "\<forall>x \<in> set xs. 0 \<le> infn x \<and> infn x < 2 ^ f" "bits < t"
  shows "\<exists>out acc' r. convert_loop f t infn acc bits xs = (out, Some (acc', r)) \<and> r < t \<and>
    bits + length xs * f = length out * t + r \<and> (\<forall>d \<in> set out. d < 2 ^ t) \<and>
    be_from t v out * 2 ^ r + acc' mod 2 ^ r =
      be_from f (v * 2 ^ bits + acc mod 2 ^ bits) (map (\<lambda>x. nat (infn x)) xs)"
  using assms(3,4)
proof (induction xs arbitrary: acc bits v)
  case Nil
  then show ?case by simp
next
  case (Cons x xs)
  define y where "y = nat (infn x)"
  have y: "\<not> infn x < 0" "y < 2 ^ f" using Cons.prems(1) by (auto simp: y_def nat_less_iff)
  define acc1 where "acc1 = (acc * 2 ^ f + y) mod 2 ^ (f + t - 1)"
  have acc1: "(push_bit f acc OR nat (infn x)) AND (2 ^ (f + t - 1) - 1) = acc1"
    using nat_or_push_bit [OF y(2), of acc] by (simp only: nat_and_mask acc1_def y_def)
  obtain out1 r1 where o1: "convert_inner t acc1 (bits + f) = (out1, r1)" by force
  have s1: "r1 < t" "bits + f = length out1 * t + r1" "\<forall>d \<in> set out1. d < 2 ^ t"
    "be_from t v out1 * 2 ^ r1 + acc1 mod 2 ^ r1 = v * 2 ^ (bits + f) + acc1 mod 2 ^ (bits + f)"
    using convert_inner_spec [OF assms(2) o1, of v] by simp_all
  have "acc1 mod 2 ^ (bits + f) = (acc * 2 ^ f + y) mod 2 ^ (bits + f)"
    unfolding acc1_def using Cons.prems(2) by (intro mod_mod_cancel le_imp_power_dvd) simp
  also have "\<dots> = acc mod 2 ^ bits * 2 ^ f + y"
    using mod_power_add_split [of "acc * 2 ^ f + y" bits f] y(2) by simp
  finally have step: "v * 2 ^ (bits + f) + acc1 mod 2 ^ (bits + f) = (v * 2 ^ bits + acc mod 2 ^ bits) * 2 ^ f + y"
    by (simp add: power_add algebra_simps)
  obtain out2 acc2 r where o2: "convert_loop f t infn acc1 r1 xs = (out2, Some (acc2, r))" "r < t"
    "r1 + length xs * f = length out2 * t + r" "\<forall>d \<in> set out2. d < 2 ^ t"
    "be_from t (be_from t v out1) out2 * 2 ^ r + acc2 mod 2 ^ r =
     be_from f (be_from t v out1 * 2 ^ r1 + acc1 mod 2 ^ r1) (map (\<lambda>x. nat (infn x)) xs)"
    using Cons.IH [of r1 acc1 "be_from t v out1"] Cons.prems(1) s1(1) by auto
  have "convert_loop f t infn acc bits (x # xs) = (out1 @ out2, Some (acc2, r))"
    using y(1) o1 o2(1) acc1 by (simp add: Let_def del: One_nat_def)
  moreover have "bits + length (x # xs) * f = length (out1 @ out2) * t + r"
    using s1(2) o2(3) by (simp add: algebra_simps)
  moreover have "be_from t v (out1 @ out2) * 2 ^ r + acc2 mod 2 ^ r =
      be_from f (v * 2 ^ bits + acc mod 2 ^ bits) (map (\<lambda>x. nat (infn x)) (x # xs))"
    using o2(5) s1(4) step by (simp add: y_def)
  moreover have "\<forall>d \<in> set (out1 @ out2). d < 2 ^ t" using o2(4) s1(3) by auto
  ultimately show ?case using o2(2) by blast
qed

text \<open>Converting to narrower digits with padding and back without is the identity.\<close>

lemma ConvertBits_pad:
  assumes "0 < t" "t \<le> f" "\<forall>x \<in> set xs. 0 \<le> infn x \<and> infn x < 2 ^ f"
  obtains out p where "ConvertBits f t True infn xs = (True, out)" "p < t" "length out * t = length xs * f + p"
    "\<forall>d \<in> set out. d < 2 ^ t" "be_from t 0 out = be_from f 0 (map (\<lambda>x. nat (infn x)) xs) * 2 ^ p"
proof -
  obtain out acc r where o: "convert_loop f t infn 0 0 xs = (out, Some (acc, r))" "r < t"
    "length xs * f = length out * t + r" "\<forall>d \<in> set out. d < 2 ^ t"
    "be_from t 0 out * 2 ^ r + acc mod 2 ^ r = be_from f 0 (map (\<lambda>x. nat (infn x)) xs)"
    using convert_loop_spec [of f t xs infn 0 0 0] assms by auto
  show thesis
  proof (cases "r = 0")
    case True
    then have "ConvertBits f t True infn xs = (True, out)" using o(1) by (simp add: ConvertBits_def Let_def)
    then show ?thesis using o(3,4,5) True assms(1) by (intro that [of out 0]) simp_all
  next
    case False
    define w where "w = (acc * 2 ^ (t - r)) mod 2 ^ t"
    have "w = acc mod 2 ^ r * 2 ^ (t - r)"
      using mod_mult_mult2 [of acc "2 ^ (t - r)" "2 ^ r"] o(2) by (simp add: w_def flip: power_add)
    moreover have "(2::nat) ^ t = 2 ^ r * 2 ^ (t - r)" using o(2) by (simp flip: power_add)
    ultimately have "be_from t 0 (out @ [w]) = be_from f 0 (map (\<lambda>x. nat (infn x)) xs) * 2 ^ (t - r)"
      by (simp add: algebra_simps flip: o(5))
    moreover have "w < 2 ^ t" by (simp add: w_def)
    moreover have "length (out @ [w]) * t = length xs * f + (t - r)" using o(2,3) by simp
    moreover have "ConvertBits f t True infn xs = (True, out @ [w])" using o(1) False by (simp add: ConvertBits_def Let_def w_def)
    moreover have "t - r < t" using False o(2) by simp
    moreover have "\<forall>d \<in> set (out @ [w]). d < 2 ^ t" using o(4) \<open>w < 2 ^ t\<close> by simp
    ultimately show ?thesis using that by blast
  qed
qed

lemma ConvertBits_unpad:
  assumes "0 < t" "t \<le> f" "\<forall>x \<in> set ys. 0 \<le> g x \<and> g x < 2 ^ t" "p < t"
    "length ys * t = length xs * f + p" "\<forall>x \<in> set xs. x < 2 ^ f"
    "be_from t 0 (map (\<lambda>x. nat (g x)) ys) = be_from f 0 xs * 2 ^ p"
  shows "ConvertBits t f False g ys = (True, xs)"
proof -
  obtain out acc r where o: "convert_loop t f g 0 0 ys = (out, Some (acc, r))" "r < f"
    "length ys * t = length out * f + r" "\<forall>d \<in> set out. d < 2 ^ f"
    "be_from f 0 out * 2 ^ r + acc mod 2 ^ r = be_from t 0 (map (\<lambda>x. nat (g x)) ys)"
    using convert_loop_spec [of t f ys g 0 0 0] assms by auto
  have e: "length out * f + r = length xs * f + p" using o(3) assms(5) by simp
  have "p < f" using assms(2,4) by simp
  then have r: "r = p" using arg_cong [OF e, of "\<lambda>n. n mod f"] o(2) by simp
  then have len: "length out = length xs" using e assms(1,2) by simp
  have v: "be_from f 0 out * 2 ^ p + acc mod 2 ^ p = be_from f 0 xs * 2 ^ p" using o(5) assms(7) r by simp
  have low: "acc mod 2 ^ p = 0" using arg_cong [OF v, of "\<lambda>n. n mod 2 ^ p"] by simp
  then have "out = xs" using be_from_inj [OF len, of f 0] o(4) assms(6) v by simp
  moreover have "(acc * 2 ^ (f - r)) mod 2 ^ f = 0"
  proof -
    have "(2::nat) ^ f = 2 ^ p * 2 ^ (f - p)" using \<open>p < f\<close> by (simp flip: power_add)
    then show ?thesis using mod_mult_mult2 [of acc "2 ^ (f - p)" "2 ^ p"] low r by simp
  qed
  ultimately show ?thesis using o(1) r assms(4) by (simp add: ConvertBits_def Let_def)
qed

lemma ConvertBits_round_trip:
  fixes xs :: "u8 list"
  assumes "0 < t" "t \<le> 8" "\<And>d. d < 2 ^ t \<Longrightarrow> g (h d) = int d"
  obtains out where "ConvertBits 8 t True uint xs = (True, out)" "\<forall>d \<in> set out. d < 2 ^ t"
    "ConvertBits t 8 False g (map h out) = (True, map unat xs)" "\<exists>p < t. length out * t = length xs * 8 + p"
proof -
  have b: "\<forall>x \<in> set xs. 0 \<le> uint x \<and> uint x < 2 ^ 8" using uint_lt2p [where 'a = 8] by auto
  obtain out p where o: "ConvertBits 8 t True uint xs = (True, out)" "p < t" "length out * t = length xs * 8 + p"
    "\<forall>d \<in> set out. d < 2 ^ t" "be_from t 0 out = be_from 8 0 (map (\<lambda>x. nat (uint x)) xs) * 2 ^ p"
    using ConvertBits_pad [OF assms(1,2) b] by blast
  have g: "map (\<lambda>x. nat (g x)) (map h out) = out" using o(4) assms(3) by (simp add: map_idI)
  have "ConvertBits t 8 False g (map h out) = (True, map unat xs)"
  proof (rule ConvertBits_unpad [OF assms(1,2) _ o(2)])
    show "\<forall>x \<in> set (map h out). 0 \<le> g x \<and> g x < 2 ^ t"
    proof
      fix x assume "x \<in> set (map h out)"
      then obtain d where d: "x = h d" "d < 2 ^ t" using o(4) by auto
      then have "int d < 2 ^ t" by (metis of_nat_less_iff of_nat_numeral of_nat_power)
      then show "0 \<le> g x \<and> g x < 2 ^ t" using assms(3) d by simp
    qed
    show "be_from t 0 (map (\<lambda>x. nat (g x)) (map h out)) = be_from 8 0 (map unat xs) * 2 ^ p"
      using o(5) unfolding g by simp
    show "\<forall>x \<in> set (map unat xs). x < 2 ^ 8" by (auto intro: unat_u8_less [simplified])
  qed (use o in simp_all)
  then show thesis using o by (intro that [of out]) auto
qed

lemma strip_pad_equals:
  "strip_equals n (xs @ replicate n (CHR ''='')) = xs"
  by (simp add: strip_equals_def)

lemma strip_equals_no:
  assumes "CHR ''='' \<notin> set xs" "0 < n"
  shows "strip_equals n xs = xs"
proof -
  have "drop (length xs - n) xs \<noteq> replicate n (CHR ''='')"
  proof
    assume e: "drop (length xs - n) xs = replicate n (CHR ''='')"
    have "CHR ''='' \<in> set (drop (length xs - n) xs)" unfolding e using assms(2) by simp
    then show False using assms(1) in_set_dropD by fast
  qed
  then show ?thesis by (simp add: strip_equals_def)
qed

subsection \<open>Round trips of the text encodings\<close>

lemma decode64_table_pbase64: "map (\<lambda>c. decode64_table ! of_char c) pbase64 = map int [0..<64]"
  by (simp add: pbase64_def decode64_table_def upt_rec)

lemma decode32_table_pbase32: "map (\<lambda>c. decode32_table ! of_char c) pbase32 = map int [0..<32]"
  by (simp add: pbase32_def decode32_table_def upt_rec)

lemma alphabet64:
  assumes "d < 64"
  shows "decode64_table ! of_char (pbase64 ! d) = int d" "pbase64 ! d \<noteq> CHR ''=''"
proof -
  have l: "length pbase64 = 64" by (simp add: pbase64_def)
  then show "decode64_table ! of_char (pbase64 ! d) = int d"
    using arg_cong [OF decode64_table_pbase64, of "\<lambda>xs. xs ! d"] assms by simp
  have "CHR ''='' \<notin> set pbase64" by (simp add: pbase64_def)
  then show "pbase64 ! d \<noteq> CHR ''=''" using nth_mem [of d pbase64] assms l by metis
qed

lemma alphabet32:
  assumes "d < 32"
  shows "decode32_table ! of_char (pbase32 ! d) = int d" "pbase32 ! d \<noteq> CHR ''=''"
proof -
  have l: "length pbase32 = 32" by (simp add: pbase32_def)
  then show "decode32_table ! of_char (pbase32 ! d) = int d"
    using arg_cong [OF decode32_table_pbase32, of "\<lambda>xs. xs ! d"] assms by simp
  have "CHR ''='' \<notin> set pbase32" by (simp add: pbase32_def)
  then show "pbase32 ! d \<noteq> CHR ''=''" using nth_mem [of d pbase32] assms l by metis
qed

lemma strip_equals_replicate:
  "n \<le> k \<Longrightarrow> strip_equals n (xs @ replicate k (CHR ''='')) = xs @ replicate (k - n) (CHR ''='')"
proof -
  assume "n \<le> k"
  then have "xs @ replicate k (CHR ''='') = (xs @ replicate (k - n) (CHR ''='')) @ replicate n (CHR ''='')"
    by (simp flip: replicate_add)
  then show ?thesis by (simp only: strip_pad_equals)
qed

lemma length_pad_equals:
  assumes "0 < c"
  shows "length (pad_equals c str) mod c = 0"
proof -
  have "length (pad_equals c str) mod c = (length str + (c - length str mod c)) mod c"
    by (simp add: pad_equals_def mod_add_right_eq)
  also have "\<dots> = (length str mod c + (c - length str mod c)) mod c" by (simp add: mod_add_left_eq)
  also have "length str mod c + (c - length str mod c) = c" using assms by simp
  finally show ?thesis by simp
qed

lemma pad64_count:
  assumes "L * 6 = n * 8 + p" "p < 6"
  shows "(4 - L mod 4) mod 4 \<in> {0, 1, 2 :: nat}"
proof -
  have "L mod 4 \<noteq> 1"
  proof
    assume "L mod 4 = 1"
    then obtain q where "L = 4 * q + 1" by (metis mult_div_mod_eq)
    then have "24 * q + 6 = 8 * n + p" using assms(1) by simp
    then show False using assms(2) by presburger
  qed
  moreover have "L mod 4 < 4" by simp
  ultimately consider "L mod 4 = 0" | "L mod 4 = 2" | "L mod 4 = 3" by linarith
  then show ?thesis by cases simp_all
qed

lemma pad32_count:
  assumes "L * 5 = n * 8 + p" "p < 5"
  shows "(8 - L mod 8) mod 8 \<in> {0, 1, 3, 4, 6 :: nat}"
proof -
  define j where "j = L mod 8"
  obtain q where L: "L = 8 * q + j" unfolding j_def by (metis mult_div_mod_eq)
  have "j < 8" by (simp add: j_def)
  then consider "j = 0" | "j = 1" | "j = 2" | "j = 3" | "j = 4" | "j = 5" | "j = 6" | "j = 7" by linarith
  then have "j \<noteq> 1 \<and> j \<noteq> 3 \<and> j \<noteq> 6 \<and> j < 8"
  proof cases
    case 2
    then have "40 * q + 5 = 8 * n + p" using assms(1) L by simp
    then show ?thesis using assms(2) by presburger
  next
    case 4
    then have "40 * q + 15 = 8 * n + p" using assms(1) L by simp
    then show ?thesis using assms(2) by presburger
  next
    case 7
    then have "40 * q + 30 = 8 * n + p" using assms(1) L by simp
    then show ?thesis using assms(2) by presburger
  qed simp_all
  then consider "j = 0" | "j = 2" | "j = 4" | "j = 5" | "j = 7" by linarith
  then show ?thesis unfolding j_def [symmetric] by cases simp_all
qed

lemma not_in_alphabet:
  assumes "\<forall>d \<in> set out. d < n" "\<And>d. d < n \<Longrightarrow> alpha d \<noteq> c"
  shows "c \<notin> set (map alpha out)"
  using assms by fastforce

lemma map_word_unat: "map word_of_nat (map unat (bs :: u8 list)) = bs"
  by (simp add: map_idI)

lemma DecodeBase64_EncodeBase64: "DecodeBase64 (EncodeBase64 bs) = Some bs"
proof -
  obtain out where o: "ConvertBits 8 6 True uint bs = (True, out)" "\<forall>d \<in> set out. d < 64"
    "ConvertBits 6 8 False (\<lambda>c. decode64_table ! of_char c) (map ((!) pbase64) out) = (True, map unat bs)"
    "\<exists>p < 6. length out * 6 = length bs * 8 + p"
    using ConvertBits_round_trip [of 6 "\<lambda>c. decode64_table ! of_char c" "(!) pbase64" bs] alphabet64(1) by auto
  define str where "str = map ((!) pbase64) out"
  define k where "k = (4 - length str mod 4) mod 4"
  have enc: "EncodeBase64 bs = pad_equals 4 str" using o(1) by (simp add: EncodeBase64_def str_def)
  have pad: "pad_equals 4 str = str @ replicate k (CHR ''='')" by (simp add: pad_equals_def k_def)
  have no: "CHR ''='' \<notin> set str" unfolding str_def by (rule not_in_alphabet [OF o(2) alphabet64(2)])
  have "k \<in> {0, 1, 2}" unfolding k_def str_def length_map using o(4) pad64_count by blast
  then have strip: "strip_equals 1 (strip_equals 1 (pad_equals 4 str)) = str"
    using strip_equals_no [OF no, of 1] strip_equals_replicate [of 1 k str] strip_equals_replicate [of 1 1 str]
    unfolding pad by (elim insertE emptyE) simp_all
  show ?thesis
    unfolding DecodeBase64_def enc strip using o(3) length_pad_equals [of 4 str] map_word_unat [of bs]
    by (simp add: str_def Let_def)
qed

lemma DecodeBase32_EncodeBase32: "DecodeBase32 (EncodeBase32 bs True) = Some bs"
proof -
  obtain out where o: "ConvertBits 8 5 True uint bs = (True, out)" "\<forall>d \<in> set out. d < 32"
    "ConvertBits 5 8 False (\<lambda>c. decode32_table ! of_char c) (map ((!) pbase32) out) = (True, map unat bs)"
    "\<exists>p < 5. length out * 5 = length bs * 8 + p"
    using ConvertBits_round_trip [of 5 "\<lambda>c. decode32_table ! of_char c" "(!) pbase32" bs] alphabet32(1) by auto
  define str where "str = map ((!) pbase32) out"
  define k where "k = (8 - length str mod 8) mod 8"
  have enc: "EncodeBase32 bs True = pad_equals 8 str" using o(1) by (simp add: EncodeBase32_def str_def Let_def)
  have pad: "pad_equals 8 str = str @ replicate k (CHR ''='')" by (simp add: pad_equals_def k_def)
  have no: "CHR ''='' \<notin> set str" unfolding str_def by (rule not_in_alphabet [OF o(2) alphabet32(2)])
  have n: "strip_equals 1 str = str" "strip_equals 2 str = str" using strip_equals_no [OF no] by simp_all
  have r: "strip_equals n (str @ replicate k (CHR ''='')) = str @ replicate (k - n) (CHR ''='')" if "n \<le> k" for n k
    using strip_equals_replicate that .
  have "k \<in> {0, 1, 3, 4, 6}" unfolding k_def str_def length_map using o(4) pad32_count by blast
  then have strip: "strip_equals 2 (strip_equals 1 (strip_equals 2 (strip_equals 1 (pad_equals 8 str)))) = str"
    unfolding pad
    using n r [of 1 1] r [of 1 3] r [of 2 2] r [of 1 4] r [of 2 3] r [of 1 6] r [of 2 5] r [of 1 3] r [of 2 2]
    by (elim insertE emptyE) simp_all
  show ?thesis
    unfolding DecodeBase32_def enc strip using o(3) length_pad_equals [of 8 str] map_word_unat [of bs]
    by (simp add: str_def Let_def)
qed

lemma HexDigit_hexmap: "map HexDigit hexmap = map int [0..<16]" "map IsSpace hexmap = replicate 16 False"
  by (simp_all add: hexmap_def HexDigit_def p_util_hexdigit_def IsSpace_def upt_rec numeral_eq_Suc)

lemma hexmap_nth:
  assumes "d < 16"
  shows "HexDigit (hexmap ! d) = int d" "\<not> IsSpace (hexmap ! d)"
proof -
  have l: "length hexmap = 16" by (simp add: hexmap_def)
  show "HexDigit (hexmap ! d) = int d"
    using arg_cong [OF HexDigit_hexmap(1), of "\<lambda>xs. xs ! d"] assms l by simp
  show "\<not> IsSpace (hexmap ! d)"
    using arg_cong [OF HexDigit_hexmap(2), of "\<lambda>xs. xs ! d"] assms l by simp
qed

lemma hex_nibbles:
  fixes b :: u8
  shows "word_of_int (push_bit 4 (int (unat b div 16))) OR word_of_int (int (unat b mod 16)) = b"
proof -
  have d: "unat b div 16 = drop_bit 4 (unat b)" "unat b mod 16 = take_bit 4 (unat b)"
    by (simp_all add: drop_bit_eq_div take_bit_eq_mod)
  show ?thesis
    unfolding d
    by (rule bit_word_eqI) (auto simp: bit_or_iff bit_word_of_int_iff bit_push_bit_iff bit_of_nat_iff
        bit_drop_bit_eq bit_take_bit_iff bit_unsigned_iff)
qed

lemma TryParseHex_HexStr: "TryParseHex (HexStr bs) = Some bs"
proof (induction bs)
  case Nil
  then show ?case by (simp add: HexStr_def)
next
  case (Cons b bs)
  have "unat b div 16 < 16" using unat_u8_less [of b] by (simp add: less_mult_imp_div_less del: unat_u8_less)
  then show ?case
    using Cons hex_nibbles [of b] by (simp add: HexStr_def byte_to_hex_def hexmap_nth)
qed

subsection \<open>Decimal digits\<close>

abbreviation dec_from :: "nat \<Rightarrow> string \<Rightarrow> nat" where
  "dec_from v ds \<equiv> foldl (\<lambda>a c. a * 10 + digit_val c) v ds"

lemma digit_val_le: "IsDigit c \<Longrightarrow> digit_val c \<le> 9"
  unfolding IsDigit_def digit_val_def less_eq_char_def by simp linarith

lemma digit_val_0 [simp]: "digit_val (CHR ''0'') = 0"
  by (simp add: digit_val_def)

lemma UPPER_BOUND_div10: "cdiv UPPER_BOUND 10 = 99999999999999999"
  by (simp add: UPPER_BOUND_def)

lemma mantissa_shift_spec:
  "mantissa_shift n m = Some m' \<Longrightarrow> 0 \<le> m \<Longrightarrow> m' = m * 10 ^ n \<and> (0 < n \<longrightarrow> m' \<le> 999999999999999990)"
proof (induction n arbitrary: m)
  case (Suc n)
  have m: "m \<le> 99999999999999999" "mantissa_shift n (m * 10) = Some m'"
    using Suc.prems(1) by (auto simp: UPPER_BOUND_div10 split: if_splits)
  have IH: "m' = m * 10 * 10 ^ n" "0 < n \<Longrightarrow> m' \<le> 999999999999999990" using Suc.IH [OF m(2)] Suc.prems(2) by auto
  moreover have "n = 0 \<Longrightarrow> m' \<le> 999999999999999990" using IH(1) m(1) by simp
  ultimately show ?case by (cases n) simp_all
qed simp

lemma ProcessMantissaDigit_spec:
  assumes "ProcessMantissaDigit c (m, tz) = Some (m', tz')" "IsDigit c" "0 \<le> m" "m \<le> UPPER_BOUND"
  shows "0 \<le> m' \<and> m' \<le> UPPER_BOUND \<and> m' * 10 ^ tz' = m * 10 ^ tz * 10 + int (digit_val c)"
proof (cases "c = CHR ''0''")
  case True
  then show ?thesis using assms by (auto simp: ProcessMantissaDigit_def)
next
  case False
  then obtain k where k: "mantissa_shift (Suc tz) m = Some k" "m' = k + int (digit_val c)" "tz' = 0"
    using assms(1) by (auto simp: ProcessMantissaDigit_def split: option.splits)
  then have "k = m * 10 ^ tz * 10" "k \<le> 999999999999999990"
    using mantissa_shift_spec [OF k(1) assms(3)] by simp_all
  moreover have "0 \<le> m * 10 ^ tz * 10" using assms(3) by simp
  ultimately show ?thesis using k(2,3) digit_val_le [OF assms(2)] unfolding UPPER_BOUND_def by simp
qed

lemma mantissa_loop_spec:
  assumes "mantissa_loop cs (m, tz) = Some (r, (m', tz'), n)" "0 \<le> m" "m \<le> UPPER_BOUND" "m * 10 ^ tz = int v"
  obtains ds where "cs = ds @ r" "\<forall>c \<in> set ds. IsDigit c" "length ds = n" "r = [] \<or> \<not> IsDigit (hd r)"
    "0 \<le> m'" "m' \<le> UPPER_BOUND" "m' * 10 ^ tz' = int (dec_from v ds)"
proof -
  have "\<exists>ds. cs = ds @ r \<and> (\<forall>c \<in> set ds. IsDigit c) \<and> length ds = n \<and> (r = [] \<or> \<not> IsDigit (hd r)) \<and>
    0 \<le> m' \<and> m' \<le> UPPER_BOUND \<and> m' * 10 ^ tz' = int (dec_from v ds)"
    using assms
  proof (induction cs arbitrary: m tz n v)
    case Nil
    then show ?case by simp
  next
    case (Cons c cs)
    show ?case
    proof (cases "IsDigit c")
      case False
      then show ?thesis using Cons.prems by auto
    next
      case True
      then obtain m1 tz1 k where s: "ProcessMantissaDigit c (m, tz) = Some (m1, tz1)"
        "mantissa_loop cs (m1, tz1) = Some (r, (m', tz'), k)" "n = Suc k"
        using Cons.prems(1) by (auto split: option.splits)
      have m1: "0 \<le> m1" "m1 \<le> UPPER_BOUND" "m1 * 10 ^ tz1 = int (v * 10 + digit_val c)"
        using ProcessMantissaDigit_spec [OF s(1) True Cons.prems(2,3)] Cons.prems(4) by simp_all
      obtain ds where "cs = ds @ r" "\<forall>c \<in> set ds. IsDigit c" "length ds = k" "r = [] \<or> \<not> IsDigit (hd r)"
        "0 \<le> m'" "m' \<le> UPPER_BOUND" "m' * 10 ^ tz' = int (dec_from (v * 10 + digit_val c) ds)"
        using Cons.IH [OF s(2) m1] by blast
      then show ?thesis using True s(3) by (intro exI [of _ "c # ds"]) auto
    qed
  qed
  then show thesis using that by blast
qed

lemma exponent_loop_spec:
  assumes "exponent_loop cs (int v) = Some (r, e)"
  obtains ds where "cs = ds @ r" "\<forall>c \<in> set ds. IsDigit c" "r = [] \<or> \<not> IsDigit (hd r)" "e = int (dec_from v ds)"
proof -
  have "\<exists>ds. cs = ds @ r \<and> (\<forall>c \<in> set ds. IsDigit c) \<and> (r = [] \<or> \<not> IsDigit (hd r)) \<and> e = int (dec_from v ds)"
    using assms
  proof (induction cs arbitrary: v)
    case (Cons c cs)
    show ?case
    proof (cases "IsDigit c")
      case True
      then have "exponent_loop cs (int (v * 10 + digit_val c)) = Some (r, e)"
        using Cons.prems by (simp split: if_splits)
      from Cons.IH [OF this] obtain ds where "cs = ds @ r" "\<forall>c \<in> set ds. IsDigit c" "r = [] \<or> \<not> IsDigit (hd r)"
        "e = int (dec_from (v * 10 + digit_val c) ds)" by blast
      then show ?thesis using True by (intro exI [of _ "c # ds"]) auto
    qed (use Cons.prems in auto)
  qed simp
  then show thesis using that by blast
qed

lemma fp_scale_spec: "fp_scale n m = Some a \<Longrightarrow> a = m * 10 ^ n \<and> \<bar>a\<bar> \<le> UPPER_BOUND"
proof (induction n arbitrary: m)
  case (Suc n)
  then have "fp_scale n (m * 10) = Some a" by (simp split: if_splits)
  from Suc.IH [OF this] show ?case by (metis mult.assoc power_Suc)
qed (auto split: if_splits)

subsection \<open>Numbers as text\<close>

definition exponent_text :: "string \<Rightarrow> int \<Rightarrow> bool" where
  "exponent_text t e \<longleftrightarrow> t = [] \<and> e = 0 \<or>
     (\<exists>c sg ds. t = c # sg @ ds \<and> c \<in> {CHR ''e'', CHR ''E''} \<and> sg \<in> {'''', ''+'', ''-''} \<and> ds \<noteq> [] \<and>
        (\<forall>d \<in> set ds. IsDigit d) \<and> e = (if sg = ''-'' then - int (dec_val ds) else int (dec_val ds)))"

definition number_text :: "string \<Rightarrow> bool \<Rightarrow> string \<Rightarrow> string \<Rightarrow> int \<Rightarrow> bool" where
  "number_text val neg ip fp e \<longleftrightarrow>
     (\<exists>t. val = (if neg then ''-'' else []) @ ip @ (if fp = [] then [] else CHR ''.'' # fp) @ t \<and> exponent_text t e) \<and>
     ip \<noteq> [] \<and> (\<forall>c \<in> set (ip @ fp). IsDigit c) \<and> (ip = ''0'' \<or> hd ip \<noteq> CHR ''0'')"

lemma fp_exponent_sign_spec:
  assumes "fp_exponent_sign cs = (neg, ds)"
  obtains sg where "cs = sg @ ds" "sg \<in> {'''', ''+'', ''-''}" "neg \<longleftrightarrow> sg = ''-''"
  using assms that [of "''''"] that [of "''+''"] that [of "''-''"]
  by (cases cs) (auto simp: fp_exponent_sign_def split: if_splits)

lemma fp_exponent_spec:
  assumes "fp_exponent val = Some ([], e)"
  shows "exponent_text val e"
proof (cases val)
  case Nil
  then show ?thesis using assms by (simp add: fp_exponent_def exponent_text_def)
next
  case (Cons c cs)
  show ?thesis
  proof (cases "c = CHR ''e'' \<or> c = CHR ''E''")
    case False
    then show ?thesis using assms Cons by (simp add: fp_exponent_def)
  next
    case True
    obtain neg ds where nd: "fp_exponent_sign cs = (neg, ds)" by force
    then obtain sg where sg: "cs = sg @ ds" "sg \<in> {'''', ''+'', ''-''}" "neg \<longleftrightarrow> sg = ''-''"
      by (rule fp_exponent_sign_spec)
    have *: "(if ds \<noteq> [] \<and> IsDigit (hd ds) then (case exponent_loop ds 0 of None \<Rightarrow> None
        | Some (r, e) \<Rightarrow> Some (r, if neg then - e else e)) else None) = Some ([], e)"
      using assms True nd unfolding fp_exponent_def Cons by (simp only: list.case Let_def prod.case if_True)
    then obtain k where k: "ds \<noteq> []" "exponent_loop ds (int 0) = Some ([], k)" "e = (if neg then - k else k)"
      by (auto split: if_split_asm option.splits)
    obtain "\<forall>c \<in> set ds. IsDigit c" "k = int (dec_val ds)"
      using exponent_loop_spec [OF k(2)] by (auto simp: dec_val_def)
    then show ?thesis
      using Cons True sg k(1,3) unfolding exponent_text_def by blast
  qed
qed

lemma fp_integer_spec:
  assumes "fp_integer val = Some (r, (m, tz))"
  obtains ip where "val = ip @ r" "ip \<noteq> []" "\<forall>c \<in> set ip. IsDigit c" "ip = ''0'' \<or> hd ip \<noteq> CHR ''0''"
    "0 \<le> m" "m \<le> UPPER_BOUND" "m * 10 ^ tz = int (dec_val ip)"
proof (cases val)
  case Nil
  then show thesis using assms by (simp add: fp_integer_def)
next
  case (Cons c cs)
  show thesis
  proof (cases "c = CHR ''0''")
    case True
    then show thesis using assms Cons by (intro that [of "''0''"]) (auto simp: fp_integer_def IsDigit_def dec_val_def UPPER_BOUND_def)
  next
    case False
    then obtain n where n: "c \<ge> CHR ''1''" "c \<le> CHR ''9''" "mantissa_loop val (0, 0) = Some (r, (m, tz), n)"
      using assms Cons by (auto simp: fp_integer_def split: if_splits option.splits)
    obtain ds where ds: "val = ds @ r" "\<forall>c \<in> set ds. IsDigit c" "length ds = n" "r = [] \<or> \<not> IsDigit (hd r)"
      "0 \<le> m" "m \<le> UPPER_BOUND" "m * 10 ^ tz = int (dec_from 0 ds)"
      by (rule mantissa_loop_spec [OF n(3), of 0]) (auto simp: UPPER_BOUND_def)
    have "CHR ''0'' \<le> c" using n(1) by (rule order_trans [rotated]) (simp add: less_eq_char_def)
    then have "IsDigit c" using n(2) by (simp add: IsDigit_def)
    then have "ds \<noteq> []" using ds(1,4) Cons by auto
    moreover from this have "hd ds = c" using ds(1) Cons by (metis hd_append2 list.sel(1))
    ultimately show thesis using ds False by (intro that [of ds]) (simp_all add: dec_val_def)
  qed
qed

lemma fp_fraction_spec:
  assumes "fp_fraction val (m, tz) = Some (r, (m', tz'), n)" "0 \<le> m" "m \<le> UPPER_BOUND" "m * 10 ^ tz = int v"
  obtains fp where "val = (if fp = [] then [] else CHR ''.'' # fp) @ r" "\<forall>c \<in> set fp. IsDigit c" "length fp = n"
    "0 \<le> m'" "m' \<le> UPPER_BOUND" "m' * 10 ^ tz' = int (dec_from v fp)"
proof (cases "val = [] \<or> hd val \<noteq> CHR ''.''")
  case True
  then have "r = val" "m' = m" "tz' = tz" "n = 0"
    using assms(1) by (cases val; auto simp: fp_fraction_def)+
  then show thesis using assms by (intro that [of "[]"]) auto
next
  case False
  then obtain cs where cs: "val = CHR ''.'' # cs" by (cases val) auto
  then have c: "cs \<noteq> []" "IsDigit (hd cs)" "mantissa_loop cs (m, tz) = Some (r, (m', tz'), n)"
    using assms(1) by (auto simp: fp_fraction_def split: if_splits)
  obtain ds where ds: "cs = ds @ r" "\<forall>c \<in> set ds. IsDigit c" "length ds = n" "r = [] \<or> \<not> IsDigit (hd r)"
    "0 \<le> m'" "m' \<le> UPPER_BOUND" "m' * 10 ^ tz' = int (dec_from v ds)"
    by (rule mantissa_loop_spec [OF c(3) assms(2-4)])
  moreover have "ds \<noteq> []" using c ds(1,4) by auto
  ultimately show thesis using cs by (intro that [of ds]) auto
qed

lemma scale_exponent:
  fixes m :: int
  assumes "0 \<le> x + int tz"
  shows "m * 10 ^ nat (x + int tz) * 10 ^ nat (- x) = m * 10 ^ tz * 10 ^ nat x"
proof -
  have "nat (x + int tz) + nat (- x) = tz + nat x" using assms by (cases "0 \<le> x") auto
  then show ?thesis by (metis mult.assoc power_add)
qed

lemma ParseFixedPoint_spec:
  assumes "ParseFixedPoint val decimals = Some a"
  shows "\<exists>neg ip fp e. number_text val neg ip fp e \<and> \<bar>a\<bar> \<le> UPPER_BOUND \<and>
    (let x = e + decimals - int (length fp)
     in a * 10 ^ nat (- x) = (if neg then - 1 else 1) * int (dec_val (ip @ fp)) * 10 ^ nat x)"
proof -
  define neg where "neg \<longleftrightarrow> val \<noteq> [] \<and> hd val = CHR ''-''"
  define val1 where "val1 = (if neg then tl val else val)"
  have val: "val = (if neg then ''-'' else []) @ val1" by (cases val) (auto simp: neg_def val1_def)
  have sgn: "(case val of [] \<Rightarrow> (False, val) | c # cs \<Rightarrow> if c = CHR ''-'' then (True, cs) else (False, val)) = (neg, val1)"
    by (cases val) (auto simp: neg_def val1_def)
  obtain val2 m2 tz2 val3 m tz n e where p: "fp_integer val1 = Some (val2, (m2, tz2))"
    "fp_fraction val2 (m2, tz2) = Some (val3, (m, tz), n)" "fp_exponent val3 = Some ([], e)"
    "0 \<le> e - int n + int tz + decimals"
    "fp_scale (nat (e - int n + int tz + decimals)) (if neg then - m else m) = Some a"
    using assms unfolding ParseFixedPoint_def sgn by (auto split: option.splits if_splits simp: Let_def)
  obtain ip where ip: "val1 = ip @ val2" "ip \<noteq> []" "\<forall>c \<in> set ip. IsDigit c" "ip = ''0'' \<or> hd ip \<noteq> CHR ''0''"
    "0 \<le> m2" "m2 \<le> UPPER_BOUND" "m2 * 10 ^ tz2 = int (dec_val ip)"
    by (rule fp_integer_spec [OF p(1)])
  obtain fp where fp: "val2 = (if fp = [] then [] else CHR ''.'' # fp) @ val3" "\<forall>c \<in> set fp. IsDigit c" "length fp = n"
    "0 \<le> m" "m \<le> UPPER_BOUND" "m * 10 ^ tz = int (dec_from (dec_val ip) fp)"
    by (rule fp_fraction_spec [OF p(2) ip(5-7)])
  have nt: "number_text val neg ip fp e"
    unfolding number_text_def using val ip fp fp_exponent_spec [OF p(3)] by (auto intro!: exI [of _ val3])
  define x where "x = e + decimals - int (length fp)"
  have x: "e - int n + int tz + decimals = x + int tz" by (simp add: x_def fp(3))
  have a: "a = (if neg then - m else m) * 10 ^ nat (x + int tz)" "\<bar>a\<bar> \<le> UPPER_BOUND"
    using fp_scale_spec [OF p(5)] unfolding x by blast+
  have "a * 10 ^ nat (- x) = (if neg then - m else m) * 10 ^ tz * 10 ^ nat x"
    unfolding a(1) using p(4) x by (intro scale_exponent) simp
  also have "\<dots> = (if neg then - 1 else 1) * (m * 10 ^ tz) * 10 ^ nat x" by simp
  also have "\<dots> = (if neg then - 1 else 1) * int (dec_val (ip @ fp)) * 10 ^ nat x"
    unfolding fp(6) by (simp add: dec_val_def)
  finally show ?thesis using nt a(2) unfolding x_def Let_def by blast
qed


subsection \<open>Integers and comparisons\<close>

lemma ToIntegral_iff:
  "ToIntegral T str = Some v \<longleftrightarrow>
     (\<exists>neg ds. str = (if neg then ''-'' else []) @ ds \<and> (neg \<longrightarrow> it_signed T) \<and> ds \<noteq> [] \<and> (\<forall>c \<in> set ds. IsDigit c) \<and>
        v = (if neg then - int (dec_val ds) else int (dec_val ds)) \<and> it_min T \<le> v \<and> v \<le> it_max T)"
  (is "_ \<longleftrightarrow> ?R")
proof
  define neg where "neg \<longleftrightarrow> it_signed T \<and> str \<noteq> [] \<and> hd str = CHR ''-''"
  define body where "body = (if neg then tl str else str)"
  assume "ToIntegral T str = Some v"
  then have "dropWhile IsDigit body = []" "takeWhile IsDigit body \<noteq> []"
    "v = (if neg then - int (dec_val (takeWhile IsDigit body)) else int (dec_val (takeWhile IsDigit body)))"
    "it_min T \<le> v" "v \<le> it_max T"
    unfolding ToIntegral_def from_chars_def neg_def [symmetric] Let_def body_def [symmetric]
    by (auto split: if_splits)
  moreover have "takeWhile IsDigit body = body" using calculation(1) by (simp add: dropWhile_eq_Nil_conv)
  moreover have "str = (if neg then ''-'' else []) @ body" by (cases str) (auto simp: body_def neg_def)
  moreover have "neg \<longrightarrow> it_signed T" by (simp add: neg_def)
  ultimately show ?R unfolding dropWhile_eq_Nil_conv by metis
next
  assume ?R
  then obtain neg ds where r: "str = (if neg then ''-'' else []) @ ds" "neg \<longrightarrow> it_signed T" "ds \<noteq> []"
    "\<forall>c \<in> set ds. IsDigit c" "v = (if neg then - int (dec_val ds) else int (dec_val ds))" "it_min T \<le> v" "v \<le> it_max T"
    by blast
  have d: "takeWhile IsDigit ds = ds" "dropWhile IsDigit ds = []" using r(4) by (simp_all add: dropWhile_eq_Nil_conv)
  have "IsDigit (hd ds)" using r(3,4) by (cases ds) auto
  then have n: "(it_signed T \<and> str \<noteq> [] \<and> hd str = CHR ''-'') = neg"
    using r(1,2,3) by (auto simp: IsDigit_def less_eq_char_def)
  have body: "(if neg then tl str else str) = ds" using r(1) by simp
  have "from_chars T str = ([], Inr v)"
    unfolding from_chars_def n Let_def body d using r(3,5,6,7) by auto
  then show "ToIntegral T str = Some v" by (simp add: ToIntegral_def)
qed

lemma foldl_or_zero:
  fixes f :: "nat \<Rightarrow> nat"
  shows "foldl (\<lambda>acc i. acc OR f i) z xs = 0 \<longleftrightarrow> z = 0 \<and> (\<forall>i \<in> set xs. f i = 0)"
proof (induction xs arbitrary: z)
  case (Cons i xs)
  have "z OR f i = 0 \<longleftrightarrow> z = 0 \<and> f i = 0" by (metis or_eq_0_iff)
  then show ?case using Cons.IH [of "z OR f i"] by auto
qed simp

lemma nat_xor_eq_0: "(a :: nat) XOR b = 0 \<longleftrightarrow> a = b"
proof
  assume e: "a XOR b = 0"
  show "a = b"
  proof (rule bit_eqI)
    fix n
    have "\<not> bit (a XOR b) n" unfolding e by simp
    then show "bit a n = bit b n" by (simp add: bit_xor_iff)
  qed
qed simp

lemma u8_xor_eq_0: "unat (a XOR b :: u8) = 0 \<longleftrightarrow> a = b"
  by (metis nat_xor_eq_0 unsigned_xor_eq word_unat_eq_iff)

lemma TimingResistantEqual_iff: "TimingResistantEqual a b \<longleftrightarrow> a = b"
proof (cases "length b = 0")
  case False
  have "TimingResistantEqual a b \<longleftrightarrow> length a = length b \<and> (\<forall>i < length a. a ! i = b ! (i mod length b))"
    using False by (auto simp: TimingResistantEqual_def foldl_or_zero nat_xor_eq_0 u8_xor_eq_0)
  then show ?thesis by (auto simp: list_eq_iff_nth_eq)
qed (auto simp: TimingResistantEqual_def)

subsection \<open>Correctness of the text encodings\<close>

text \<open>
  C28.  Decoding inverts encoding for hexadecimal, base 64 and padded base 32: every byte vector is recovered
  from its text, padding included.
\<close>

theorem text_encodings_round_trip:
  "TryParseHex (HexStr bs) = Some bs \<and> DecodeBase64 (EncodeBase64 bs) = Some bs \<and>
   DecodeBase32 (EncodeBase32 bs True) = Some bs"
  by (simp add: TryParseHex_HexStr DecodeBase64_EncodeBase64 DecodeBase32_EncodeBase32)

text \<open>
  When \<open>ParseFixedPoint\<close> accepts a text it is a number of the JSON grammar, and the result is its exact
  value scaled by \<open>10 ^ decimals\<close>, below \<open>10 ^ 18\<close> in magnitude: no digit is lost and nothing wraps around.
\<close>

theorem ParseFixedPoint_exact:
  assumes "ParseFixedPoint val decimals = Some a"
  shows "\<exists>neg ip fp e. number_text val neg ip fp e \<and> \<bar>a\<bar> < 10 ^ 18 \<and>
    (let x = e + decimals - int (length fp)
     in a * 10 ^ nat (- x) = (if neg then - 1 else 1) * int (dec_val (ip @ fp)) * 10 ^ nat x)"
proof -
  have "\<bar>a\<bar> \<le> UPPER_BOUND \<longleftrightarrow> \<bar>a\<bar> < 10 ^ 18" by (auto simp: UPPER_BOUND_def)
  then show ?thesis using ParseFixedPoint_spec [OF assms] by simp
qed

lemma ParseFixedPoint_example: "ParseFixedPoint ''-12.50e1'' 8 = Some (- 12500000000)"
  by (simp add: ParseFixedPoint_def fp_integer_def fp_fraction_def fp_exponent_def fp_exponent_sign_def IsDigit_def
      less_eq_char_def ProcessMantissaDigit_def digit_val_def UPPER_BOUND_def numeral_eq_Suc)

theorem ParseFixedPoint_exact_witness:
  "\<exists>neg ip fp e. number_text ''-12.50e1'' neg ip fp e \<and> \<bar>- 12500000000 :: int\<bar> < 10 ^ 18"
  using ParseFixedPoint_exact [OF ParseFixedPoint_example] by blast

text \<open>
  \<open>ToIntegral\<close> accepts exactly the texts \<^verbatim>\<open>-?[0-9]+\<close> (the sign only for a signed type) whose value lies in
  the range of the type, and returns that value.
\<close>

theorem ToIntegral_correct:
  "ToIntegral T str = Some v \<longleftrightarrow>
     (\<exists>neg ds. str = (if neg then ''-'' else []) @ ds \<and> (neg \<longrightarrow> it_signed T) \<and> ds \<noteq> [] \<and> (\<forall>c \<in> set ds. IsDigit c) \<and>
        v = (if neg then - int (dec_val ds) else int (dec_val ds)) \<and> it_min T \<le> v \<and> v \<le> it_max T)"
  by (rule ToIntegral_iff)

theorem ToIntegral_correct_witness: "ToIntegral uint8_t ''255'' = Some 255 \<and> ToIntegral uint8_t ''256'' = None"
proof -
  have d: "IsDigit (CHR ''2'')" "IsDigit (CHR ''5'')" "IsDigit (CHR ''6'')" by (simp_all add: IsDigit_def less_eq_char_def)
  have "ToIntegral uint8_t ''255'' = Some 255"
    unfolding ToIntegral_correct [of uint8_t "''255''" 255]
    by (intro exI [of _ False] exI [of _ "''255''"]) (simp add: d dec_val_def digit_val_def uint8_t_def)
  moreover have "ToIntegral uint8_t ''256'' = None"
    by (simp add: ToIntegral_def from_chars_def Let_def d dec_val_def digit_val_def uint8_t_def)
  ultimately show ?thesis by simp
qed

end
