(* ===== verification/Uint256_Hex.thy ===== *)
theory Uint256_Hex
  imports Arith_Uint256 Strencodings
begin

text \<open>
  \<^verbatim>\<open>src/src/uint256.{h,cpp}\<close>: opaque blobs and their hexadecimal text, which shows the bytes in reverse order.
\<close>

definition GetHex :: "bytes \<Rightarrow> string" where
  "GetHex m_data = HexStr (rev m_data)"

text \<open>The loop that fills the blob from the last digit on; the digits come in reverse order.\<close>

fun hex_fill :: "nat \<Rightarrow> string \<Rightarrow> bytes" where
  "hex_fill 0 ds = []"
| "hex_fill (Suc n) [] = 0 # hex_fill n []"
| "hex_fill (Suc n) [c] = word_of_int (HexDigit c) # hex_fill n []"
| "hex_fill (Suc n) (c # d # ds) = (word_of_int (HexDigit c) OR push_bit 4 (word_of_int (HexDigit d))) # hex_fill n ds"

definition SetHex :: "nat \<Rightarrow> string \<Rightarrow> bytes" where
  "SetHex blob_width psz =
     (let psz = dropWhile IsSpace psz;
          psz = (if length psz \<ge> 2 \<and> psz ! 0 = CHR ''0'' \<and> ToLower_char (psz ! 1) = CHR ''x'' then drop 2 psz else psz);
          digits = takeWhile (\<lambda>c. HexDigit c \<noteq> - 1) psz
      in hex_fill blob_width (rev digits))"

definition uint256S :: "string \<Rightarrow> uint256" where
  "uint256S str = SetHex 32 str"

subsection \<open>Round trip\<close>

lemma hexmap_not_x:
  assumes "d < 16"
  shows "ToLower_char (hexmap ! d) \<noteq> CHR ''x''"
proof -
  have m: "map ToLower_char hexmap = hexmap" by (simp add: hexmap_def ToLower_char_def less_eq_char_def)
  have l: "d < length hexmap" using assms by (simp add: hexmap_def)
  have "CHR ''x'' \<notin> set hexmap" by (simp add: hexmap_def)
  then have "hexmap ! d \<noteq> CHR ''x''" using nth_mem [OF l] by metis
  moreover have "ToLower_char (hexmap ! d) = hexmap ! d" using arg_cong [OF m, of "\<lambda>xs. xs ! d"] l by simp
  ultimately show ?thesis by simp
qed

lemma byte_to_hex_nibbles:
  "byte_to_hex b = [hexmap ! (unat b div 16), hexmap ! (unat b mod 16)]" "unat b div 16 < 16" "unat b mod 16 < 16"
  using unat_u8_less [of b] by (simp_all add: byte_to_hex_def less_mult_imp_div_less del: unat_u8_less)

lemma hex_fill_HexStr: "hex_fill (length bs) (rev (HexStr (rev bs))) = bs"
proof (induction bs)
  case (Cons b bs)
  have "rev (HexStr (rev (b # bs))) = hexmap ! (unat b mod 16) # hexmap ! (unat b div 16) # rev (HexStr (rev bs))"
    by (simp add: HexStr_def byte_to_hex_nibbles(1))
  moreover have "push_bit 4 (word_of_int (int (unat b div 16)) :: u8) = word_of_int (push_bit 4 (int (unat b div 16)))"
    by (simp add: push_bit_eq_mult)
  ultimately show ?case
    using Cons hex_nibbles [of b] byte_to_hex_nibbles(2,3) [of b]
    by (simp add: hexmap_nth or.commute)
qed (simp add: HexStr_def)

lemma SetHex_GetHex: "SetHex (length u) (GetHex u) = u"
proof -
  define s where "s = GetHex u"
  have all: "\<forall>c \<in> set s. \<exists>d < 16. c = hexmap ! d"
  proof
    fix c assume "c \<in> set s"
    then obtain b where "c \<in> set (byte_to_hex b)" by (auto simp: s_def GetHex_def HexStr_def)
    then have "c = hexmap ! (unat b div 16) \<or> c = hexmap ! (unat b mod 16)" by (simp add: byte_to_hex_nibbles(1))
    then show "\<exists>d < 16. c = hexmap ! d" using byte_to_hex_nibbles(2,3) [of b] by blast
  qed
  have d: "HexDigit c \<noteq> - 1 \<and> \<not> IsSpace c" if "c \<in> set s" for c
    using all that hexmap_nth by fastforce
  have h: "takeWhile (\<lambda>c. HexDigit c \<noteq> - 1) s = s" "dropWhile IsSpace s = s"
    using d by (simp_all add: takeWhile_eq_all_conv dropWhile_eq_self_iff)
  have "\<not> (length s \<ge> 2 \<and> ToLower_char (s ! 1) = CHR ''x'')"
    using all hexmap_not_x by (metis Suc_le_lessD nth_mem numeral_2_eq_2 One_nat_def)
  then have "SetHex (length u) s = hex_fill (length u) (rev s)" unfolding SetHex_def Let_def h(2) by (auto simp: h(1))
  then show ?thesis using hex_fill_HexStr [of u] by (simp add: s_def GetHex_def)
qed

end
