(* ===== verification/Consensus_Params.thy ===== *)
theory Consensus_Params
  imports Uint256_Hex
begin

text \<open>
  \<^verbatim>\<open>src/src/consensus/params.h\<close> and \<^verbatim>\<open>amount.h\<close>: the parameters of a chain, with the values of the main network from
  \<^verbatim>\<open>src/src/chainparams.cpp\<close>.  The quorum fields of \<^verbatim>\<open>Consensus::Params\<close> are not part of the record.
\<close>

type_synonym CAmount = int

definition COIN :: CAmount where
  "COIN = 100000000"

definition MAX_MONEY :: CAmount where
  "MAX_MONEY = 21000000 * COIN"

definition MoneyRange :: "CAmount \<Rightarrow> bool" where
  "MoneyRange nValue \<longleftrightarrow> nValue \<ge> 0 \<and> nValue \<le> MAX_MONEY"

datatype BuriedDeployment =
  DEPLOYMENT_HEIGHTINCB | DEPLOYMENT_DERSIG | DEPLOYMENT_CLTV | DEPLOYMENT_BIP147 | DEPLOYMENT_CSV
| DEPLOYMENT_DIP0001 | DEPLOYMENT_DIP0003 | DEPLOYMENT_DIP0008 | DEPLOYMENT_DIP0020 | DEPLOYMENT_DIP0024
| DEPLOYMENT_BRR | DEPLOYMENT_V19 | DEPLOYMENT_V20 | DEPLOYMENT_MN_RR | DEPLOYMENT_WITHDRAWALS

datatype DeploymentPos = DEPLOYMENT_TESTDUMMY | DEPLOYMENT_V24

definition NO_TIMEOUT :: int where
  "NO_TIMEOUT = 2 ^ 63 - 1"

definition ALWAYS_ACTIVE :: int where
  "ALWAYS_ACTIVE = - 1"

definition NEVER_ACTIVE :: int where
  "NEVER_ACTIVE = - 2"

record BIP9Deployment =
  dep_bit :: int
  nStartTime :: int
  nTimeout :: int
  min_activation_height :: int
  nWindowSize :: int
  nThresholdStart :: int
  nThresholdMin :: int
  nFalloffCoeff :: int
  useEHF :: bool

definition BIP9Deployment_default :: BIP9Deployment where
  "BIP9Deployment_default = \<lparr>dep_bit = 28, nStartTime = NEVER_ACTIVE, nTimeout = NEVER_ACTIVE, min_activation_height = 0,
     nWindowSize = 0, nThresholdStart = 0, nThresholdMin = 0, nFalloffCoeff = 0, useEHF = False\<rparr>"

record Params =
  nSubsidyHalvingInterval :: int
  nPremineHeight :: int
  nPremineReward :: CAmount
  nMasternodePaymentsStartBlock :: int
  nMasternodePaymentsIncreaseBlock :: int
  nMasternodePaymentsIncreasePeriod :: int
  nInstantSendConfirmationsRequired :: int
  nInstantSendKeepLock :: int
  nBudgetPaymentsStartBlock :: int
  nBudgetPaymentsCycleBlocks :: int
  nBudgetPaymentsWindowBlocks :: int
  nSuperblockStartBlock :: int
  nSuperblockStartHash :: uint256
  nSuperblockCycle :: int
  nSuperblockMaturityWindow :: int
  nGovernanceMinQuorum :: int
  nGovernanceFilterElements :: int
  nMasternodeMinimumConfirmations :: int
  BIP34Height :: int
  BIP34Hash :: uint256
  BIP65Height :: int
  BIP66Height :: int
  BIP147Height :: int
  CSVHeight :: int
  DIP0001Height :: int
  DIP0003Height :: int
  DIP0003EnforcementHeight :: int
  DIP0003EnforcementHash :: uint256
  DIP0008Height :: int
  BRRHeight :: int
  DIP0020Height :: int
  DIP0024Height :: int
  DIP0024QuorumsHeight :: int
  V19Height :: int
  V20Height :: int
  MN_RRHeight :: int
  WithdrawalsHeight :: int
  MinBIP9WarningHeight :: int
  nRuleChangeActivationThreshold :: u32
  nMinerConfirmationWindow :: u32
  vDeployments :: "DeploymentPos \<Rightarrow> BIP9Deployment"
  powLimit :: uint256
  fPowAllowMinDifficultyBlocks :: bool
  fPowNoRetargeting :: bool
  nPowTargetSpacing :: int
  nPowTargetTimespan :: int
  nPowKGWHeight :: int
  nPowDGWHeight :: int
  nMinimumChainWork :: uint256
  defaultAssumeValid :: uint256
  nMinimumDifficultyBlocks :: int
  nHighSubsidyBlocks :: int
  nHighSubsidyFactor :: int

definition DifficultyAdjustmentInterval :: "Params \<Rightarrow> int" where
  "DifficultyAdjustmentInterval params = cdiv (nPowTargetTimespan params) (nPowTargetSpacing params)"

fun DeploymentHeight :: "Params \<Rightarrow> BuriedDeployment \<Rightarrow> int" where
  "DeploymentHeight p DEPLOYMENT_HEIGHTINCB = BIP34Height p"
| "DeploymentHeight p DEPLOYMENT_DERSIG = BIP66Height p"
| "DeploymentHeight p DEPLOYMENT_CLTV = BIP65Height p"
| "DeploymentHeight p DEPLOYMENT_BIP147 = BIP147Height p"
| "DeploymentHeight p DEPLOYMENT_CSV = CSVHeight p"
| "DeploymentHeight p DEPLOYMENT_DIP0001 = DIP0001Height p"
| "DeploymentHeight p DEPLOYMENT_DIP0003 = DIP0003Height p"
| "DeploymentHeight p DEPLOYMENT_DIP0008 = DIP0008Height p"
| "DeploymentHeight p DEPLOYMENT_DIP0020 = DIP0020Height p"
| "DeploymentHeight p DEPLOYMENT_DIP0024 = DIP0024Height p"
| "DeploymentHeight p DEPLOYMENT_BRR = BRRHeight p"
| "DeploymentHeight p DEPLOYMENT_V19 = V19Height p"
| "DeploymentHeight p DEPLOYMENT_V20 = V20Height p"
| "DeploymentHeight p DEPLOYMENT_MN_RR = MN_RRHeight p"
| "DeploymentHeight p DEPLOYMENT_WITHDRAWALS = WithdrawalsHeight p"

definition main_deployments :: "DeploymentPos \<Rightarrow> BIP9Deployment" where
  "main_deployments d = (case d of
     DEPLOYMENT_TESTDUMMY \<Rightarrow> BIP9Deployment_default\<lparr>dep_bit := 28, nStartTime := NEVER_ACTIVE, nTimeout := NO_TIMEOUT,
       min_activation_height := 0\<rparr>
   | DEPLOYMENT_V24 \<Rightarrow> BIP9Deployment_default\<lparr>dep_bit := 12, nStartTime := NEVER_ACTIVE, nTimeout := NO_TIMEOUT,
       nWindowSize := 4032, nThresholdStart := 3226, nThresholdMin := 2420, nFalloffCoeff := 5, useEHF := True\<rparr>)"

definition CMainParams :: Params where
  "CMainParams = \<lparr>
     nSubsidyHalvingInterval = 840000, nPremineHeight = 1, nPremineReward = 50000 * COIN,
     nMasternodePaymentsStartBlock = 100000, nMasternodePaymentsIncreaseBlock = 158000,
     nMasternodePaymentsIncreasePeriod = 576 * 30, nInstantSendConfirmationsRequired = 6, nInstantSendKeepLock = 24,
     nBudgetPaymentsStartBlock = 328008, nBudgetPaymentsCycleBlocks = 16616, nBudgetPaymentsWindowBlocks = 100,
     nSuperblockStartBlock = 614820,
     nSuperblockStartHash = uint256S ''0000000000020cb27c7ef164d21003d5d20cdca2f54dd9a9ca6d45f4d47f8aa3'',
     nSuperblockCycle = 16616, nSuperblockMaturityWindow = 1662, nGovernanceMinQuorum = 10,
     nGovernanceFilterElements = 20000, nMasternodeMinimumConfirmations = 15, BIP34Height = 951,
     BIP34Hash = uint256S ''0x000001f35e70f7c5705f64c6c5cc3dea9449e74d5b5c7cf74dad1bcca14a8012'',
     BIP65Height = 619382, BIP66Height = 245817, BIP147Height = 939456, CSVHeight = 622944, DIP0001Height = 782208,
     DIP0003Height = 1028160, DIP0003EnforcementHeight = 1047200,
     DIP0003EnforcementHash = uint256S ''000000000000002d1734087b4c5afc3133e4e1c3e1a89218f62bcd9bb3d17f81'',
     DIP0008Height = 1088640, BRRHeight = 1374912, DIP0020Height = 1516032, DIP0024Height = 1737792,
     DIP0024QuorumsHeight = 1738698, V19Height = 1899072, V20Height = 1987776, MN_RRHeight = 2128896,
     WithdrawalsHeight = 2201472, MinBIP9WarningHeight = 2201472 + 2016, nRuleChangeActivationThreshold = 1815,
     nMinerConfirmationWindow = 2016, vDeployments = main_deployments,
     powLimit = uint256S ''00000fffffffffffffffffffffffffffffffffffffffffffffffffffffffffff'',
     fPowAllowMinDifficultyBlocks = False, fPowNoRetargeting = False, nPowTargetSpacing = 60,
     nPowTargetTimespan = 24 * 60 * 60, nPowKGWHeight = 15200, nPowDGWHeight = 34140,
     nMinimumChainWork = uint256S ''0x0'', defaultAssumeValid = uint256S ''0x0'', nMinimumDifficultyBlocks = 0,
     nHighSubsidyBlocks = 0, nHighSubsidyFactor = 1\<rparr>"

lemma powLimit_main:
  "uint256S ''00000fffffffffffffffffffffffffffffffffffffffffffffffffffffffffff'' = replicate 29 0xff @ [0x0f, 0, 0]"
  by (simp add: uint256S_def SetHex_def HexDigit_def p_util_hexdigit_def IsSpace_def ToLower_char_def numeral_eq_Suc
      less_eq_char_def)

end
