(* ===== verification/Pow.thy ===== *)
theory Pow
  imports Chain_Index Consensus_Params
begin

text \<open>
  \<^verbatim>\<open>src/src/pow.cpp\<close>: the next required target and the proof-of-work check.  A failing assertion or pointer and a
  division error of the 256-bit arithmetic are kept apart as \<open>pow_error\<close>.  \<open>KimotoGravityWell\<close> compares ratios of
  binary floating-point numbers obtained with the C library's \<^verbatim>\<open>pow\<close>; that test is the parameter \<open>event_horizon\<close>.
\<close>

record CBlockHeader =
  hdr_nVersion :: int
  hdr_hashPrevBlock :: uint256
  hdr_hashMerkleRoot :: uint256
  hdr_nTime :: u32
  hdr_nBits :: u32
  hdr_nNonce :: u32

definition header_GetBlockTime :: "CBlockHeader \<Rightarrow> int" where
  "header_GetBlockTime block = uint (hdr_nTime block)"

datatype pow_error = Fault fault | Arith uint_error

definition compact_result :: "base_uint \<Rightarrow> pow_error + u32" where
  "compact_result bn = (case GetCompact bn False of None \<Rightarrow> Inl (Fault AssertFailed) | Some w \<Rightarrow> Inr w)"

text \<open>
  \<^verbatim>\<open>bnNew *= nActualTimespan\<close> selects the 32-bit multiplication and \<^verbatim>\<open>bnNew /= nTargetTimespan\<close> the
  conversion from a 64-bit integer.
\<close>

definition scale_target :: "base_uint \<Rightarrow> int \<Rightarrow> int \<Rightarrow> pow_error + base_uint" where
  "scale_target bnNew nActualTimespan nTargetTimespan =
     (case base_uint_div (base_uint_mul32 bnNew (word_of_int nActualTimespan)) (base_uint_of_u64 (word_of_int nTargetTimespan)) of
        Inl e \<Rightarrow> Inl (Arith e) | Inr q \<Rightarrow> Inr q)"

definition cap_target :: "base_uint \<Rightarrow> base_uint \<Rightarrow> base_uint" where
  "cap_target bnNew bnPowLimit = (if CompareTo bnNew bnPowLimit > 0 then bnPowLimit else bnNew)"

definition clamp_timespan :: "int \<Rightarrow> int \<Rightarrow> int \<Rightarrow> int" where
  "clamp_timespan lo hi nActualTimespan =
     (let t = (if nActualTimespan < lo then lo else nActualTimespan) in if t > hi then hi else t)"

definition CalculateNextWorkRequired :: "CBlockIndex \<Rightarrow> int \<Rightarrow> Params \<Rightarrow> pow_error + u32" where
  "CalculateNextWorkRequired pindexLast nFirstBlockTime params =
     (if fPowNoRetargeting params then Inr (nBits pindexLast)
      else let span = nPowTargetTimespan params;
               nActualTimespan = clamp_timespan (cdiv span 4) (span * 4) (GetBlockTime pindexLast - nFirstBlockTime);
               bnPowLimit = UintToArith256 (powLimit params);
               bnNew = fst (SetCompact (nBits pindexLast))
           in case scale_target bnNew nActualTimespan span of Inl e \<Rightarrow> Inl e
              | Inr bn \<Rightarrow> compact_result (cap_target bn bnPowLimit))"

text \<open>The loop back to the last block without the minimum difficulty; one unit of fuel per height.\<close>

fun last_real_target :: "nat \<Rightarrow> block_store \<Rightarrow> int \<Rightarrow> u32 \<Rightarrow> block_ptr \<Rightarrow> pow_error + u32" where
  "last_real_target n st interval limit p =
     (case st p of None \<Rightarrow> Inl (Fault BadPointer)
      | Some b \<Rightarrow>
        (case pprev b of None \<Rightarrow> Inr (nBits b)
         | Some q \<Rightarrow>
           if cmod (int (nHeight b)) interval \<noteq> 0 \<and> nBits b = limit
           then (case n of 0 \<Rightarrow> Inl (Fault OutOfFuel) | Suc m \<Rightarrow> last_real_target m st interval limit q)
           else Inr (nBits b)))"

declare last_real_target.simps [simp del]

definition GetNextWorkRequiredBTC :: "block_store \<Rightarrow> block_ptr option \<Rightarrow> CBlockHeader \<Rightarrow> Params \<Rightarrow> pow_error + u32" where
  "GetNextWorkRequiredBTC st pindexLast pblock params =
     (case pindexLast of None \<Rightarrow> Inl (Fault AssertFailed)
      | Some p \<Rightarrow>
        (case st p of None \<Rightarrow> Inl (Fault BadPointer)
         | Some b \<Rightarrow>
           (case compact_result (UintToArith256 (powLimit params)) of Inl e \<Rightarrow> Inl e
            | Inr nProofOfWorkLimit \<Rightarrow>
              let interval = DifficultyAdjustmentInterval params in
              if cmod (int (nHeight b) + 1) interval \<noteq> 0 then
                if fPowAllowMinDifficultyBlocks params then
                  if header_GetBlockTime pblock > GetBlockTime b + nPowTargetSpacing params * 2 then Inr nProofOfWorkLimit
                  else last_real_target (nHeight b) st interval nProofOfWorkLimit p
                else Inr (nBits b)
              else let nHeightFirst = int (nHeight b) - (interval - 1) in
                if nHeightFirst < 0 then Inl (Fault AssertFailed)
                else (case GetAncestor st p nHeightFirst of Inl e \<Rightarrow> Inl (Fault e)
                      | Inr None \<Rightarrow> Inl (Fault AssertFailed)
                      | Inr (Some q) \<Rightarrow>
                        (case st q of None \<Rightarrow> Inl (Fault BadPointer)
                         | Some f \<Rightarrow> CalculateNextWorkRequired b (GetBlockTime f) params)))))"

subsection \<open>Kimoto's gravity well\<close>

text \<open>
  The state of the loop: the running average, the actual and the target seconds.  \<open>i\<close> and \<open>PastBlocksMass\<close> advance
  together; the walk goes down one height at each step, so the height is enough fuel.
\<close>

definition kgw_average :: "nat \<Rightarrow> base_uint \<Rightarrow> base_uint \<Rightarrow> pow_error + base_uint" where
  "kgw_average i bn prev =
     (if i > 1 then
        if CompareTo bn prev \<ge> 0
        then (case base_uint_div (base_uint_sub bn prev) (base_uint_of_u64 (word_of_nat i)) of
                Inl e \<Rightarrow> Inl (Arith e) | Inr q \<Rightarrow> Inr (base_uint_add q prev))
        else (case base_uint_div (base_uint_sub prev bn) (base_uint_of_u64 (word_of_nat i)) of
                Inl e \<Rightarrow> Inl (Arith e) | Inr q \<Rightarrow> Inr (base_uint_sub prev q))
      else Inr bn)"

fun kgw_loop ::
    "(nat \<Rightarrow> int \<Rightarrow> int \<Rightarrow> bool) \<Rightarrow> nat \<Rightarrow> block_store \<Rightarrow> Params \<Rightarrow> int \<Rightarrow> nat \<Rightarrow> nat \<Rightarrow> nat \<Rightarrow> block_ptr \<Rightarrow>
     base_uint \<times> int \<times> int \<Rightarrow> pow_error + base_uint \<times> int \<times> int" where
  "kgw_loop event_horizon n st params lastTime PastBlocksMin PastBlocksMax i p (prev, act, tgt) =
     (case st p of None \<Rightarrow> Inl (Fault BadPointer)
      | Some b \<Rightarrow>
        if \<not> nHeight b > 0 then Inr (prev, act, tgt)
        else if PastBlocksMax > 0 \<and> i > PastBlocksMax then Inr (prev, act, tgt)
        else (case kgw_average i (fst (SetCompact (nBits b))) prev of Inl e \<Rightarrow> Inl e
              | Inr avg \<Rightarrow>
                let act' = max 0 (lastTime - GetBlockTime b);
                    tgt' = nPowTargetSpacing params * int i
                in if i \<ge> PastBlocksMin \<and> event_horizon i act' tgt' then Inr (avg, act', tgt')
                   else (case pprev b of None \<Rightarrow> Inr (avg, act', tgt')
                         | Some q \<Rightarrow>
                           (case n of 0 \<Rightarrow> Inl (Fault OutOfFuel)
                            | Suc m \<Rightarrow> kgw_loop event_horizon m st params lastTime PastBlocksMin PastBlocksMax (i + 1) q
                                        (avg, act', tgt')))))"

declare kgw_loop.simps [simp del]

text \<open>
  The double nearest to 0.025 exceeds \<open>1 / 40\<close> by less than \<open>2 ^ -58\<close>, so for the time spans in use the
  truncated product is the quotient by 40.
\<close>

definition KimotoGravityWell ::
    "(nat \<Rightarrow> int \<Rightarrow> int \<Rightarrow> bool) \<Rightarrow> block_store \<Rightarrow> block_ptr option \<Rightarrow> Params \<Rightarrow> pow_error + u32" where
  "KimotoGravityWell event_horizon st pindexLast params =
     (let pastSecondsMin = nPowTargetTimespan params div 40;
          pastSecondsMax = nPowTargetTimespan params * 7;
          PastBlocksMin = nat (pastSecondsMin div nPowTargetSpacing params);
          PastBlocksMax = nat (pastSecondsMax div nPowTargetSpacing params);
          bnPowLimit = UintToArith256 (powLimit params)
      in case pindexLast of None \<Rightarrow> compact_result bnPowLimit
         | Some p \<Rightarrow>
           (case st p of None \<Rightarrow> Inl (Fault BadPointer)
            | Some b \<Rightarrow>
              if nHeight b = 0 \<or> nHeight b < PastBlocksMin then compact_result bnPowLimit
              else (case kgw_loop event_horizon (nHeight b) st params (GetBlockTime b) PastBlocksMin PastBlocksMax 1 p
                           (base_uint_default, 0, 0) of
                      Inl e \<Rightarrow> Inl e
                    | Inr (avg, act, tgt) \<Rightarrow>
                      (case (if act \<noteq> 0 \<and> tgt \<noteq> 0 then scale_target avg act tgt else Inr avg) of
                         Inl e \<Rightarrow> Inl e
                       | Inr bnNew \<Rightarrow> compact_result (cap_target bnNew bnPowLimit)))))"

subsection \<open>Dark gravity wave\<close>

definition nPastBlocks :: nat where
  "nPastBlocks = 24"

definition dgw_average :: "nat \<Rightarrow> base_uint \<Rightarrow> base_uint \<Rightarrow> uint_error + base_uint" where
  "dgw_average nCountBlocks avg bnTarget =
     (if nCountBlocks = 1 then Inr bnTarget
      else base_uint_div (base_uint_add (base_uint_mul32 avg (word_of_nat nCountBlocks)) bnTarget)
             (base_uint_of_u64 (word_of_nat (nCountBlocks + 1))))"

text \<open>The loop with \<open>r\<close> iterations left after the current one.\<close>

fun dgw_loop :: "nat \<Rightarrow> nat \<Rightarrow> block_store \<Rightarrow> block_ptr \<Rightarrow> base_uint \<Rightarrow> pow_error + base_uint \<times> block_ptr" where
  "dgw_loop r nCountBlocks st p avg =
     (case st p of None \<Rightarrow> Inl (Fault BadPointer)
      | Some b \<Rightarrow>
        (case dgw_average nCountBlocks avg (fst (SetCompact (nBits b))) of
           Inl e \<Rightarrow> Inl (Arith e)
         | Inr avg' \<Rightarrow>
           (case r of 0 \<Rightarrow> Inr (avg', p)
            | Suc r' \<Rightarrow> (case pprev b of None \<Rightarrow> Inl (Fault AssertFailed)
                         | Some q \<Rightarrow> dgw_loop r' (nCountBlocks + 1) st q avg'))))"

declare dgw_loop.simps [simp del]

definition DarkGravityWave :: "block_store \<Rightarrow> block_ptr option \<Rightarrow> Params \<Rightarrow> pow_error + u32" where
  "DarkGravityWave st pindexLast params =
     (let bnPowLimit = UintToArith256 (powLimit params) in
      case pindexLast of None \<Rightarrow> compact_result bnPowLimit
      | Some p \<Rightarrow>
        (case st p of None \<Rightarrow> Inl (Fault BadPointer)
         | Some b \<Rightarrow>
           if nHeight b < nPastBlocks then compact_result bnPowLimit
           else (case dgw_loop (nPastBlocks - 1) 1 st p base_uint_default of Inl e \<Rightarrow> Inl e
                 | Inr (avg, q) \<Rightarrow>
                   (case st q of None \<Rightarrow> Inl (Fault BadPointer)
                    | Some f \<Rightarrow>
                      let nTargetTimespan = int nPastBlocks * nPowTargetSpacing params;
                          nActualTimespan = clamp_timespan (cdiv nTargetTimespan 3) (nTargetTimespan * 3)
                                              (GetBlockTime b - GetBlockTime f)
                      in case scale_target avg nActualTimespan nTargetTimespan of Inl e \<Rightarrow> Inl e
                         | Inr bnNew \<Rightarrow> compact_result (cap_target bnNew bnPowLimit)))))"

definition GetNextWorkRequired ::
    "(nat \<Rightarrow> int \<Rightarrow> int \<Rightarrow> bool) \<Rightarrow> block_store \<Rightarrow> block_ptr option \<Rightarrow> CBlockHeader \<Rightarrow> Params \<Rightarrow> pow_error + u32" where
  "GetNextWorkRequired event_horizon st pindexLast pblock params =
     (case pindexLast of None \<Rightarrow> Inl (Fault AssertFailed)
      | Some p \<Rightarrow>
        (case st p of None \<Rightarrow> Inl (Fault BadPointer)
         | Some b \<Rightarrow>
           let bnPowLimit = UintToArith256 (powLimit params) in
           if int (nHeight b) < nMinimumDifficultyBlocks params then compact_result bnPowLimit
           else if int (nHeight b) + 1 < nPowKGWHeight params then GetNextWorkRequiredBTC st pindexLast pblock params
           else if fPowNoRetargeting params then compact_result bnPowLimit
           else if fPowAllowMinDifficultyBlocks params \<and> header_GetBlockTime pblock > GetBlockTime b + 2 * 60 * 60
           then compact_result bnPowLimit
           else if fPowAllowMinDifficultyBlocks params \<and>
                   header_GetBlockTime pblock > GetBlockTime b + nPowTargetSpacing params * 4
           then compact_result (cap_target (base_uint_mul32 (fst (SetCompact (nBits b))) 10) bnPowLimit)
           else if int (nHeight b) + 1 < nPowDGWHeight params then KimotoGravityWell event_horizon st pindexLast params
           else DarkGravityWave st pindexLast params))"

definition CheckProofOfWork :: "uint256 \<Rightarrow> u32 \<Rightarrow> Params \<Rightarrow> bool" where
  "CheckProofOfWork hash bits params =
     (let (bnTarget, fNegative, fOverflow) = SetCompact bits in
      if fNegative \<or> EqualTo bnTarget 0 \<or> fOverflow \<or> CompareTo bnTarget (UintToArith256 (powLimit params)) > 0 then False
      else if CompareTo (UintToArith256 hash) bnTarget > 0 then False
      else True)"

subsection \<open>Targets\<close>

text \<open>\<open>w\<close> is a non-negative compact number that encodes \<open>v\<close> rounded down to its precision.\<close>

definition rounds_to :: "nat \<Rightarrow> u32 \<Rightarrow> bool" where
  "rounds_to v w \<longleftrightarrow> \<not> bit w 23 \<and> compact_value w \<le> v \<and> v < compact_value w + 2 ^ (8 * (compact_size w - 3))"

text \<open>Not negative and at most the limit, so in particular no overflow; zero is included.\<close>

definition target_ok :: "Params \<Rightarrow> u32 \<Rightarrow> bool" where
  "target_ok params w \<longleftrightarrow> \<not> bit w 23 \<and> compact_value w \<le> le_val (powLimit params)"

definition targets_ok :: "Params \<Rightarrow> block_store \<Rightarrow> bool" where
  "targets_ok params st \<longleftrightarrow> (\<forall>p b. st p = Some b \<longrightarrow> target_ok params (nBits b))"

definition params_ok :: "Params \<Rightarrow> bool" where
  "params_ok params \<longleftrightarrow> length (powLimit params) = 32 \<and> 0 < nPowTargetSpacing params \<and>
     nPowTargetSpacing params \<le> nPowTargetTimespan params \<and> nPowTargetTimespan params < 2 ^ 30"

lemma params_okD:
  assumes "params_ok params"
  shows "length (powLimit params) = 32" "0 < nPowTargetSpacing params" "0 < nPowTargetTimespan params"
    "nPowTargetTimespan params < 2 ^ 30" "nPowTargetSpacing params < 2 ^ 30" "1 \<le> DifficultyAdjustmentInterval params"
    "length (UintToArith256 (powLimit params)) = WIDTH" "limbs_val (UintToArith256 (powLimit params)) = le_val (powLimit params)"
    "le_val (powLimit params) < 2 ^ 256"
proof -
  show l: "length (powLimit params) = 32" and s: "0 < nPowTargetSpacing params" and t: "nPowTargetTimespan params < 2 ^ 30"
    using assms by (simp_all add: params_ok_def)
  show "0 < nPowTargetTimespan params" "nPowTargetSpacing params < 2 ^ 30" using assms by (simp_all add: params_ok_def)
  have "1 \<le> nPowTargetTimespan params div nPowTargetSpacing params"
    using assms by (simp add: params_ok_def zdiv_mono1 pos_imp_zdiv_pos_iff int_one_le_iff_zero_less)
  then show "1 \<le> DifficultyAdjustmentInterval params"
    using assms s by (simp add: DifficultyAdjustmentInterval_def params_ok_def)
  show "length (UintToArith256 (powLimit params)) = WIDTH" by (simp add: UintToArith256_def)
  show "limbs_val (UintToArith256 (powLimit params)) = le_val (powLimit params)" using l by (rule limbs_val_UintToArith256)
  show "le_val (powLimit params) < 2 ^ 256" using le_val_less [of "powLimit params"] l by simp
qed

lemma SetCompact_value:
  assumes "compact_value w < 2 ^ 256"
  shows "length (fst (SetCompact w)) = WIDTH" "limbs_val (fst (SetCompact w)) = compact_value w"
proof -
  obtain num where "SetCompact w = (num, compact_mantissa w \<noteq> 0 \<and> bit w 23, 2 ^ 256 \<le> compact_value w)"
    "length num = 8" "limbs_val num = compact_value w mod 2 ^ 256" by (rule SetCompact_eq)
  then show "length (fst (SetCompact w)) = WIDTH" "limbs_val (fst (SetCompact w)) = compact_value w"
    using assms by (simp_all add: WIDTH_def)
qed

lemma SetCompact_length: "length (fst (SetCompact w)) = WIDTH"
  by (rule SetCompact_eq [of w]) (simp add: WIDTH_def)

lemma compact_result_rounds:
  assumes "length bn = WIDTH"
  obtains w where "compact_result bn = Inr w" "rounds_to (limbs_val bn) w"
proof -
  have l: "length bn = 8" using assms by (simp add: WIDTH_def)
  obtain w num where w: "GetCompact bn False = Some w" "SetCompact w = (num, False, False)"
    "limbs_val num \<le> limbs_val bn" "limbs_val bn - limbs_val num < 2 ^ (8 * (compact_size w - 3))"
    using SetCompact_GetCompact [OF l] by metis
  obtain num' where n: "SetCompact w = (num', compact_mantissa w \<noteq> 0 \<and> bit w 23, 2 ^ 256 \<le> compact_value w)"
    "limbs_val num' = compact_value w mod 2 ^ 256" by (rule SetCompact_eq)
  then have num: "limbs_val num = compact_value w" using w(2) by simp
  obtain m s where ms: "compact_norm (limbs_val bn) = (m, s)" by force
  obtain w' where "GetCompact bn False = Some w'" "\<not> bit w' 23" using GetCompact_eq [OF l ms, of False] by metis
  then have "\<not> bit w 23" using w(1) by simp
  then show thesis using that [of w] w num by (simp add: compact_result_def rounds_to_def)
qed

lemma cap_target_val:
  assumes "length bn = WIDTH" "length lim = WIDTH"
  shows "length (cap_target bn lim) = WIDTH" "limbs_val (cap_target bn lim) = min (limbs_val bn) (limbs_val lim)"
  using u256.cap_val [OF assms] by (simp_all add: cap_target_def)

text \<open>Whatever the candidate target, the capped and encoded result is acceptable.\<close>

lemma capped_result_ok:
  assumes "params_ok params" "length bn = WIDTH"
  obtains w where "compact_result (cap_target bn (UintToArith256 (powLimit params))) = Inr w" "target_ok params w"
    "rounds_to (min (limbs_val bn) (le_val (powLimit params))) w"
proof -
  note p = params_okD [OF assms(1)]
  note c = cap_target_val [OF assms(2) p(7)]
  obtain w where w: "compact_result (cap_target bn (UintToArith256 (powLimit params))) = Inr w"
    "rounds_to (limbs_val (cap_target bn (UintToArith256 (powLimit params)))) w"
    using compact_result_rounds [OF c(1)] by metis
  have r: "rounds_to (min (limbs_val bn) (le_val (powLimit params))) w" using w(2) unfolding c(2) p(8) .
  then have "target_ok params w" by (auto simp: target_ok_def rounds_to_def)
  then show thesis using that w(1) r by blast
qed

lemma limit_result_ok:
  assumes "params_ok params"
  obtains w where "compact_result (UintToArith256 (powLimit params)) = Inr w" "target_ok params w"
proof -
  note p = params_okD [OF assms]
  obtain w where "compact_result (UintToArith256 (powLimit params)) = Inr w"
    "rounds_to (le_val (powLimit params)) w" using compact_result_rounds [OF p(7)] unfolding p(8) by metis
  then show thesis using that [of w] by (auto simp: target_ok_def rounds_to_def)
qed

lemma unat_word_of_int: "0 \<le> t \<Longrightarrow> t < 2 ^ LENGTH('a::len) \<Longrightarrow> unat (word_of_int t :: 'a word) = nat t"
  by (simp add: unsigned_of_int take_bit_int_eq_self)

lemma word_of_int_u64_nz:
  assumes "0 < t" "t < 2 ^ 64"
  shows "(word_of_int t :: u64) \<noteq> 0"
proof
  assume "(word_of_int t :: u64) = 0"
  then have "unat (word_of_int t :: u64) = 0" by simp
  then show False using unat_word_of_int [where 'a = 64, of t] assms by simp
qed

lemma scale_target_total:
  assumes "length bn = WIDTH" "0 < tgt" "tgt < 2 ^ 64"
  obtains q where "scale_target bn act tgt = Inr q" "length q = WIDTH"
proof -
  obtain q where "base_uint_div (base_uint_mul32 bn (word_of_int act)) (base_uint_of_u64 (word_of_int tgt)) = Inr q"
    "length q = WIDTH" using u256.rescale_total [OF assms(1) word_of_int_u64_nz [OF assms(2,3)]] by metis
  then show thesis using that by (simp add: scale_target_def)
qed

lemma scale_target_val:
  assumes "length bn = WIDTH" "0 < tgt" "tgt < 2 ^ 64" "0 \<le> act" "act < 2 ^ 32" "limbs_val bn * nat act < 2 ^ 256"
  obtains q where "scale_target bn act tgt = Inr q" "length q = WIDTH" "limbs_val q = limbs_val bn * nat act div nat tgt"
proof -
  have a: "unat (word_of_int act :: u32) = nat act" using assms(4,5) by (intro unat_word_of_int) simp_all
  have t: "unat (word_of_int tgt :: u64) = nat tgt" using assms(2,3) by (intro unat_word_of_int) simp_all
  have "limbs_val bn * unat (word_of_int act :: u32) < 2 ^ 256" using assms(6) by (simp only: a)
  then obtain q where "base_uint_div (base_uint_mul32 bn (word_of_int act)) (base_uint_of_u64 (word_of_int tgt)) = Inr q"
    "length q = WIDTH" "limbs_val q = limbs_val bn * nat act div nat tgt"
    using u256.rescale_val [OF assms(1) word_of_int_u64_nz [OF assms(2,3)], of "word_of_int act"] unfolding a t by metis
  then show thesis using that by (simp add: scale_target_def)
qed

subsection \<open>The three rules\<close>

lemma clamp_timespan_bounds:
  assumes "lo \<le> hi"
  shows "lo \<le> clamp_timespan lo hi t" "clamp_timespan lo hi t \<le> hi"
  using assms by (simp_all add: clamp_timespan_def Let_def)

lemma CalculateNextWorkRequired_ok:
  assumes "params_ok params" "target_ok params (nBits b)"
  obtains w where "CalculateNextWorkRequired b t params = Inr w" "target_ok params w"
proof (cases "fPowNoRetargeting params")
  case True
  then show thesis using that assms by (simp add: CalculateNextWorkRequired_def)
next
  case False
  note p = params_okD [OF assms(1)]
  let ?act = "clamp_timespan (cdiv (nPowTargetTimespan params) 4) (nPowTargetTimespan params * 4) (GetBlockTime b - t)"
  obtain q where q: "scale_target (fst (SetCompact (nBits b))) ?act (nPowTargetTimespan params) = Inr q" "length q = WIDTH"
    using scale_target_total [OF SetCompact_length, of "nPowTargetTimespan params" "nBits b" ?act] p(3,4) by auto
  obtain w where "compact_result (cap_target q (UintToArith256 (powLimit params))) = Inr w" "target_ok params w"
    using capped_result_ok [OF assms(1) q(2)] by metis
  then show thesis using that q(1) False by (simp add: CalculateNextWorkRequired_def Let_def)
qed

lemma last_real_target_ok:
  assumes "links_ok st" "targets_ok params st"
  shows "st p = Some b \<Longrightarrow> nHeight b \<le> n \<Longrightarrow> \<exists>w. last_real_target n st interval limit p = Inr w \<and> target_ok params w"
proof (induction n arbitrary: p b)
  case 0
  have "pprev b = None" using assms(1) 0(1) by (rule links_okE) (use 0(2) in auto)
  then show ?case using 0(1) assms(2) by (auto simp: last_real_target.simps [of 0] targets_ok_def)
next
  case (Suc n)
  show ?case
    using assms(1) Suc.prems(1)
  proof (rule links_okE)
    assume "pprev b = None"
    then show ?thesis using assms(2) Suc.prems(1) by (auto simp: last_real_target.simps [of "Suc n"] targets_ok_def)
  next
    fix q c assume q: "pprev b = Some q" "st q = Some c" "nHeight b = Suc (nHeight c)"
    then have "\<exists>w. last_real_target n st interval limit q = Inr w \<and> target_ok params w"
      using Suc.IH [of q c] Suc.prems(2) by simp
    then show ?thesis using q assms(2) Suc.prems(1) by (auto simp: last_real_target.simps [of "Suc n"] targets_ok_def)
  qed
qed

lemma GetNextWorkRequiredBTC_ok:
  assumes wf: "wf_tree st" and ok: "params_ok params" "targets_ok params st" and b: "st p = Some b"
  obtains w where "GetNextWorkRequiredBTC st (Some p) hdr params = Inr w" "target_ok params w"
proof -
  note p = params_okD [OF ok(1)]
  have lk: "links_ok st" using wf by (simp add: wf_tree_def)
  have tb: "target_ok params (nBits b)" using ok(2) b by (simp add: targets_ok_def)
  let ?i = "DifficultyAdjustmentInterval params"
  obtain lim where lim: "compact_result (UintToArith256 (powLimit params)) = Inr lim" "target_ok params lim"
    using limit_result_ok [OF ok(1)] by metis
  show thesis
  proof (cases "cmod (int (nHeight b) + 1) ?i = 0")
    case False
    obtain w where "last_real_target (nHeight b) st ?i lim p = Inr w" "target_ok params w"
      using last_real_target_ok [OF lk ok(2) b] by blast
    then have "\<exists>v. GetNextWorkRequiredBTC st (Some p) hdr params = Inr v \<and> target_ok params v"
      using tb b lim False by (simp add: GetNextWorkRequiredBTC_def Let_def)
    then show thesis using that by blast
  next
    case True
    have dvd: "?i dvd int (nHeight b) + 1" using True p(6) by (simp add: dvd_eq_mod_eq_0)
    then have h: "0 \<le> int (nHeight b) - (?i - 1)" using zdvd_imp_le [OF dvd] by simp
    obtain k where k: "int (nHeight b) - (?i - 1) = int k" "k \<le> nHeight b"
      using h p(6) by (intro that [of "nat (int (nHeight b) - (?i - 1))"]) auto
    obtain q f where q: "nth_prev st (nHeight b - k) p = Some q" "st q = Some f"
      using nth_prev_height [OF lk b, of "nHeight b - k"] by auto
    have anc: "GetAncestor st p (int k) = Inr (Some q)" using GetAncestor_nth_prev [OF wf b k(2)] q(1) by simp
    obtain w where w: "CalculateNextWorkRequired b (GetBlockTime f) params = Inr w" "target_ok params w"
      using CalculateNextWorkRequired_ok [OF ok(1) tb] by metis
    then show thesis
      using that b lim True anc q(2) by (simp add: GetNextWorkRequiredBTC_def Let_def k(1))
  qed
qed

lemma kgw_average_total:
  assumes "length bn = WIDTH" "length prev = WIDTH" "i < 2 ^ 64"
  obtains avg where "kgw_average i bn prev = Inr avg" "length avg = WIDTH"
proof (cases "i > 1")
  case False
  then show thesis using that assms by (simp add: kgw_average_def)
next
  case True
  have "unat (word_of_nat i :: u64) = i" using assms(3) by (simp add: unsigned_of_nat take_bit_nat_eq_self)
  then have "(word_of_nat i :: u64) \<noteq> 0" using True by (metis not_less_zero unat_0)
  note m = u256.running_mean_val [OF assms(1,2) this]
  show thesis
  proof (cases "CompareTo bn prev \<ge> 0")
    case ge: True
    then show thesis using m(1) that True by (auto simp: kgw_average_def)
  next
    case lt: False
    then show thesis using m(2) that True by (auto simp: kgw_average_def)
  qed
qed

lemma kgw_loop_total:
  assumes lk: "links_ok st"
  shows "st p = Some b \<Longrightarrow> nHeight b \<le> n \<Longrightarrow> 1 \<le> i \<Longrightarrow> i + nHeight b < 2 ^ 32 \<Longrightarrow> length prev = WIDTH \<Longrightarrow>
    0 \<le> tgt \<Longrightarrow> tgt \<le> nPowTargetSpacing params * 2 ^ 32 \<Longrightarrow> 0 < nPowTargetSpacing params \<Longrightarrow>
    \<exists>avg act' tgt'. kgw_loop eh n st params lt lo hi i p (prev, act, tgt) = Inr (avg, act', tgt') \<and> length avg = WIDTH \<and>
      0 \<le> tgt' \<and> tgt' \<le> nPowTargetSpacing params * 2 ^ 32"
proof (induction n arbitrary: p b i prev act tgt)
  case 0
  then show ?case by (simp add: kgw_loop.simps [of _ 0])
next
  case (Suc n)
  define act1 where "act1 = max 0 (lt - GetBlockTime b)"
  define tgt1 where "tgt1 = nPowTargetSpacing params * int i"
  obtain avg where avg: "kgw_average i (fst (SetCompact (nBits b))) prev = Inr avg" "length avg = WIDTH"
    using kgw_average_total [OF SetCompact_length Suc.prems(5), of i "nBits b"] Suc.prems(4) by auto
  have tgt1: "0 \<le> tgt1" "tgt1 \<le> nPowTargetSpacing params * 2 ^ 32"
    using Suc.prems(4,8) by (simp_all add: tgt1_def mult_left_mono)
  show ?case
    using lk Suc.prems(1)
  proof (rule links_okE)
    assume "pprev b = None" "nHeight b = 0"
    then show ?thesis using Suc.prems by (simp add: kgw_loop.simps [of _ "Suc n"])
  next
    fix q c assume q: "pprev b = Some q" "st q = Some c" "nHeight b = Suc (nHeight c)"
    have "\<exists>avg' act' tgt'. kgw_loop eh n st params lt lo hi (i + 1) q (avg, act1, tgt1) = Inr (avg', act', tgt') \<and>
        length avg' = WIDTH \<and> 0 \<le> tgt' \<and> tgt' \<le> nPowTargetSpacing params * 2 ^ 32"
      using Suc.IH [OF q(2), of "i + 1" avg tgt1 act1] q(3) Suc.prems(2,4,8) avg(2) tgt1 by simp
    then show ?thesis
      using Suc.prems avg q tgt1 by (auto simp: kgw_loop.simps [of _ "Suc n"] Let_def act1_def [symmetric] tgt1_def [symmetric])
  qed
qed

lemma KimotoGravityWell_ok:
  assumes lk: "links_ok st" and ok: "params_ok params" and b: "st p = Some b" "nHeight b < 2 ^ 31"
  obtains w where "KimotoGravityWell eh st (Some p) params = Inr w" "target_ok params w"
proof -
  note pp = params_okD [OF ok]
  define lo where "lo = nat (nPowTargetTimespan params div 40 div nPowTargetSpacing params)"
  define hi where "hi = nat (nPowTargetTimespan params * 7 div nPowTargetSpacing params)"
  obtain avg act tgt where l: "kgw_loop eh (nHeight b) st params (GetBlockTime b) lo hi 1 p (base_uint_default, 0, 0) = Inr (avg, act, tgt)"
    "length avg = WIDTH" "0 \<le> tgt" "tgt \<le> nPowTargetSpacing params * 2 ^ 32"
    using kgw_loop_total [OF lk b(1), of "nHeight b" 1 base_uint_default 0 params eh "GetBlockTime b" lo hi 0] b(2) pp(2)
    by (auto simp: base_uint_default_def)
  have "\<exists>bn. (if act \<noteq> 0 \<and> tgt \<noteq> 0 then scale_target avg act tgt else Inr avg) = Inr bn \<and> length bn = WIDTH"
  proof (cases "act \<noteq> 0 \<and> tgt \<noteq> 0")
    case True
    have "tgt < 2 ^ 64" using l(4) pp(5) by simp
    then show ?thesis using scale_target_total [OF l(2), of tgt act] True l(3) by auto
  qed (use l(2) in auto)
  then obtain bn where bn: "(if act \<noteq> 0 \<and> tgt \<noteq> 0 then scale_target avg act tgt else Inr avg) = Inr bn" "length bn = WIDTH" by blast
  obtain w where w: "compact_result (cap_target bn (UintToArith256 (powLimit params))) = Inr w" "target_ok params w"
    using capped_result_ok [OF ok bn(2)] by metis
  obtain v where v: "compact_result (UintToArith256 (powLimit params)) = Inr v" "target_ok params v"
    using limit_result_ok [OF ok] by metis
  show thesis
  proof (cases "nHeight b = 0 \<or> nHeight b < lo")
    case True
    then show thesis using that [of v] v b(1) by (simp add: KimotoGravityWell_def Let_def lo_def)
  next
    case False
    then show thesis using that [of w] w bn(1) l(1) b(1)
      by (simp add: KimotoGravityWell_def Let_def lo_def [symmetric] hi_def [symmetric])
  qed
qed

subsection \<open>Dark gravity wave as a weighted mean\<close>

text \<open>The targets of the block and its \<open>r\<close> predecessors, newest first.\<close>

fun past_targets :: "nat \<Rightarrow> block_store \<Rightarrow> block_ptr \<Rightarrow> nat list" where
  "past_targets r st p =
     (case st p of None \<Rightarrow> []
      | Some b \<Rightarrow> compact_value (nBits b) #
          (case r of 0 \<Rightarrow> [] | Suc r' \<Rightarrow> (case pprev b of None \<Rightarrow> [] | Some q \<Rightarrow> past_targets r' st q)))"

declare past_targets.simps [simp del]

fun dgw_mean :: "nat \<Rightarrow> nat \<Rightarrow> nat list \<Rightarrow> nat" where
  "dgw_mean n avg [] = avg"
| "dgw_mean n avg (t # ts) = dgw_mean (n + 1) (if n = 1 then t else (avg * n + t) div (n + 1)) ts"

lemma weighted_mean_le:
  assumes "a \<le> L" "t \<le> (L :: nat)"
  shows "(a * n + t) div (n + 1) \<le> L"
proof -
  have "a * n + t \<le> L * n + L" using assms by (intro add_mono mult_right_mono) simp_all
  then have "(a * n + t) div (n + 1) \<le> (L * (n + 1)) div (n + 1)" by (intro div_le_mono) simp
  also have "\<dots> = L" by (rule nonzero_mult_div_cancel_right) simp
  finally show ?thesis .
qed

lemma unat_of_nat_u32: "n < 2 ^ 32 \<Longrightarrow> unat (word_of_nat n :: u32) = n"
  by (simp add: unsigned_of_nat take_bit_nat_eq_self)

lemma unat_of_nat_u64: "n < 2 ^ 64 \<Longrightarrow> unat (word_of_nat n :: u64) = n"
  by (simp add: unsigned_of_nat take_bit_nat_eq_self)

lemma word_of_nat_u64_nz: "0 < n \<Longrightarrow> n < 2 ^ 64 \<Longrightarrow> (word_of_nat n :: u64) \<noteq> 0"
  using unat_of_nat_u64 [of n] by (metis less_irrefl unat_0)

lemma dgw_average_total:
  assumes "length avg = WIDTH" "length t = WIDTH" "n \<le> 24"
  obtains a where "dgw_average n avg t = Inr a" "length a = WIDTH"
proof (cases "n = 1")
  case True
  then show thesis using that assms by (simp add: dgw_average_def)
next
  case False
  have nz: "(word_of_nat (n + 1) :: u64) \<noteq> 0" using assms(3) by (intro word_of_nat_u64_nz) simp_all
  have "length (base_uint_add (base_uint_mul32 avg (word_of_nat n)) t) = WIDTH"
    using u256.plus u256.scale assms by blast
  then show thesis using that False u256.quot [OF _ nz] unfolding dgw_average_def by metis
qed

lemma dgw_average_val:
  assumes "length avg = WIDTH" "limbs_val avg \<le> L" "length t = WIDTH" "limbs_val t \<le> L" "L < 2 ^ 250" "n \<le> 24"
  obtains a where "dgw_average n avg t = Inr a" "length a = WIDTH"
    "limbs_val a = (if n = 1 then limbs_val t else (limbs_val avg * n + limbs_val t) div (n + 1))" "limbs_val a \<le> L"
proof (cases "n = 1")
  case True
  then show thesis using that assms by (simp add: dgw_average_def)
next
  case False
  have n: "unat (word_of_nat n :: u32) = n" using assms(6) by (intro unat_of_nat_u32) simp
  have m: "unat (word_of_nat (n + 1) :: u64) = n + 1" using assms(6) by (intro unat_of_nat_u64) simp
  have nz: "(word_of_nat (n + 1) :: u64) \<noteq> 0" using assms(6) by (intro word_of_nat_u64_nz) simp_all
  have "limbs_val avg * n + limbs_val t \<le> L * 24 + L" using assms by (intro add_mono mult_mono) simp_all
  also have "\<dots> < 2 ^ 256" using assms(5) by simp
  finally have "limbs_val avg * unat (word_of_nat n :: u32) + limbs_val t < 2 ^ 256" unfolding n .
  then obtain a where "base_uint_div (base_uint_add (base_uint_mul32 avg (word_of_nat n)) t) (base_uint_of_u64 (word_of_nat (n + 1))) = Inr a"
    "length a = WIDTH" "limbs_val a = (limbs_val avg * n + limbs_val t) div (n + 1)"
    using u256.weighted_mean_val [OF assms(1,3) nz, of "word_of_nat n"] unfolding n m by metis
  then show thesis using that False weighted_mean_le [OF assms(2,4), of n] by (simp add: dgw_average_def)
qed

lemma dgw_loop_val:
  assumes lk: "links_ok st" and ok: "targets_ok params st" and L: "le_val (powLimit params) < 2 ^ 250"
  shows "st p = Some b \<Longrightarrow> r \<le> nHeight b \<Longrightarrow> n + r \<le> 24 \<Longrightarrow> length avg = WIDTH \<Longrightarrow>
    limbs_val avg \<le> le_val (powLimit params) \<Longrightarrow>
    \<exists>a q. dgw_loop r n st p avg = Inr (a, q) \<and> length a = WIDTH \<and> nth_prev st r p = Some q \<and>
      limbs_val a = dgw_mean n (limbs_val avg) (past_targets r st p) \<and> limbs_val a \<le> le_val (powLimit params)"
proof (induction r arbitrary: p b n avg)
  case 0
  have t: "compact_value (nBits b) \<le> le_val (powLimit params)" using ok 0(1) by (simp add: targets_ok_def target_ok_def)
  then have "compact_value (nBits b) < 2 ^ 256" using L by simp
  note s = SetCompact_value [OF this]
  obtain a where "dgw_average n avg (fst (SetCompact (nBits b))) = Inr a" "length a = WIDTH"
    "limbs_val a = (if n = 1 then compact_value (nBits b) else (limbs_val avg * n + compact_value (nBits b)) div (n + 1))"
    "limbs_val a \<le> le_val (powLimit params)"
    using dgw_average_val [OF 0(4,5) s(1) _ L, of n] t 0(3) unfolding s(2) by auto
  then show ?case using 0(1) by (simp add: dgw_loop.simps [of 0] past_targets.simps [of 0])
next
  case (Suc r)
  have t: "compact_value (nBits b) \<le> le_val (powLimit params)" using ok Suc.prems(1) by (simp add: targets_ok_def target_ok_def)
  then have "compact_value (nBits b) < 2 ^ 256" using L by simp
  note s = SetCompact_value [OF this]
  obtain a where a: "dgw_average n avg (fst (SetCompact (nBits b))) = Inr a" "length a = WIDTH"
    "limbs_val a = (if n = 1 then compact_value (nBits b) else (limbs_val avg * n + compact_value (nBits b)) div (n + 1))"
    "limbs_val a \<le> le_val (powLimit params)"
    using dgw_average_val [OF Suc.prems(4,5) s(1) _ L, of n] t Suc.prems(3) unfolding s(2) by auto
  obtain q c where q: "pprev b = Some q" "st q = Some c" "nHeight b = Suc (nHeight c)"
    using lk Suc.prems(1) by (rule links_okE) (use Suc.prems(2) in auto)
  obtain a' q' where IH: "dgw_loop r (n + 1) st q a = Inr (a', q')" "length a' = WIDTH" "nth_prev st r q = Some q'"
      "limbs_val a' = dgw_mean (n + 1) (limbs_val a) (past_targets r st q)" "limbs_val a' \<le> le_val (powLimit params)"
    using Suc.IH [OF q(2), of "n + 1" a] q(3) Suc.prems(2,3) a(2,4) by auto
  then show ?case
    using Suc.prems(1) a(1,3) q(1) by (simp add: dgw_loop.simps [of "Suc r"] past_targets.simps [of "Suc r"])
qed

lemma dgw_loop_total:
  assumes lk: "links_ok st"
  shows "st p = Some b \<Longrightarrow> r \<le> nHeight b \<Longrightarrow> n + r \<le> 24 \<Longrightarrow> length avg = WIDTH \<Longrightarrow>
    \<exists>a q c. dgw_loop r n st p avg = Inr (a, q) \<and> length a = WIDTH \<and> st q = Some c"
proof (induction r arbitrary: p b n avg)
  case 0
  obtain a where "dgw_average n avg (fst (SetCompact (nBits b))) = Inr a" "length a = WIDTH"
    using dgw_average_total [OF 0(4) SetCompact_length, of n "nBits b"] 0(3) by auto
  then show ?case using 0(1) by (simp add: dgw_loop.simps [of 0])
next
  case (Suc r)
  obtain a where a: "dgw_average n avg (fst (SetCompact (nBits b))) = Inr a" "length a = WIDTH"
    using dgw_average_total [OF Suc.prems(4) SetCompact_length, of n "nBits b"] Suc.prems(3) by auto
  obtain q c where q: "pprev b = Some q" "st q = Some c" "nHeight b = Suc (nHeight c)"
    using lk Suc.prems(1) by (rule links_okE) (use Suc.prems(2) in auto)
  show ?case using Suc.IH [OF q(2), of "n + 1" a] q Suc.prems(1,2,3) a by (auto simp: dgw_loop.simps [of "Suc r"])
qed


lemma DarkGravityWave_ok:
  assumes lk: "links_ok st" and ok: "params_ok params" and b: "st p = Some b"
  obtains w where "DarkGravityWave st (Some p) params = Inr w" "target_ok params w"
proof (cases "nHeight b < nPastBlocks")
  case True
  then show thesis using that limit_result_ok [OF ok] b by (auto simp: DarkGravityWave_def Let_def)
next
  case False
  note pp = params_okD [OF ok]
  obtain a q c where a: "dgw_loop (nPastBlocks - 1) 1 st p base_uint_default = Inr (a, q)" "length a = WIDTH" "st q = Some c"
    using dgw_loop_total [OF lk b, of "nPastBlocks - 1" 1 base_uint_default] False
    by (auto simp: nPastBlocks_def base_uint_default_def)
  let ?T = "int nPastBlocks * nPowTargetSpacing params"
  obtain bn where bn: "scale_target a (clamp_timespan (cdiv ?T 3) (?T * 3) (GetBlockTime b - GetBlockTime c)) ?T = Inr bn" "length bn = WIDTH"
    using scale_target_total [OF a(2), of ?T] pp(2,5) by (auto simp: nPastBlocks_def)
  obtain w where "compact_result (cap_target bn (UintToArith256 (powLimit params))) = Inr w" "target_ok params w"
    using capped_result_ok [OF ok bn(2)] by metis
  then show thesis using that a bn b False by (simp add: DarkGravityWave_def Let_def)
qed

lemma GetNextWorkRequired_ok:
  assumes wf: "wf_tree st" and ok: "params_ok params" "targets_ok params st" and b: "st p = Some b" "nHeight b < 2 ^ 31"
  shows "\<exists>w. GetNextWorkRequired eh st (Some p) hdr params = Inr w \<and> target_ok params w"
proof -
  have lk: "links_ok st" using wf by (simp add: wf_tree_def)
  obtain lim where lim: "compact_result (UintToArith256 (powLimit params)) = Inr lim" "target_ok params lim"
    using limit_result_ok [OF ok(1)] by metis
  obtain w1 where w1: "GetNextWorkRequiredBTC st (Some p) hdr params = Inr w1" "target_ok params w1"
    using GetNextWorkRequiredBTC_ok [OF wf ok b(1)] by metis
  obtain w2 where w2: "KimotoGravityWell eh st (Some p) params = Inr w2" "target_ok params w2"
    using KimotoGravityWell_ok [OF lk ok(1) b] by metis
  obtain w3 where w3: "DarkGravityWave st (Some p) params = Inr w3" "target_ok params w3"
    using DarkGravityWave_ok [OF lk ok(1) b(1)] by metis
  have "length (base_uint_mul32 (fst (SetCompact (nBits b))) 10) = WIDTH" using u256.scale [OF SetCompact_length] by blast
  then obtain w4 where w4: "compact_result (cap_target (base_uint_mul32 (fst (SetCompact (nBits b))) 10) (UintToArith256 (powLimit params))) = Inr w4"
    "target_ok params w4" using capped_result_ok [OF ok(1)] by metis
  show ?thesis
    using lim w1 w2 w3 w4 b(1) by (simp add: GetNextWorkRequired_def Let_def)
qed

lemma DarkGravityWave_val:
  assumes lk: "links_ok st" and ok: "params_ok params" "targets_ok params st"
    and small: "le_val (powLimit params) * nat (72 * nPowTargetSpacing params) < 2 ^ 256" "le_val (powLimit params) < 2 ^ 250"
      "72 * nPowTargetSpacing params < 2 ^ 32"
    and b: "st p = Some b" "nPastBlocks \<le> nHeight b"
  obtains w q f where "DarkGravityWave st (Some p) params = Inr w" "nth_prev st (nPastBlocks - 1) p = Some q" "st q = Some f"
    "rounds_to (min (dgw_mean 1 0 (past_targets (nPastBlocks - 1) st p) *
        nat (clamp_timespan (8 * nPowTargetSpacing params) (72 * nPowTargetSpacing params) (GetBlockTime b - GetBlockTime f))
        div nat (24 * nPowTargetSpacing params)) (le_val (powLimit params))) w"
proof -
  note pp = params_okD [OF ok(1)]
  obtain a q where a: "dgw_loop (nPastBlocks - 1) 1 st p base_uint_default = Inr (a, q)" "length a = WIDTH"
    "nth_prev st (nPastBlocks - 1) p = Some q" "limbs_val a = dgw_mean 1 (limbs_val base_uint_default) (past_targets (nPastBlocks - 1) st p)"
    "limbs_val a \<le> le_val (powLimit params)"
    using dgw_loop_val [OF lk ok(2) small(2) b(1), of "nPastBlocks - 1" 1 base_uint_default] b(2)
    by (auto simp: nPastBlocks_def base_uint_default_def WIDTH_def)
  have a0: "limbs_val base_uint_default = 0" by (simp add: base_uint_default_def WIDTH_def)
  obtain f where f: "st q = Some f" using nth_prev_height [OF lk b(1), of "nPastBlocks - 1"] b(2) a(3) by (auto simp: nPastBlocks_def)
  let ?T = "24 * nPowTargetSpacing params"
  define act where "act = clamp_timespan (8 * nPowTargetSpacing params) (72 * nPowTargetSpacing params) (GetBlockTime b - GetBlockTime f)"
  have act: "0 \<le> act" "act \<le> 72 * nPowTargetSpacing params"
    using clamp_timespan_bounds [of "8 * nPowTargetSpacing params" "72 * nPowTargetSpacing params" "GetBlockTime b - GetBlockTime f"]
      pp(2) unfolding act_def by linarith+
  have "limbs_val a * nat act \<le> le_val (powLimit params) * nat (72 * nPowTargetSpacing params)"
    using a(5) act by (intro mult_mono) auto
  then have "limbs_val a * nat act < 2 ^ 256" using small(1) by simp
  moreover have "act < 2 ^ 32" using act(2) small(3) by simp
  ultimately obtain bn where bn: "scale_target a act ?T = Inr bn" "length bn = WIDTH" "limbs_val bn = limbs_val a * nat act div nat ?T"
    using scale_target_val [OF a(2), of ?T act] act pp(2,5) by auto
  obtain w where w: "compact_result (cap_target bn (UintToArith256 (powLimit params))) = Inr w"
    "rounds_to (min (limbs_val bn) (le_val (powLimit params))) w"
    using capped_result_ok [OF ok(1) bn(2)] by metis
  have T: "int nPastBlocks * nPowTargetSpacing params = ?T" "cdiv ?T 3 = 8 * nPowTargetSpacing params"
    using pp(2) by (simp_all add: nPastBlocks_def)
  have "DarkGravityWave st (Some p) params = Inr w"
    using w(1) a(1) bn(1) f b unfolding DarkGravityWave_def T by (simp add: Let_def act_def T)
  moreover have "rounds_to (min (dgw_mean 1 0 (past_targets (nPastBlocks - 1) st p) * nat act div nat ?T) (le_val (powLimit params))) w"
    using w(2) unfolding bn(3) a(4) a0 .
  ultimately show thesis using that a(3) f unfolding act_def by blast
qed

subsection \<open>Correctness of the difficulty rules\<close>

text \<open>A chain of \<open>n\<close> blocks one minute apart, at the main network's starting target.\<close>

definition minute_chain :: "nat \<Rightarrow> block_store" where
  "minute_chain n = (\<lambda>p. if p < n then Some (sample_entry p (if p = 0 then None else Some (p - 1)) None (word_of_nat (60 * p))) else None)"

lemma wf_minute_chain: "wf_tree (minute_chain n)"
  unfolding wf_tree_def links_ok_def skips_ok_def by (auto simp: minute_chain_def split: if_splits option.splits)

lemma minute_chain_99:
  "minute_chain 100 99 = Some (sample_entry 99 (Some 98) None (word_of_nat (60 * 99)))"
  by (simp add: minute_chain_def)

lemma main_spacing: "nPowTargetSpacing CMainParams = 60"
  by (simp add: CMainParams_def)

lemma le_val_replicate_ff: "le_val (replicate n 0xff) = 2 ^ (8 * n) - 1"
proof (induction n)
  case (Suc n)
  have "(1::nat) \<le> 2 ^ (8 * n)" by simp
  then show ?case using Suc by (simp add: power_add diff_mult_distrib2)
qed simp

lemma le_val_replicate_0: "le_val (replicate n 0) = 0"
  by (induction n) simp_all

lemma le_val_main_limit: "le_val (powLimit CMainParams) = 2 ^ 236 - 1" "length (powLimit CMainParams) = 32"
proof -
  have p: "powLimit CMainParams = replicate 29 0xff @ [0x0f, 0, 0]" by (simp add: CMainParams_def powLimit_main)
  show "le_val (powLimit CMainParams) = 2 ^ 236 - 1" "length (powLimit CMainParams) = 32"
    unfolding p by (simp_all add: le_val_append le_val_replicate_ff)
qed

lemma params_ok_main: "params_ok CMainParams"
  using le_val_main_limit(2) by (simp add: params_ok_def CMainParams_def)

lemma targets_ok_minute_chain: "targets_ok CMainParams (minute_chain n)"
proof -
  have "target_ok CMainParams 0x1e0fffff"
    unfolding target_ok_def le_val_main_limit(1)
    by (simp add: compact_value_def compact_mantissa_def compact_size_def bit_iff_odd_drop_bit)
  then show ?thesis by (simp add: targets_ok_def minute_chain_def)
qed

text \<open>
  C29.  The proof-of-work check accepts exactly the hashes that, read as a little-endian number, are at most the claimed
  target, where the claim must decode to a non-zero, non-negative, non-overflowing target within the limit.
\<close>

theorem CheckProofOfWork_correct:
  assumes "length hash = 32" "length (powLimit params) = 32"
  shows "CheckProofOfWork hash bits params \<longleftrightarrow>
    (let t = compact_value bits in 0 < t \<and> \<not> bit bits 23 \<and> t \<le> le_val (powLimit params) \<and> le_val hash \<le> t)"
proof -
  have l: "le_val (powLimit params) < 2 ^ 256" using le_val_less [of "powLimit params"] assms(2) by simp
  obtain num where n: "SetCompact bits = (num, compact_mantissa bits \<noteq> 0 \<and> bit bits 23, 2 ^ 256 \<le> compact_value bits)"
    "length num = 8" "limbs_val num = compact_value bits mod 2 ^ 256" by (rule SetCompact_eq)
  have w: "length num = WIDTH" "length (UintToArith256 hash) = WIDTH" "length (UintToArith256 (powLimit params)) = WIDTH"
    using n(2) by (simp_all add: WIDTH_def UintToArith256_def)
  have c: "CompareTo num (UintToArith256 (powLimit params)) > 0 \<longleftrightarrow> le_val (powLimit params) < limbs_val num"
    "CompareTo (UintToArith256 hash) num > 0 \<longleftrightarrow> limbs_val num < le_val hash"
    using u256.cmp [OF w(1,3)] u256.cmp [OF w(2,1)] limbs_val_UintToArith256 assms by (simp_all add: sgn_if)
  have m: "compact_mantissa bits = 0 \<Longrightarrow> compact_value bits = 0" by (simp add: compact_value_def)
  show ?thesis
  proof (cases "2 ^ 256 \<le> compact_value bits")
    case True
    then show ?thesis using n(1) l by (simp add: CheckProofOfWork_def Let_def)
  next
    case False
    then have "limbs_val num = compact_value bits" using n(3) by simp
    then show ?thesis
      using n(1) c False m EqualTo_limbs_val [of num 0] n(2) by (auto simp: CheckProofOfWork_def Let_def)
  qed
qed

theorem CheckProofOfWork_correct_witness:
  "CheckProofOfWork (replicate 32 0) 0x1e0fffff CMainParams"
  using CheckProofOfWork_correct [of "replicate 32 0" CMainParams "0x1e0fffff"]
  unfolding le_val_main_limit le_val_replicate_0
  by (simp add: compact_value_def compact_mantissa_def compact_size_def bit_iff_odd_drop_bit)

text \<open>
  C30.  The next required target keeps the invariant of the chain: if every block of a well-formed tree claims a
  target that is not negative and at most the limit, then the rule selected for the next block (retargeting every day, Kimoto's gravity well,
  dark gravity wave or a minimum-difficulty exception) returns without a failing assertion or division, whatever the
  outcome of the floating-point tests, and its result again is not negative and at most the limit.
  A target of zero, which \<^verbatim>\<open>CheckProofOfWork\<close> refuses, is not excluded: the averages of the rules round down.
\<close>

theorem GetNextWorkRequired_keeps_limit:
  assumes "wf_tree st" "params_ok params" "targets_ok params st" "st p = Some b" "nHeight b < 2 ^ 31"
  shows "\<exists>w. GetNextWorkRequired event_horizon st (Some p) pblock params = Inr w \<and> target_ok params w"
  by (rule GetNextWorkRequired_ok [OF assms])

theorem GetNextWorkRequired_keeps_limit_witness:
  "\<exists>w. GetNextWorkRequired (\<lambda>_ _ _. False) (minute_chain 100) (Some 99)
        \<lparr>hdr_nVersion = 1, hdr_hashPrevBlock = [], hdr_hashMerkleRoot = [], hdr_nTime = 6000, hdr_nBits = 0, hdr_nNonce = 0\<rparr>
        CMainParams = Inr w \<and> target_ok CMainParams w"
  using GetNextWorkRequired_keeps_limit [OF wf_minute_chain params_ok_main targets_ok_minute_chain minute_chain_99]
  by simp

text \<open>
  Dark gravity wave sets the target to the weighted mean of the last 24 targets, multiplied by the time these
  blocks took (kept between a third and three times the intended time) over the intended time, capped by the limit and
  rounded down to compact form: no intermediate product wraps around.
\<close>

theorem DarkGravityWave_correct:
  assumes "links_ok st" "params_ok params" "targets_ok params st" "st p = Some b" "nPastBlocks \<le> nHeight b"
    "le_val (powLimit params) * nat (72 * nPowTargetSpacing params) < 2 ^ 256" "le_val (powLimit params) < 2 ^ 250"
    "72 * nPowTargetSpacing params < 2 ^ 32"
  shows "\<exists>w q f. DarkGravityWave st (Some p) params = Inr w \<and> nth_prev st (nPastBlocks - 1) p = Some q \<and> st q = Some f \<and>
    rounds_to (min (dgw_mean 1 0 (past_targets (nPastBlocks - 1) st p) *
        nat (clamp_timespan (8 * nPowTargetSpacing params) (72 * nPowTargetSpacing params) (GetBlockTime b - GetBlockTime f))
        div nat (24 * nPowTargetSpacing params)) (le_val (powLimit params))) w"
  using DarkGravityWave_val [OF assms(1-3,6-8,4,5)] by metis

theorem DarkGravityWave_correct_witness: "\<exists>w. DarkGravityWave (minute_chain 100) (Some 99) CMainParams = Inr w"
proof -
  have "links_ok (minute_chain 100)" using wf_minute_chain by (simp add: wf_tree_def)
  from DarkGravityWave_correct [OF this params_ok_main targets_ok_minute_chain minute_chain_99] show ?thesis
    unfolding le_val_main_limit(1) main_spacing by (simp add: nPastBlocks_def) blast
qed

end
