(* ===== verification/Serialize.thy ===== *)
theory Serialize
  imports Consensus_Params
begin

text \<open>
  The binary serialization of \<^verbatim>\<open>serialize.h\<close> over the streams of \<^verbatim>\<open>streams.h\<close>.  Writing an object
  appends its bytes; reading consumes bytes from the front of the stream and either returns
  a value with the rest of the stream, or throws.  A reader is a function from the bytes left
  to an error or a value and the bytes left afterwards; \<^verbatim>\<open>OutOfBoundsWrite\<close> marks the undefined
  behaviour of an unchecked index.  The contract between a writer and its reader is the locale
  \<^verbatim>\<open>codec\<close>: every serializable type of the development is an interpretation of it.
\<close>

subsection \<open>Readers\<close>

datatype ser_error = EndOfData | NonCanonical | SizeTooLarge | VarIntTooLarge | OutOfRangeBits
  | IndexOutOfBounds | OffsetOverflow | BadBitSetTag | ValueOutOfRange | ExceedsTypeLimit
  | StringLimitExceeded | ScriptTooLong | NonMinimalFlag | MissingField | OutOfBoundsWrite

type_synonym 'a reader = "bytes \<Rightarrow> ser_error + 'a \<times> bytes"

definition rret :: "'a \<Rightarrow> 'a reader" where
  "rret x s = Inr (x, s)"

definition rfail :: "ser_error \<Rightarrow> 'a reader" where
  "rfail e s = Inl e"

definition rbind :: "'a reader \<Rightarrow> ('a \<Rightarrow> 'b reader) \<Rightarrow> 'b reader" where
  "rbind p f s = (case p s of Inl e \<Rightarrow> Inl e | Inr (x, s') \<Rightarrow> f x s')"

text \<open>\<^verbatim>\<open>DataStream::read\<close>: all the bytes asked for, or the end-of-data failure.\<close>

definition read_bytes :: "nat \<Rightarrow> bytes reader" where
  "read_bytes n s = (if n > length s then Inl EndOfData else Inr (take n s, drop n s))"

named_theorems ser_def \<open>the primitive readers and writers\<close>
named_theorems rt \<open>what a reader returns on the bytes its writer produced\<close>

lemma rret_apply [simp]: "rret x s = Inr (x, s)"
  by (simp add: rret_def)

lemma rfail_apply [simp]: "rfail e s = Inl e"
  by (simp add: rfail_def)

lemma rbind_Inr [simp]: "p s = Inr (x, s') \<Longrightarrow> rbind p f s = f x s'"
  by (simp add: rbind_def)

lemma rbind_Inl [simp]: "p s = Inl e \<Longrightarrow> rbind p f s = Inl e"
  by (simp add: rbind_def)

lemma rbind_eq_Inr: "rbind p f s = Inr r \<longleftrightarrow> (\<exists>x s'. p s = Inr (x, s') \<and> f x s' = Inr r)"
  by (auto simp: rbind_def split: sum.splits)

lemma read_bytes_append [rt]: "length bs = n \<Longrightarrow> read_bytes n (bs @ rest) = Inr (bs, rest)"
  by (simp add: read_bytes_def)

lemma read_bytes_Inr:
  "read_bytes n s = Inr (bs, rest) \<longleftrightarrow> s = bs @ rest \<and> length bs = n"
  by (auto simp: read_bytes_def)

subsection \<open>Fixed-width integers\<close>

definition ser_writedata8 :: "u8 \<Rightarrow> bytes" where
  "ser_writedata8 obj = [obj]"

definition ser_writedata16 :: "u16 \<Rightarrow> bytes" where
  "ser_writedata16 obj = WriteLE16 obj"

definition ser_writedata16be :: "u16 \<Rightarrow> bytes" where
  "ser_writedata16be obj = rev (WriteLE16 obj)"

definition ser_writedata32 :: "u32 \<Rightarrow> bytes" where
  "ser_writedata32 obj = WriteLE32 obj"

definition ser_writedata32be :: "u32 \<Rightarrow> bytes" where
  "ser_writedata32be obj = WriteBE32 obj"

definition ser_writedata64 :: "u64 \<Rightarrow> bytes" where
  "ser_writedata64 obj = WriteLE64 obj"

definition ser_readdata8 :: "u8 reader" where
  "ser_readdata8 = rbind (read_bytes 1) (\<lambda>bs. rret (hd bs))"

definition ser_readdata16 :: "u16 reader" where
  "ser_readdata16 = rbind (read_bytes 2) (\<lambda>bs. rret (ReadLE16 bs))"

definition ser_readdata16be :: "u16 reader" where
  "ser_readdata16be = rbind (read_bytes 2) (\<lambda>bs. rret (ReadBE16 bs))"

definition ser_readdata32 :: "u32 reader" where
  "ser_readdata32 = rbind (read_bytes 4) (\<lambda>bs. rret (ReadLE32 bs))"

definition ser_readdata32be :: "u32 reader" where
  "ser_readdata32be = rbind (read_bytes 4) (\<lambda>bs. rret (ReadBE32 bs))"

definition ser_readdata64 :: "u64 reader" where
  "ser_readdata64 = rbind (read_bytes 8) (\<lambda>bs. rret (ReadLE64 bs))"

lemma readdata8_rt [simp, rt]: "ser_readdata8 (b # rest) = Inr (b, rest)"
  by (simp add: ser_readdata8_def rbind_def read_bytes_def)

lemma readdata8_Nil [simp]: "ser_readdata8 [] = Inl EndOfData"
  by (simp add: ser_readdata8_def rbind_def read_bytes_def)

lemma readdata16_rt [simp, rt]: "ser_readdata16 (ser_writedata16 x @ rest) = Inr (x, rest)"
  using ReadLE16_WriteLE16 [of x "[]"]
  by (simp add: ser_readdata16_def ser_writedata16_def rbind_def read_bytes_append)

lemma readdata32_rt [simp, rt]: "ser_readdata32 (ser_writedata32 x @ rest) = Inr (x, rest)"
  using ReadLE32_WriteLE32 [of x "[]"]
  by (simp add: ser_readdata32_def ser_writedata32_def rbind_def read_bytes_append)

lemma readdata64_rt [simp, rt]: "ser_readdata64 (ser_writedata64 x @ rest) = Inr (x, rest)"
  using ReadLE64_WriteLE64 [of x "[]"]
  by (simp add: ser_readdata64_def ser_writedata64_def rbind_def read_bytes_append)

lemma readdata32be_rt [simp, rt]: "ser_readdata32be (ser_writedata32be x @ rest) = Inr (x, rest)"
  using ReadBE32_WriteBE32 [of x "[]"]
  by (simp add: ser_readdata32be_def ser_writedata32be_def rbind_def read_bytes_append)

lemma ReadBE16_rev: "ReadBE16 (rev (WriteLE16 x)) = x"
proof -
  have "take 2 (rev (WriteLE16 x)) = rev (WriteLE16 x)" by simp
  moreover have "ReadLE16 (WriteLE16 x) = x" using ReadLE16_WriteLE16 [of x "[]"] by simp
  moreover have "take 2 (WriteLE16 x) = WriteLE16 x" by simp
  ultimately show ?thesis by (simp only: ReadBE16_def ReadLE16_def rev_rev_ident)
qed

lemma readdata16be_rt [simp, rt]: "ser_readdata16be (ser_writedata16be x @ rest) = Inr (x, rest)"
  by (simp add: ser_readdata16be_def ser_writedata16be_def rbind_def read_bytes_append ReadBE16_rev)

lemma readdata16_canon:
  "ser_readdata16 s = Inr (x, rest) \<Longrightarrow> s = ser_writedata16 x @ rest"
proof -
  assume "ser_readdata16 s = Inr (x, rest)"
  then obtain bs where b: "s = bs @ rest" "length bs = 2" "x = ReadLE16 bs"
    by (auto simp: ser_readdata16_def rbind_eq_Inr read_bytes_Inr)
  have "le_bytes 2 x = bs" using b by (simp add: ReadLE16_def le_bytes_of_le_val)
  then show ?thesis using b by (simp add: ser_writedata16_def WriteLE16_def)
qed

lemma readdata32_canon:
  "ser_readdata32 s = Inr (x, rest) \<Longrightarrow> s = ser_writedata32 x @ rest"
proof -
  assume "ser_readdata32 s = Inr (x, rest)"
  then obtain bs where b: "s = bs @ rest" "length bs = 4" "x = ReadLE32 bs"
    by (auto simp: ser_readdata32_def rbind_eq_Inr read_bytes_Inr)
  have "le_bytes 4 x = bs" using b by (simp add: ReadLE32_def le_bytes_of_le_val)
  then show ?thesis using b by (simp add: ser_writedata32_def WriteLE32_def)
qed

lemma readdata64_canon:
  "ser_readdata64 s = Inr (x, rest) \<Longrightarrow> s = ser_writedata64 x @ rest"
proof -
  assume "ser_readdata64 s = Inr (x, rest)"
  then obtain bs where b: "s = bs @ rest" "length bs = 8" "x = ReadLE64 bs"
    by (auto simp: ser_readdata64_def rbind_eq_Inr read_bytes_Inr)
  have "le_bytes 8 x = bs" using b by (simp add: ReadLE64_def le_bytes_of_le_val)
  then show ?thesis using b by (simp add: ser_writedata64_def WriteLE64_def)
qed

lemma readdata8_canon: "ser_readdata8 s = Inr (x, rest) \<longleftrightarrow> s = x # rest"
  by (cases s) auto

subsection \<open>CompactSize\<close>

definition MAX_SIZE :: u64 where
  "MAX_SIZE = 0x02000000"

definition GetSizeOfCompactSize :: "u64 \<Rightarrow> nat" where
  "GetSizeOfCompactSize nSize =
    (if nSize < 253 then 1
     else if nSize \<le> 0xffff then 1 + 2
     else if nSize \<le> 0xffffffff then 1 + 4
     else 1 + 8)"

definition WriteCompactSize :: "u64 \<Rightarrow> bytes" where
  "WriteCompactSize nSize =
    (if nSize < 253 then ser_writedata8 (ucast nSize)
     else if nSize \<le> 0xffff then ser_writedata8 253 @ ser_writedata16 (ucast nSize)
     else if nSize \<le> 0xffffffff then ser_writedata8 254 @ ser_writedata32 (ucast nSize)
     else ser_writedata8 255 @ ser_writedata64 nSize)"

definition compact_checked :: "bool \<Rightarrow> u64 \<Rightarrow> u64 \<Rightarrow> u64 reader" where
  "compact_checked range_check least nSizeRet =
    (if nSizeRet < least then rfail NonCanonical
     else if range_check \<and> nSizeRet > MAX_SIZE then rfail SizeTooLarge
     else rret nSizeRet)"

definition ReadCompactSize :: "bool \<Rightarrow> u64 reader" where
  "ReadCompactSize range_check = rbind ser_readdata8 (\<lambda>chSize.
    if chSize < 253 then compact_checked range_check 0 (ucast chSize)
    else if chSize = 253 then
      rbind ser_readdata16 (\<lambda>n. compact_checked range_check 253 (ucast n))
    else if chSize = 254 then
      rbind ser_readdata32 (\<lambda>n. compact_checked range_check 0x10000 (ucast n))
    else rbind ser_readdata64 (\<lambda>n. compact_checked range_check 0x100000000 n))"

lemma compact_checked_Inr:
  "compact_checked rc l n s = Inr (m, rest) \<longleftrightarrow>
     m = n \<and> rest = s \<and> l \<le> n \<and> (rc \<longrightarrow> n \<le> MAX_SIZE)"
  by (auto simp: compact_checked_def)

lemma length_WriteCompactSize: "length (WriteCompactSize n) = GetSizeOfCompactSize n"
  by (simp add: WriteCompactSize_def GetSizeOfCompactSize_def ser_writedata8_def
      ser_writedata16_def ser_writedata32_def ser_writedata64_def)

lemma unat_eqI: "unat a = unat b \<Longrightarrow> a = (b :: 'a::len word)"
  by (rule unsigned_word_eqI)

lemma unat_u16_less [simp]: "unat (x :: u16) < 65536"
  using unsigned_less [of x] by simp

lemma ucast_down_up_u64:
  "unat (x :: u64) < 2 ^ LENGTH('a) \<Longrightarrow> LENGTH('a) \<le> 64 \<Longrightarrow>
     ucast (ucast x :: 'a::len word) = x"
  by (rule unat_eqI)
    (simp add: unsigned_ucast_eq unat_take_bit_mod)

lemma ReadCompactSize_rt [rt]:
  assumes "rc \<Longrightarrow> n \<le> MAX_SIZE"
  shows "ReadCompactSize rc (WriteCompactSize n @ rest) = Inr (n, rest)"
proof -
  have c: "compact_checked rc l n rest = Inr (n, rest)" if "l \<le> n" for l
    using assms that by (auto simp: compact_checked_Inr)
  show ?thesis
  proof (cases "n < 253")
    case True
    then have u: "ucast (ucast n :: u8) = n"
      by (intro ucast_down_up_u64) (simp_all add: word_less_nat_alt)
    have "(ucast n :: u8) < 253"
      using True by (simp add: word_less_nat_alt unsigned_ucast_eq take_bit_nat_eq_self)
    then show ?thesis using c [of 0] True u
      by (simp add: WriteCompactSize_def ReadCompactSize_def ser_writedata8_def)
  next
    case a: False
    show ?thesis
    proof (cases "n \<le> 0xffff")
      case True
      then have "ucast (ucast n :: u16) = n"
        by (intro ucast_down_up_u64) (simp_all add: word_le_nat_alt)
      then show ?thesis using c [of 253] True a
        by (simp add: WriteCompactSize_def ReadCompactSize_def ser_writedata8_def)
    next
      case b: False
      show ?thesis
      proof (cases "n \<le> 0xffffffff")
        case True
        then have u: "ucast (ucast n :: u32) = n"
          by (intro ucast_down_up_u64) (simp_all add: word_le_nat_alt)
        have "0x10000 \<le> n" using b by (simp add: word_le_nat_alt word_less_nat_alt)
        then show ?thesis using c [of "0x10000"] True a b u
          by (simp add: WriteCompactSize_def ReadCompactSize_def ser_writedata8_def)
      next
        case d: False
        have "0x100000000 \<le> n" using d by (simp add: word_le_nat_alt word_less_nat_alt)
        then show ?thesis using c [of "0x100000000"] a b d
          by (simp add: WriteCompactSize_def ReadCompactSize_def ser_writedata8_def)
      qed
    qed
  qed
qed

lemma u8_cases_compact: "(ch :: u8) < 253 \<or> ch = 253 \<or> ch = 254 \<or> ch = 255"
proof -
  have "unat ch < 253 \<or> unat ch = 253 \<or> unat ch = 254 \<or> unat ch = 255"
    using unat_u8_less [of ch] by linarith
  then show ?thesis by (auto simp: word_less_nat_alt intro!: unat_eqI)
qed

lemma ucast_up_down: "LENGTH('a::len) \<le> LENGTH('b::len) \<Longrightarrow> ucast (ucast (x :: 'a word) :: 'b word) = x"
proof -
  assume "LENGTH('a) \<le> LENGTH('b)"
  then have "unat x < 2 ^ LENGTH('b)"
    using unsigned_less [of x] by (meson one_le_numeral order_less_le_trans power_increasing)
  then show ?thesis by (intro unat_eqI) (simp add: unsigned_ucast_eq unat_take_bit_mod)
qed

lemma ReadCompactSize_canon:
  assumes "ReadCompactSize rc s = Inr (n, rest)"
  shows "s = WriteCompactSize n @ rest \<and> (rc \<longrightarrow> n \<le> MAX_SIZE)"
proof -
  obtain ch t where s: "s = ch # t"
    using assms by (cases s) (auto simp: ReadCompactSize_def)
  consider (a) "ch < 253" | (b) "ch = 253" | (c) "ch = 254" | (d) "ch = 255"
    using u8_cases_compact by blast
  then show ?thesis
  proof cases
    case a
    then have n: "n = ucast ch" "rest = t" "rc \<longrightarrow> n \<le> MAX_SIZE"
      using assms s by (auto simp: ReadCompactSize_def compact_checked_Inr)
    moreover have "n < 253" using a n(1) by (simp add: word_less_nat_alt)
    ultimately show ?thesis using s
      by (simp add: WriteCompactSize_def ser_writedata8_def ucast_up_down)
  next
    case b
    then obtain m where m: "ser_readdata16 t = Inr (m, rest)" "n = ucast m" "253 \<le> n" "rc \<longrightarrow> n \<le> MAX_SIZE"
      using assms s by (auto simp: ReadCompactSize_def rbind_eq_Inr compact_checked_Inr)
    have "n \<le> 0xffff" using unat_u16_less [of m] m(2)
      by (simp add: word_le_nat_alt unat_ucast_up del: unat_u16_less)
    moreover have "\<not> n < 253" using m(3) by simp
    ultimately show ?thesis using m readdata16_canon [OF m(1)] s b
      by (simp add: WriteCompactSize_def ser_writedata8_def ucast_up_down)
  next
    case c
    then obtain m where m: "ser_readdata32 t = Inr (m, rest)" "n = ucast m" "0x10000 \<le> n" "rc \<longrightarrow> n \<le> MAX_SIZE"
      using assms s by (auto simp: ReadCompactSize_def rbind_eq_Inr compact_checked_Inr)
    have "n \<le> 0xffffffff" "\<not> n \<le> 0xffff" "\<not> n < 253" using unat_u32_less [of m] m(2,3)
      by (simp_all add: word_le_nat_alt word_less_nat_alt unat_ucast_up)
    then show ?thesis using m readdata32_canon [OF m(1)] s c
      by (simp add: WriteCompactSize_def ser_writedata8_def ucast_up_down)
  next
    case d
    then have m: "ser_readdata64 t = Inr (n, rest)" "0x100000000 \<le> n" "rc \<longrightarrow> n \<le> MAX_SIZE"
      using assms s by (auto simp: ReadCompactSize_def rbind_eq_Inr compact_checked_Inr)
    have "\<not> n \<le> 0xffffffff" "\<not> n \<le> 0xffff" "\<not> n < 253" using m(2)
      by (simp_all add: word_le_nat_alt word_less_nat_alt)
    then show ?thesis using m readdata64_canon [OF m(1)] s d
      by (simp add: WriteCompactSize_def ser_writedata8_def)
  qed
qed

subsection \<open>VarInt\<close>

text \<open>
  The type \<^verbatim>\<open>I\<close> of the template is an unsigned type, or a signed one holding a non-negative
  value: the integer is a natural number, and the reader takes the largest value of \<^verbatim>\<open>I\<close>.
  The writer fills \<^verbatim>\<open>tmp\<close> from the last byte to the first, so its loop builds the list back to
  front.
\<close>

fun GetSizeOfVarInt :: "nat \<Rightarrow> nat" where
  "GetSizeOfVarInt n = (if n \<le> 0x7f then 1 else 1 + GetSizeOfVarInt (n div 128 - 1))"

fun varint_tmp :: "nat \<Rightarrow> bytes \<Rightarrow> bytes" where
  "varint_tmp n tmp =
    (let b = (word_of_nat n AND 0x7f) OR (if tmp \<noteq> [] then 0x80 else 0x00)
     in if n \<le> 0x7f then b # tmp else varint_tmp (n div 128 - 1) (b # tmp))"

definition WriteVarInt :: "nat \<Rightarrow> bytes" where
  "WriteVarInt n = varint_tmp n []"

fun read_varint :: "nat \<Rightarrow> nat \<Rightarrow> nat reader" where
  "read_varint mx n [] = Inl EndOfData"
| "read_varint mx n (chData # s) =
    (if n > mx div 128 then Inl VarIntTooLarge
     else let n' = n * 128 + unat (chData AND 0x7f) in
       if chData AND 0x80 \<noteq> 0
       then if n' = mx then Inl VarIntTooLarge else read_varint mx (n' + 1) s
       else Inr (n', s))"

definition ReadVarInt :: "nat \<Rightarrow> nat reader" where
  "ReadVarInt mx = read_varint mx 0"

declare GetSizeOfVarInt.simps [simp del] varint_tmp.simps [simp del]

lemma byte_low7: "unat (b AND 0x7f :: u8) = unat b mod 128"
proof -
  have "b AND 0x7f = take_bit 7 b" by (simp add: take_bit_eq_mask mask_eq_exp_minus_1)
  then show ?thesis by (simp add: unat_take_bit_mod)
qed

definition low7 :: "nat \<Rightarrow> bool \<Rightarrow> u8" where
  "low7 n c = (word_of_nat n AND 0x7f) OR (if c then 0x80 else 0x00)"

lemma low7_low: "unat (low7 n c AND 0x7f) = n mod 128"
proof -
  have "low7 n c AND 0x7f = word_of_nat n AND (0x7f :: u8)"
    by (auto simp: low7_def bit.conj_disj_distrib2 and.assoc)
  then show ?thesis
    by (simp add: byte_low7 unsigned_of_nat take_bit_eq_mod mod_mod_cancel)
qed

lemma low7_high: "low7 n c AND 0x80 \<noteq> 0 \<longleftrightarrow> c"
proof -
  have "low7 n c AND 0x80 = (if c then 0x80 else 0)"
    by (auto simp: low7_def bit.conj_disj_distrib2 and.assoc)
  then show ?thesis by simp
qed

lemma low7_unique:
  assumes "unat (b AND 0x7f) = n mod 128" "c \<longleftrightarrow> b AND 0x80 \<noteq> 0"
  shows "low7 n c = b"
proof -
  have "unat (word_of_nat n AND 0x7f :: u8) = unat (b AND 0x7f)"
    using assms(1) by (simp add: byte_low7 unsigned_of_nat take_bit_eq_mod mod_mod_cancel)
  then have l: "word_of_nat n AND 0x7f = b AND (0x7f :: u8)" by (rule unat_eqI)
  have "b AND 0x80 = (if bit b 7 then 0x80 else 0)"
    by (rule bit_eqI) (auto simp: bit_simps bit_numeral_rec bit_1_iff numeral_eq_Suc less_Suc_eq)
  then have h: "(if c then 0x80 else 0x00) = b AND (0x80 :: u8)" using assms(2) by auto
  have "(b AND 0x7f) OR (b AND 0x80) = b AND (0xff :: u8)" by (simp flip: bit.conj_disj_distrib)
  also have "\<dots> = b" using take_bit_word_eq_self [of 8 b]
    by (simp add: take_bit_eq_mask mask_eq_exp_minus_1)
  finally show ?thesis unfolding low7_def l h .
qed

lemma varint_tmp_rec:
  "varint_tmp n tmp = (if n \<le> 127 then low7 n (tmp \<noteq> []) # tmp
     else varint_tmp (n div 128 - 1) (low7 n (tmp \<noteq> []) # tmp))"
  by (subst varint_tmp.simps) (simp add: low7_def Let_def)

lemma read_varint_step:
  "n \<le> mx div 128 \<Longrightarrow> read_varint mx n (low7 m c # s) =
     (let n' = n * 128 + m mod 128 in
      if c then if n' = mx then Inl VarIntTooLarge else read_varint mx (n' + 1) s else Inr (n', s))"
  by (simp add: low7_low low7_high Let_def)

declare read_varint.simps(2) [simp del]

lemma varint_continue:
  "n < mx \<Longrightarrow> tmp \<noteq> [] \<Longrightarrow>
     read_varint mx 0 (varint_tmp n tmp @ rest) = read_varint mx (n + 1) (tmp @ rest)"
proof (induction n arbitrary: tmp rule: less_induct)
  case (less n)
  show ?case
  proof (cases "n \<le> 127")
    case True
    then show ?thesis using less.prems
      by (simp add: varint_tmp_rec [of n] read_varint_step Let_def)
  next
    case False
    let ?m = "n div 128 - 1" and ?b = "low7 n True"
    have m: "?m < n" "?m + 1 = n div 128" using False by auto
    have "read_varint mx 0 (varint_tmp n tmp @ rest) = read_varint mx (n div 128) ((?b # tmp) @ rest)"
      using less.IH [of ?m "?b # tmp"] m less.prems False by (simp add: varint_tmp_rec [of n])
    also have "\<dots> = read_varint mx (n + 1) (tmp @ rest)"
      using less.prems div_le_mono [of n mx 128] by (simp add: read_varint_step Let_def)
    finally show ?thesis .
  qed
qed

lemma ReadVarInt_rt [rt]:
  assumes "n \<le> mx"
  shows "ReadVarInt mx (WriteVarInt n @ rest) = Inr (n, rest)"
proof (cases "n \<le> 127")
  case True
  then show ?thesis
    by (simp add: ReadVarInt_def WriteVarInt_def varint_tmp_rec [of n] read_varint_step Let_def)
next
  case False
  let ?m = "n div 128 - 1"
  have "?m < mx" "?m + 1 = n div 128" using False assms by auto
  then have "ReadVarInt mx (WriteVarInt n @ rest) = read_varint mx (n div 128) ([low7 n False] @ rest)"
    using varint_continue [of ?m mx "[low7 n False]" rest] False
    by (simp add: ReadVarInt_def WriteVarInt_def varint_tmp_rec [of n])
  then show ?thesis
    using assms div_le_mono [of n mx 128] by (simp add: read_varint_step Let_def)
qed

lemma read_varint_canon:
  assumes mx: "mx mod 128 = 127"
  shows "read_varint mx m s = Inr (n, rest) \<Longrightarrow>
     \<exists>bs. s = bs @ rest \<and> n \<le> mx \<and> bs \<noteq> [] \<and>
       WriteVarInt n = (if m = 0 then bs else varint_tmp (m - 1) bs)"
proof (induction s arbitrary: m)
  case (Cons ch s)
  let ?n = "m * 128 + unat (ch AND 0x7f)"
  have le: "m \<le> mx div 128" using Cons.prems(1) by (simp add: read_varint.simps split: if_splits)
  have low: "unat (ch AND 0x7f) < 128" by (simp add: byte_low7)
  have dm: "?n div 128 = m" "?n mod 128 = unat (ch AND 0x7f)" using low by simp_all
  have "mx = mx div 128 * 128 + 127" using mx div_mult_mod_eq [of mx 128] by simp
  then have nle: "?n \<le> mx" using mult_le_mono1 [OF le, of 128] low by linarith
  have step: "varint_tmp ?n tmp = (if m = 0 then ch # tmp else varint_tmp (m - 1) (ch # tmp))"
    if "tmp \<noteq> [] \<longleftrightarrow> ch AND 0x80 \<noteq> 0" for tmp
  proof -
    have "low7 ?n (tmp \<noteq> []) = ch" using that dm by (intro low7_unique) auto
    then show ?thesis using dm low by (subst varint_tmp_rec) auto
  qed
  show ?case
  proof (cases "ch AND 0x80 = 0")
    case True
    then have n: "n = ?n" "rest = s" using Cons.prems le by (auto simp: read_varint.simps Let_def)
    then show ?thesis using nle step [of "[]"] True
      by (intro exI [of _ "[ch]"]) (simp add: WriteVarInt_def)
  next
    case False
    then have "read_varint mx (?n + 1) s = Inr (n, rest)"
      using Cons.prems le by (auto simp: read_varint.simps Let_def split: if_splits)
    from Cons.IH [OF this] obtain bs where
      b: "s = bs @ rest" "n \<le> mx" "bs \<noteq> []" "WriteVarInt n = varint_tmp ?n bs" by auto
    then show ?thesis using step [of bs] False
      by (intro exI [of _ "ch # bs"]) simp
  qed
qed simp

lemma ReadVarInt_canon:
  "mx mod 128 = 127 \<Longrightarrow> ReadVarInt mx s = Inr (n, rest) \<Longrightarrow> s = WriteVarInt n @ rest \<and> n \<le> mx"
  using read_varint_canon [of mx 0 s n rest] by (auto simp: ReadVarInt_def)

lemma length_varint_tmp: "length (varint_tmp n tmp) = GetSizeOfVarInt n + length tmp"
  by (induction n arbitrary: tmp rule: GetSizeOfVarInt.induct)
    (subst varint_tmp_rec, subst GetSizeOfVarInt.simps, simp)

lemma length_WriteVarInt: "length (WriteVarInt n) = GetSizeOfVarInt n"
  by (simp add: WriteVarInt_def length_varint_tmp)

subsection \<open>The contract of a serializable type\<close>

text \<open>
  The loop of \<^verbatim>\<open>VectorFormatter\<close> reads the elements one after the other; its allocation batches
  only bound the memory reserved ahead of the data.  A byte vector is read in blocks of at most
  5,000,000 bytes.
\<close>

primrec read_elems :: "'a reader \<Rightarrow> nat \<Rightarrow> 'a list reader" where
  "read_elems unser 0 = rret []"
| "read_elems unser (Suc n) =
    rbind unser (\<lambda>x. rbind (read_elems unser n) (\<lambda>xs. rret (x # xs)))"

definition ser_vector :: "('a \<Rightarrow> bytes) \<Rightarrow> 'a list \<Rightarrow> bytes" where
  "ser_vector ser v = WriteCompactSize (word_of_nat (length v)) @ concat (map ser v)"

definition unser_vector :: "'a reader \<Rightarrow> 'a list reader" where
  "unser_vector unser = rbind (ReadCompactSize True) (\<lambda>n. read_elems unser (unat n))"

function read_blocks :: "nat \<Rightarrow> bytes reader" where
  "read_blocks n = (if n = 0 then rret []
     else let blk = min n (1 + 4999999) in
       rbind (read_bytes blk) (\<lambda>bs. rbind (read_blocks (n - blk)) (\<lambda>r. rret (bs @ r))))"
  by auto
termination by (relation "measure id") auto

declare read_blocks.simps [simp del]

definition ser_byte_vector :: "bytes \<Rightarrow> bytes" where
  "ser_byte_vector v = WriteCompactSize (word_of_nat (length v)) @ v"

definition unser_byte_vector :: "bytes reader" where
  "unser_byte_vector = rbind (ReadCompactSize True) (\<lambda>n. read_blocks (unat n))"

definition ser_pair :: "('a \<Rightarrow> bytes) \<Rightarrow> ('b \<Rightarrow> bytes) \<Rightarrow> 'a \<times> 'b \<Rightarrow> bytes" where
  "ser_pair sa sb item = sa (fst item) @ sb (snd item)"

definition unser_pair :: "'a reader \<Rightarrow> 'b reader \<Rightarrow> ('a \<times> 'b) reader" where
  "unser_pair ua ub = rbind ua (\<lambda>a. rbind ub (\<lambda>b. rret (a, b)))"

lemma MAX_SIZE_unat [simp]: "unat MAX_SIZE = 33554432"
  by (simp add: MAX_SIZE_def)

lemma compact_length:
  "length v \<le> unat MAX_SIZE \<Longrightarrow> unat (word_of_nat (length v) :: u64) = length v"
  by (simp add: unsigned_of_nat take_bit_nat_eq_self)

lemma compact_length_rt:
  assumes "length v \<le> unat MAX_SIZE"
  shows "ReadCompactSize True (WriteCompactSize (word_of_nat (length v)) @ rest)
    = Inr (word_of_nat (length v), rest)"
  using assms compact_length [OF assms]
  by (intro ReadCompactSize_rt) (simp add: word_le_nat_alt)

locale codec =
  fixes ok :: "'a \<Rightarrow> bool" and ser :: "'a \<Rightarrow> bytes" and unser :: "bytes \<Rightarrow> ser_error + 'a \<times> bytes"
  assumes round_trip: "ok x \<Longrightarrow> unser (ser x @ rest) = Inr (x, rest)"
begin

lemma prefix_free: "ok x \<Longrightarrow> ok y \<Longrightarrow> ser x @ r = ser y @ t \<Longrightarrow> x = y \<and> r = t"
  by (metis Inr_inject Pair_inject round_trip)

lemma read_elems_rt:
  "list_all ok xs \<Longrightarrow> read_elems unser (length xs) (concat (map ser xs) @ rest) = Inr (xs, rest)"
  by (induction xs) (simp_all add: round_trip)

lemma vector_rt:
  "list_all ok v \<Longrightarrow> length v \<le> unat MAX_SIZE \<Longrightarrow>
     unser_vector unser (ser_vector ser v @ rest) = Inr (v, rest)"
proof -
  assume a: "list_all ok v" "length v \<le> unat MAX_SIZE"
  show ?thesis
    unfolding unser_vector_def ser_vector_def append_assoc
      rbind_Inr [of "ReadCompactSize True", OF compact_length_rt [OF a(2)]] compact_length [OF a(2)]
    by (rule read_elems_rt [OF a(1)])
qed

end

text \<open>A codec whose reader accepts no other bytes than the ones its writer produces.\<close>

locale canonical_codec = codec +
  assumes canonical: "unser s = Inr (x, rest) \<Longrightarrow> ok x \<and> s = ser x @ rest"
begin

lemma accepts_iff: "unser s = Inr (x, rest) \<longleftrightarrow> ok x \<and> s = ser x @ rest"
  using canonical round_trip by blast

lemma read_elems_canonical:
  "read_elems unser n s = Inr (xs, rest) \<Longrightarrow>
     length xs = n \<and> list_all ok xs \<and> s = concat (map ser xs) @ rest"
  by (induction n arbitrary: s xs) (auto simp: rbind_eq_Inr dest!: canonical)

lemma vector_canonical:
  assumes "unser_vector unser s = Inr (v, rest)"
  shows "list_all ok v \<and> length v \<le> unat MAX_SIZE \<and> s = ser_vector ser v @ rest"
proof -
  obtain n t where n: "ReadCompactSize True s = Inr (n, t)" "read_elems unser (unat n) t = Inr (v, rest)"
    using assms by (auto simp: unser_vector_def rbind_eq_Inr)
  from ReadCompactSize_canon [OF n(1)] read_elems_canonical [OF n(2)]
  show ?thesis by (auto simp: ser_vector_def word_le_nat_alt)
qed

end

locale codec_pair = a: codec oka sera unsera + b: codec okb serb unserb
  for oka :: "'a \<Rightarrow> bool" and sera unsera and okb :: "'b \<Rightarrow> bool" and serb unserb
begin

lemma pair_rt:
  "oka (fst p) \<Longrightarrow> okb (snd p) \<Longrightarrow>
     unser_pair unsera unserb (ser_pair sera serb p @ rest) = Inr (p, rest)"
  by (simp add: unser_pair_def ser_pair_def a.round_trip b.round_trip)

end

lemma read_bytes_split:
  assumes "b \<le> n"
  shows "rbind (read_bytes b) (\<lambda>bs. rbind (read_bytes (n - b)) (\<lambda>r. rret (bs @ r))) s = read_bytes n s"
proof (cases "n \<le> length s")
  case True
  have "take n s = take b s @ take (n - b) (drop b s)"
    using assms by (metis le_add_diff_inverse take_add)
  then show ?thesis using assms True by (simp add: rbind_def read_bytes_def)
next
  case False
  then show ?thesis using assms by (auto simp: rbind_def read_bytes_def)
qed

lemma read_blocks_eq: "read_blocks n = read_bytes n"
proof (induction n rule: read_blocks.induct)
  case (1 n)
  show ?case
  proof (cases "n = 0")
    case True
    then show ?thesis by (simp add: fun_eq_iff read_blocks.simps read_bytes_def)
  next
    case False
    let ?b = "min n (1 + 4999999)"
    have ih: "read_blocks (n - ?b) = read_bytes (n - ?b)" using 1 [OF False refl] .
    show ?thesis
      using False by (subst read_blocks.simps) (simp only: Let_def if_False ih fun_eq_iff
        read_bytes_split [OF min.cobounded1] simp_thms)
  qed
qed

lemma byte_vector_rt [rt]:
  "length v \<le> unat MAX_SIZE \<Longrightarrow> unser_byte_vector (ser_byte_vector v @ rest) = Inr (v, rest)"
proof -
  assume a: "length v \<le> unat MAX_SIZE"
  show ?thesis
    unfolding unser_byte_vector_def ser_byte_vector_def append_assoc read_blocks_eq
      rbind_Inr [of "ReadCompactSize True", OF compact_length_rt [OF a]] compact_length [OF a]
    by (rule read_bytes_append [OF refl])
qed

lemma byte_vector_canonical:
  assumes "unser_byte_vector s = Inr (v, rest)"
  shows "length v \<le> unat MAX_SIZE \<and> s = ser_byte_vector v @ rest"
proof -
  obtain n t where n: "ReadCompactSize True s = Inr (n, t)" "read_bytes (unat n) t = Inr (v, rest)"
    using assms by (auto simp: unser_byte_vector_def rbind_eq_Inr read_blocks_eq)
  have t: "t = v @ rest" "length v = unat n" using n(2) by (simp_all only: read_bytes_Inr)
  then have w: "word_of_nat (length v) = n" by simp
  have c: "s = WriteCompactSize n @ t" "n \<le> MAX_SIZE" using ReadCompactSize_canon [OF n(1)] by blast+
  have "length v \<le> unat MAX_SIZE" using c(2) by (simp only: word_le_nat_alt t(2))
  then show ?thesis by (simp only: ser_byte_vector_def w c(1) t(1) append_assoc simp_thms)
qed

interpretation u8c: canonical_codec "\<lambda>_. True" ser_writedata8 ser_readdata8
  by unfold_locales (simp_all add: ser_writedata8_def readdata8_canon)

interpretation u16c: canonical_codec "\<lambda>_. True" ser_writedata16 ser_readdata16
  by unfold_locales (simp_all add: readdata16_canon)

interpretation u32c: canonical_codec "\<lambda>_. True" ser_writedata32 ser_readdata32
  by unfold_locales (simp_all add: readdata32_canon)

interpretation u64c: canonical_codec "\<lambda>_. True" ser_writedata64 ser_readdata64
  by unfold_locales (simp_all add: readdata64_canon)

interpretation u16be: codec "\<lambda>_. True" ser_writedata16be ser_readdata16be
  by unfold_locales simp

interpretation u32be: codec "\<lambda>_. True" ser_writedata32be ser_readdata32be
  by unfold_locales simp

interpretation csize: canonical_codec "\<lambda>n. n \<le> MAX_SIZE" WriteCompactSize "ReadCompactSize True"
  by unfold_locales (simp_all add: ReadCompactSize_rt ReadCompactSize_canon)

interpretation cnumber: canonical_codec "\<lambda>_. True" WriteCompactSize "ReadCompactSize False"
  by unfold_locales (simp_all add: ReadCompactSize_rt ReadCompactSize_canon)

interpretation varint64: canonical_codec "\<lambda>n. n \<le> 2 ^ 64 - 1" WriteVarInt "ReadVarInt (2 ^ 64 - 1)"
  by unfold_locales (simp_all only: ReadVarInt_rt, use ReadVarInt_canon [of "2 ^ 64 - 1"] in simp)

interpretation varint32: canonical_codec "\<lambda>n. n \<le> 2 ^ 32 - 1" WriteVarInt "ReadVarInt (2 ^ 32 - 1)"
  by unfold_locales (simp_all only: ReadVarInt_rt, use ReadVarInt_canon [of "2 ^ 32 - 1"] in simp)

interpretation bvec: canonical_codec "\<lambda>v. length v \<le> unat MAX_SIZE" ser_byte_vector unser_byte_vector
  by unfold_locales (rule byte_vector_rt, assumption, rule byte_vector_canonical)

subsection \<open>Bit sets of a fixed sz\<close>

definition GetSizeOfFixedBitSet :: "nat \<Rightarrow> nat" where
  "GetSizeOfFixedBitSet sz = (sz + 7) div 8"

definition or_bit :: "bool list \<Rightarrow> bytes \<Rightarrow> nat \<Rightarrow> bytes" where
  "or_bit vec vBytes p =
     vBytes[p div 8 := vBytes ! (p div 8) OR push_bit (p mod 8) (of_bool (vec ! p))]"

definition WriteFixedBitSet :: "bool list \<Rightarrow> nat \<Rightarrow> bytes" where
  "WriteFixedBitSet vec sz =
     foldl (or_bit vec) (replicate ((sz + 7) div 8) 0) [0..<min sz (length vec)]"

definition ReadFixedBitSet :: "nat \<Rightarrow> bool list reader" where
  "ReadFixedBitSet sz = rbind (read_bytes ((sz + 7) div 8)) (\<lambda>vBytes.
     let vec = map (\<lambda>p. vBytes ! (p div 8) AND push_bit (p mod 8) 1 \<noteq> 0) [0..<sz] in
     if length vBytes * 8 \<noteq> sz
     then let rem = length vBytes * 8 - sz; m = NOT (drop_bit rem (0xff :: u8)) in
       if vBytes ! (length vBytes - 1) AND m \<noteq> 0 then rfail OutOfRangeBits else rret vec
     else rret vec)"

lemma bytes_eqI:
  "length xs = length ys \<Longrightarrow> (\<And>k j. k < length ys \<Longrightarrow> j < 8 \<Longrightarrow> bit (xs ! k) j = bit (ys ! k) j) \<Longrightarrow>
     xs = (ys :: bytes)"
  by (rule nth_equalityI, assumption) (rule bit_word_eqI, simp)

lemma length_or_bit [simp]: "length (or_bit vec vb q) = length vb"
  by (simp add: or_bit_def)

lemma or_bit_fold:
  assumes "q \<le> 8 * n" "q \<le> length vec"
  shows "length (foldl (or_bit vec) (replicate n 0) [0..<q]) = n \<and>
    (\<forall>k<n. \<forall>j<8. bit (foldl (or_bit vec) (replicate n 0) [0..<q] ! k) j
       \<longleftrightarrow> 8 * k + j < q \<and> vec ! (8 * k + j))"
  using assms
proof (induction q)
  case (Suc q)
  let ?v = "foldl (or_bit vec) (replicate n 0) [0..<q]"
  have ih: "length ?v = n" "\<And>k j. k < n \<Longrightarrow> j < 8 \<Longrightarrow> bit (?v ! k) j \<longleftrightarrow> 8 * k + j < q \<and> vec ! (8 * k + j)"
    using Suc by auto
  have q: "q div 8 < n" using Suc.prems by linarith
  have "bit (or_bit vec ?v q ! k) j \<longleftrightarrow> 8 * k + j < Suc q \<and> vec ! (8 * k + j)" if k: "k < n" "j < 8" for k j
  proof (cases "k = q div 8")
    case True
    have "bit (or_bit vec ?v q ! k) j \<longleftrightarrow> bit (?v ! k) j \<or> (j = q mod 8 \<and> vec ! q)"
      using True q ih(1) k(2) by (auto simp: or_bit_def bit_simps)
    moreover have "j = q mod 8 \<longleftrightarrow> 8 * k + j = q"
      using True mult_div_mod_eq [of 8 q] by (intro iffI) linarith+
    ultimately show ?thesis using ih(2) [OF k] by (auto simp: less_Suc_eq)
  next
    case False
    then have "8 * k + j \<noteq> q" using k by auto
    then show ?thesis using False ih(2) [OF k] by (auto simp: or_bit_def less_Suc_eq)
  qed
  then show ?case using ih(1) by simp
qed simp

lemma bitset_fits: "(sz :: nat) \<le> 8 * ((sz + 7) div 8)"
  by linarith

lemma WriteFixedBitSet_bits:
  assumes "length vec = sz"
  shows "length (WriteFixedBitSet vec sz) = (sz + 7) div 8"
    "k < (sz + 7) div 8 \<Longrightarrow> j < 8 \<Longrightarrow>
       bit (WriteFixedBitSet vec sz ! k) j \<longleftrightarrow> 8 * k + j < sz \<and> vec ! (8 * k + j)"
  using or_bit_fold [OF bitset_fits, of sz vec] assms by (simp_all add: WriteFixedBitSet_def)

lemma pad_mask:
  "j < 8 \<Longrightarrow> bit (NOT (drop_bit rem (0xff :: u8))) j \<longleftrightarrow> 8 \<le> rem + j"
proof -
  assume j: "j < 8"
  have "(0xff :: u8) = mask 8" by (simp add: mask_eq_exp_minus_1)
  show ?thesis using j unfolding \<open>0xff = mask 8\<close> by (auto simp: bit_simps)
qed

lemma padding_clear:
  "(b AND NOT (drop_bit rem (0xff :: u8)) = 0) \<longleftrightarrow> (\<forall>j<8. 8 \<le> rem + j \<longrightarrow> \<not> bit b j)"
  using pad_mask by (auto simp: bit_eq_iff bit_and_iff)

lemma bitset_accept:
  "ReadFixedBitSet sz s = Inr (vec, rest) \<longleftrightarrow>
    (\<exists>vb. s = vb @ rest \<and> length vb = (sz + 7) div 8 \<and>
      vec = map (\<lambda>p. bit (vb ! (p div 8)) (p mod 8)) [0..<sz] \<and>
      (length vb * 8 \<noteq> sz \<longrightarrow>
        vb ! (length vb - 1) AND NOT (drop_bit (length vb * 8 - sz) 0xff) = 0))"
  unfolding ReadFixedBitSet_def rbind_eq_Inr read_bytes_Inr Let_def bit_iff_and_push_bit_not_eq_0
  by (auto split: if_splits)

lemma bitset_bytes: "8 * (((sz :: nat) + 7) div 8) \<le> sz + 7" "sz + 7 < 8 * ((sz + 7) div 8) + 8"
  by linarith+

lemma pad_position:
  assumes "k < ((sz :: nat) + 7) div 8" "j < 8" "sz \<le> 8 * k + j"
  shows "k = (sz + 7) div 8 - 1" "(sz + 7) div 8 * 8 \<noteq> sz"
    "8 \<le> (sz + 7) div 8 * 8 - sz + j"
proof -
  define n where "n = (sz + 7) div 8"
  have b: "8 * n \<le> sz + 7" "sz + 7 < 8 * n + 8" "k < n"
    using bitset_bytes [of sz] assms(1) by (simp_all only: n_def)
  show "k = (sz + 7) div 8 - 1" unfolding n_def [symmetric] using b assms by linarith
  show "(sz + 7) div 8 * 8 \<noteq> sz" unfolding n_def [symmetric] using b assms by linarith
  show "8 \<le> (sz + 7) div 8 * 8 - sz + j" unfolding n_def [symmetric] using b assms by linarith
qed

lemma pad_last:
  assumes "((sz :: nat) + 7) div 8 * 8 \<noteq> sz" "8 \<le> (sz + 7) div 8 * 8 - sz + j"
  shows "(sz + 7) div 8 - 1 < (sz + 7) div 8" "\<not> 8 * ((sz + 7) div 8 - 1) + j < sz"
proof -
  define n where "n = (sz + 7) div 8"
  have b: "8 * n \<le> sz + 7" "sz + 7 < 8 * n + 8" "n * 8 \<noteq> sz" "8 \<le> n * 8 - sz + j"
    unfolding n_def using bitset_bytes [of sz] assms by blast+
  show "(sz + 7) div 8 - 1 < (sz + 7) div 8" unfolding n_def [symmetric] using b by linarith
  show "\<not> 8 * ((sz + 7) div 8 - 1) + j < sz" unfolding n_def [symmetric] using b by linarith
qed

lemma FixedBitSet_rt [rt]:
  assumes "length vec = sz"
  shows "ReadFixedBitSet sz (WriteFixedBitSet vec sz @ rest) = Inr (vec, rest)"
proof -
  let ?vb = "WriteFixedBitSet vec sz"
  note b = WriteFixedBitSet_bits [OF assms]
  have c: "vec = map (\<lambda>p. bit (?vb ! (p div 8)) (p mod 8)) [0..<sz]"
  proof (rule nth_equalityI)
    fix p assume "p < length vec"
    then have "p < sz" "p div 8 < (sz + 7) div 8" using assms by auto
    then show "vec ! p = map (\<lambda>p. bit (?vb ! (p div 8)) (p mod 8)) [0..<sz] ! p"
      using b(2) [of "p div 8" "p mod 8"] by simp
  qed (simp add: assms)
  have d: "\<not> bit (?vb ! (length ?vb - 1)) j"
    if "length ?vb * 8 \<noteq> sz" "j < 8" "8 \<le> length ?vb * 8 - sz + j" for j
  proof -
    have "length ?vb - 1 < (sz + 7) div 8" "\<not> 8 * (length ?vb - 1) + j < sz"
      using pad_last that(1,3) unfolding b(1) by blast+
    then show ?thesis using b(2) that(2) by simp
  qed
  show ?thesis unfolding bitset_accept padding_clear
    by (intro exI [of _ ?vb] conjI impI allI refl) (rule b(1) c d | assumption)+
qed

lemma FixedBitSet_canonical:
  assumes "ReadFixedBitSet sz s = Inr (vec, rest)"
  shows "length vec = sz \<and> s = WriteFixedBitSet vec sz @ rest"
proof -
  obtain vb where v: "s = vb @ rest" "length vb = (sz + 7) div 8"
      "vec = map (\<lambda>p. bit (vb ! (p div 8)) (p mod 8)) [0..<sz]"
      "length vb * 8 \<noteq> sz \<Longrightarrow> \<forall>j<8. 8 \<le> length vb * 8 - sz + j \<longrightarrow> \<not> bit (vb ! (length vb - 1)) j"
    using assms unfolding bitset_accept padding_clear by blast
  have l: "length vec = sz" using v(3) by simp
  note b = WriteFixedBitSet_bits [OF l]
  have "vb = WriteFixedBitSet vec sz"
  proof (rule bytes_eqI)
    fix k j :: nat assume k: "k < length (WriteFixedBitSet vec sz)" "j < 8"
    have k': "k < (sz + 7) div 8" using k(1) unfolding b(1) .
    show "bit (vb ! k) j = bit (WriteFixedBitSet vec sz ! k) j"
    proof (cases "8 * k + j < sz")
      case True
      then have "vec ! (8 * k + j) = bit (vb ! k) j" using k(2) by (simp add: v(3))
      then show ?thesis using True b(2) [OF k' k(2)] by simp
    next
      case False
      then have "\<not> bit (vb ! k) j"
        using pad_position [OF k' k(2)] v(2,4) k(2) by auto
      then show ?thesis using False b(2) [OF k' k(2)] by simp
    qed
  qed (simp add: v(2) b(1))
  then show ?thesis using v(1) l by blast
qed

interpretation bitset: canonical_codec "\<lambda>v. length v = sz" "\<lambda>v. WriteFixedBitSet v sz" "ReadFixedBitSet sz"
  for sz
  by unfold_locales (rule FixedBitSet_rt, assumption, rule FixedBitSet_canonical)

subsection \<open>Bit sets as a series of offsets\<close>

text \<open>
  \<^verbatim>\<open>last\<close> and \<^verbatim>\<open>idx\<close> are \<^verbatim>\<open>int32_t\<close>; the sum \<^verbatim>\<open>last + offset\<close> with an unsigned offset is computed modulo
  \<open>2^32\<close> and converted back to \<^verbatim>\<open>int32_t\<close>.  \<^verbatim>\<open>vec[idx] = true\<close> with a negative index writes outside the
  vector.
\<close>

fun varints_of_bits :: "int \<Rightarrow> int \<Rightarrow> bool list \<Rightarrow> bytes" where
  "varints_of_bits lst i [] = WriteVarInt 0"
| "varints_of_bits lst i (b # bs) =
    (if b then WriteVarInt (unat (word_of_int (i - lst) :: u32)) @ varints_of_bits i (i + 1) bs
     else varints_of_bits lst (i + 1) bs)"

definition WriteFixedVarIntsBitSet :: "bool list \<Rightarrow> bytes" where
  "WriteFixedVarIntsBitSet vec = varints_of_bits (-1) 0 vec"

definition next_index :: "int \<Rightarrow> nat \<Rightarrow> int" where
  "next_index lst offset = sint (word_of_int lst + word_of_nat offset :: u32)"

lemma read_varint_shorter: "read_varint mx n s = Inr (x, s') \<Longrightarrow> length s' < length s"
  by (induction s arbitrary: n) (fastforce simp: read_varint.simps Let_def split: if_splits)+

lemma ReadVarInt_shorter: "ReadVarInt mx s = Inr (x, s') \<Longrightarrow> length s' < length s"
  by (simp add: ReadVarInt_def read_varint_shorter)

function bits_of_varints :: "nat \<Rightarrow> int \<Rightarrow> bool list \<Rightarrow> bool list reader" where
  "bits_of_varints sz lst vec s =
    (case ReadVarInt (2 ^ 32 - 1) s of Inl e \<Rightarrow> Inl e
     | Inr (offset, s') \<Rightarrow>
        if offset = 0 then Inr (vec, s')
        else let idx = next_index lst offset in
          if idx \<ge> sint (word_of_nat sz :: u32) then Inl IndexOutOfBounds
          else if lst \<noteq> -1 \<and> idx \<le> lst then Inl OffsetOverflow
          else if idx < 0 then Inl OutOfBoundsWrite
          else bits_of_varints sz idx (vec[nat idx := True]) s')"
  by auto
termination
  by (relation "measure (\<lambda>(_, _, _, s). length s)") (auto dest!: ReadVarInt_shorter)

declare bits_of_varints.simps [simp del]

definition ReadFixedVarIntsBitSet :: "nat \<Rightarrow> bool list reader" where
  "ReadFixedVarIntsBitSet sz = bits_of_varints sz (-1) (replicate sz False)"

definition WriteAutoBitSet :: "bool list \<Rightarrow> bytes" where
  "WriteAutoBitSet vec =
    (let size1 = length (WriteFixedBitSet vec (length vec));
         size2 = length (WriteFixedVarIntsBitSet vec)
     in if size1 < size2 then ser_writedata8 0 @ WriteFixedBitSet vec (length vec)
        else ser_writedata8 1 @ WriteFixedVarIntsBitSet vec)"

definition ReadAutoBitSet :: "nat \<Rightarrow> bool list reader" where
  "ReadAutoBitSet sz = rbind ser_readdata8 (\<lambda>isVarInts.
     if isVarInts \<noteq> 0 \<and> isVarInts \<noteq> 1 then rfail BadBitSetTag
     else if isVarInts = 0 then ReadFixedBitSet sz
     else ReadFixedVarIntsBitSet sz)"

definition DynamicBitSet_Ser :: "bool list \<Rightarrow> bytes" where
  "DynamicBitSet_Ser vec = WriteCompactSize (word_of_nat (length vec)) @ WriteFixedBitSet vec (length vec)"

definition DynamicBitSet_Unser :: "bool list reader" where
  "DynamicBitSet_Unser = rbind (ReadCompactSize True) (\<lambda>n. ReadFixedBitSet (unat n))"

lemma sint_u32_of_int: "- (2 ^ 31) \<le> k \<Longrightarrow> k < 2 ^ 31 \<Longrightarrow> sint (word_of_int k :: u32) = k"
  by (simp add: signed_of_int signed_take_bit_int_eq_self)

lemma int_unat_u32_of_int: "0 \<le> k \<Longrightarrow> k < 2 ^ 32 \<Longrightarrow> int (unat (word_of_int k :: u32)) = k"
  by (simp add: unsigned_of_int take_bit_int_eq_self)

lemma next_index_add:
  "- (2 ^ 31) \<le> lst + int offset \<Longrightarrow> lst + int offset < 2 ^ 31 \<Longrightarrow> next_index lst offset = lst + int offset"
  using sint_u32_of_int [of "lst + int offset"] by (simp add: next_index_def)

lemma bits_of_varints_step:
  "ReadVarInt (2 ^ 32 - 1) s = Inr (offset, s') \<Longrightarrow> offset \<noteq> 0 \<Longrightarrow> next_index lst offset = idx \<Longrightarrow>
     0 \<le> idx \<Longrightarrow> idx < sint (word_of_nat sz :: u32) \<Longrightarrow> lst = -1 \<or> lst < idx \<Longrightarrow>
     bits_of_varints sz lst vec s = bits_of_varints sz idx (vec[nat idx := True]) s'"
  by (subst bits_of_varints.simps) (auto simp: Let_def)

lemma varints_bits_rt:
  assumes "int (length pre + length todo) < 2 ^ 31" "sz = length pre + length todo"
    "lst = -1 \<or> 0 \<le> lst" "lst < int (length pre)"
  shows "bits_of_varints sz lst (pre @ replicate (length todo) False)
    (varints_of_bits lst (int (length pre)) todo @ rest) = Inr (pre @ todo, rest)"
  using assms
proof (induction todo arbitrary: pre lst)
  case Nil
  then show ?case by (subst bits_of_varints.simps) (simp add: ReadVarInt_rt)
next
  case (Cons b bs)
  let ?i = "int (length pre)"
  show ?case
  proof (cases b)
    case False
    then show ?thesis using Cons.IH [of "pre @ [False]" lst] Cons.prems
      by (simp add: add.commute)
  next
    case True
    let ?o = "unat (word_of_int (?i - lst) :: u32)"
    have i: "?i < 2 ^ 31" "?i - lst \<le> 2 ^ 31" "0 < ?i - lst" using Cons.prems by auto
    then have o: "int ?o = ?i - lst" by (intro int_unat_u32_of_int) auto
    have n: "next_index lst ?o = ?i" using next_index_add [of lst ?o] o i by simp
    have s: "sint (word_of_nat sz :: u32) = int sz"
      using sint_u32_of_int [of "int sz"] Cons.prems(1,2) by simp
    have "?o \<le> 2 ^ 32 - 1" using unat_u32_less [of "word_of_int (?i - lst)"] by linarith
    then have r: "ReadVarInt (2 ^ 32 - 1) (varints_of_bits lst ?i (b # bs) @ rest)
        = Inr (?o, varints_of_bits ?i (?i + 1) bs @ rest)"
      using True ReadVarInt_rt [of ?o "2 ^ 32 - 1" "varints_of_bits ?i (?i + 1) bs @ rest"] by simp
    have u: "(pre @ replicate (length (b # bs)) False)[nat ?i := True] = (pre @ [True]) @ replicate (length bs) False"
      by (simp add: list_update_append)
    have "bits_of_varints sz lst (pre @ replicate (length (b # bs)) False)
      (varints_of_bits lst ?i (b # bs) @ rest)
      = bits_of_varints sz ?i ((pre @ [True]) @ replicate (length bs) False) (varints_of_bits ?i (?i + 1) bs @ rest)"
    proof -
      have "?o \<noteq> 0" using o i(3) by linarith
      moreover have "?i < sint (word_of_nat sz :: u32)" unfolding s using Cons.prems(2) by simp
      ultimately show ?thesis
        using bits_of_varints_step [OF r _ n] Cons.prems(3,4) u by simp
    qed
    also have "\<dots> = Inr ((pre @ [True]) @ bs, rest)"
      using Cons.IH [of "pre @ [True]" ?i] Cons.prems by (simp add: add.commute)
    finally show ?thesis using True by simp
  qed
qed

lemma FixedVarIntsBitSet_rt [rt]:
  assumes "length vec = sz" "sz < 2 ^ 31"
  shows "ReadFixedVarIntsBitSet sz (WriteFixedVarIntsBitSet vec @ rest) = Inr (vec, rest)"
proof -
  have "int (length ([] :: bool list) + length vec) < 2 ^ 31" using assms by simp
  from varints_bits_rt [OF this, of sz "-1" rest] show ?thesis
    using assms(1) by (simp add: ReadFixedVarIntsBitSet_def WriteFixedVarIntsBitSet_def)
qed

lemma AutoBitSet_rt [rt]:
  assumes "length vec = sz" "sz < 2 ^ 31"
  shows "ReadAutoBitSet sz (WriteAutoBitSet vec @ rest) = Inr (vec, rest)"
  using FixedVarIntsBitSet_rt [OF assms] FixedBitSet_rt [OF assms(1)] assms(1)
  by (simp add: ReadAutoBitSet_def WriteAutoBitSet_def ser_writedata8_def Let_def)

lemma WriteAutoBitSet_smallest:
  "length (WriteAutoBitSet vec) =
     1 + min (length (WriteFixedBitSet vec (length vec))) (length (WriteFixedVarIntsBitSet vec))"
  by (simp add: WriteAutoBitSet_def ser_writedata8_def Let_def)

lemma DynamicBitSet_rt [rt]:
  assumes "length vec \<le> unat MAX_SIZE"
  shows "DynamicBitSet_Unser (DynamicBitSet_Ser vec @ rest) = Inr (vec, rest)"
  unfolding DynamicBitSet_Unser_def DynamicBitSet_Ser_def append_assoc
    rbind_Inr [of "ReadCompactSize True", OF compact_length_rt [OF assms]] compact_length [OF assms]
  by (rule FixedBitSet_rt) (rule refl)

interpretation autobits: codec "\<lambda>v. length v = sz \<and> sz < 2 ^ 31" WriteAutoBitSet "ReadAutoBitSet sz"
  for sz
  by unfold_locales (simp add: AutoBitSet_rt)

interpretation dynbits: codec "\<lambda>v. length v \<le> unat MAX_SIZE" DynamicBitSet_Ser DynamicBitSet_Unser
  by unfold_locales (rule DynamicBitSet_rt)

text \<open>After the first index the checks keep every later index non-negative and in range.\<close>

lemma ReadVarInt_errors: "ReadVarInt mx s = Inl e \<Longrightarrow> e \<noteq> OutOfBoundsWrite"
proof -
  have "read_varint mx n s = Inl e \<Longrightarrow> e \<noteq> OutOfBoundsWrite" for n
    by (induction s arbitrary: n) (auto simp: read_varint.simps Let_def split: if_splits)
  then show "ReadVarInt mx s = Inl e \<Longrightarrow> e \<noteq> OutOfBoundsWrite" by (simp add: ReadVarInt_def)
qed

lemma later_index_safe: "0 \<le> lst \<Longrightarrow> bits_of_varints sz lst vec s \<noteq> Inl OutOfBoundsWrite"
proof (induction sz lst vec s rule: bits_of_varints.induct)
  case (1 sz lst vec s)
  show ?case
  proof (cases "ReadVarInt (2 ^ 32 - 1) s")
    case (Inl e)
    then show ?thesis using ReadVarInt_errors [OF Inl] by (subst bits_of_varints.simps) simp
  next
    case (Inr r)
    obtain offset s' where r: "r = (offset, s')" by (cases r)
    let ?idx = "next_index lst offset"
    have "bits_of_varints sz ?idx (vec[nat ?idx := True]) s' \<noteq> Inl OutOfBoundsWrite"
      if "offset \<noteq> 0" "\<not> sint (word_of_nat sz :: u32) \<le> ?idx" "\<not> ?idx \<le> lst"
      using 1(1) [OF Inr r [symmetric] that(1) refl that(2)] that 1(2) by auto
    then show ?thesis using 1(2) Inr r by (subst bits_of_varints.simps) (auto simp: Let_def)
  qed
qed

lemma first_index_negative:
  assumes "0 < offset" "offset \<le> 2 ^ 32 - 1"
  shows "next_index (-1) offset < 0 \<longleftrightarrow> 2 ^ 31 < offset"
proof (cases "offset \<le> 2 ^ 31")
  case True
  then show ?thesis using next_index_add [of "-1" offset] assms by simp
next
  case False
  have "word_of_int (-1) + word_of_nat offset = (word_of_int (int offset - 1 - 2 ^ 32) :: u32)"
    by (simp add: word_of_int_minus)
  moreover have "- (2 ^ 31) \<le> int offset - 1 - 2 ^ 32" "int offset - 1 - 2 ^ 32 < 2 ^ 31"
    using False assms by simp_all
  ultimately have "next_index (-1) offset = int offset - 1 - 2 ^ 32"
    by (simp only: next_index_def sint_u32_of_int)
  then show ?thesis using False assms by simp
qed

subsection \<open>Custom integer, number and string formatters\<close>

definition CustomUint_MAX :: "nat \<Rightarrow> nat" where
  "CustomUint_MAX n_bytes = unat (drop_bit (8 * (8 - n_bytes)) (0xffffffffffffffff :: u64))"

definition CustomUint_Ser :: "nat \<Rightarrow> bool \<Rightarrow> int \<Rightarrow> ser_error + bytes" where
  "CustomUint_Ser n_bytes big_endian v =
    (if v < 0 \<or> v > int (CustomUint_MAX n_bytes) then Inl ValueOutOfRange
     else if big_endian then Inr (drop (8 - n_bytes) (WriteBE64 (word_of_int v)))
     else Inr (take n_bytes (WriteLE64 (word_of_int v))))"

definition CustomUint_Unser :: "nat \<Rightarrow> bool \<Rightarrow> u64 reader" where
  "CustomUint_Unser n_bytes big_endian = rbind (read_bytes n_bytes) (\<lambda>bs.
     if big_endian then rret (ReadBE64 (replicate (8 - n_bytes) 0 @ bs))
     else rret (ReadLE64 (bs @ replicate (8 - n_bytes) 0)))"

definition CompactSizeFormatter_Unser :: "bool \<Rightarrow> nat \<Rightarrow> u64 reader" where
  "CompactSizeFormatter_Unser range_check type_max = rbind (ReadCompactSize range_check) (\<lambda>n.
     if unat n > type_max then rfail ExceedsTypeLimit else rret n)"

definition LimitedString_Unser :: "nat \<Rightarrow> bytes reader" where
  "LimitedString_Unser limit = rbind (ReadCompactSize True) (\<lambda>n.
     if unat n > limit then rfail StringLimitExceeded
     else if n \<noteq> 0 then read_bytes (unat n) else rret [])"

lemma CustomUint_MAX_val: "n \<le> 8 \<Longrightarrow> int (CustomUint_MAX n) = 256 ^ n - 1"
proof -
  assume n: "n \<le> 8"
  have m: "(0xffffffffffffffff :: u64) = mask 64" by (simp add: mask_eq_exp_minus_1)
  have "64 - 8 * (8 - n) = 8 * n" using n by simp
  moreover have "drop_bit k (mask 64 :: u64) = mask (64 - k)" for k
    by (rule bit_word_eqI) (auto simp: bit_simps)
  ultimately have "int (CustomUint_MAX n) = uint (mask (8 * n) :: u64)"
    unfolding CustomUint_MAX_def m by simp
  also have "\<dots> = 2 ^ (8 * n) - 1" using n unfolding uint_mask_eq by (simp add: min_absorb2 mask_eq_exp_minus_1)
  finally show ?thesis by (simp add: power_mult)
qed

lemma le_val_take: "le_val bs < 256 ^ n \<Longrightarrow> n \<le> length bs \<Longrightarrow> bs = take n bs @ replicate (length bs - n) 0"
proof (rule le_val_inj)
  assume a: "le_val bs < 256 ^ n" "n \<le> length bs"
  have "le_val bs = le_val (take n bs) + 256 ^ n * le_val (drop n bs)"
    using le_val_append [of "take n bs" "drop n bs"] a(2) by simp
  moreover from this have "256 ^ n * le_val (drop n bs) < 256 ^ n * 1" using a(1) by linarith
  then have "le_val (drop n bs) = 0" unfolding mult_less_cancel1 by simp
  moreover have "le_val (replicate k 0) = 0" for k by (induction k) simp_all
  ultimately show "le_val bs = le_val (take n bs @ replicate (length bs - n) 0)"
    by (simp add: le_val_append)
qed simp

lemma WriteLE64_short:
  assumes "unat v < 256 ^ n" "n \<le> 8"
  shows "WriteLE64 v = take n (WriteLE64 v) @ replicate (8 - n) 0"
proof -
  have "le_val (WriteLE64 v) < 256 ^ n"
    using assms by (simp add: WriteLE64_def le_val_le_bytes)
  from le_val_take [OF this] show ?thesis using assms(2) by simp
qed

lemma CustomUint_rt:
  assumes "n \<le> 8" "0 \<le> v" "v \<le> int (CustomUint_MAX n)"
  shows "\<exists>bs. CustomUint_Ser n be v = Inr bs \<and> length bs = n \<and>
    CustomUint_Unser n be (bs @ rest) = Inr (word_of_int v, rest)"
proof -
  let ?v = "word_of_int v :: u64"
  have "int (unat ?v) = v mod 2 ^ 64" using assms(2) by (simp add: unsigned_of_int take_bit_eq_mod)
  then have "int (unat ?v) \<le> v" using assms(2) by (simp add: zmod_le_nonneg_dividend)
  moreover have "v < int (256 ^ n)"
    using assms(3) CustomUint_MAX_val [OF assms(1)] by simp
  ultimately have v: "unat ?v < 256 ^ n" by (metis of_nat_less_iff order_le_less_trans)
  note w = WriteLE64_short [OF v assms(1)]
  have r: "drop (8 - n) (rev (WriteLE64 ?v)) = rev (take n (WriteLE64 ?v))"
    by (subst w) (simp add: rev_append)
  have rl: "replicate (8 - n) 0 @ rev (take n (WriteLE64 ?v)) = WriteBE64 ?v"
    unfolding WriteBE64_def using w by (metis WriteLE64_def rev_append rev_replicate)
  have le: "ReadLE64 (WriteLE64 ?v) = ?v" "ReadBE64 (WriteBE64 ?v) = ?v"
    using ReadLE64_WriteLE64 [of ?v "[]"] ReadBE64_WriteBE64 [of ?v "[]"] by simp_all
  have d: "drop (8 - n) (WriteBE64 ?v) = rev (take n (WriteLE64 ?v))"
    using r by (simp add: WriteBE64_def WriteLE64_def)
  show ?thesis
  proof (cases be)
    case True
    then show ?thesis using assms d rl le(2)
      by (simp add: CustomUint_Ser_def CustomUint_Unser_def rbind_def read_bytes_def)
  next
    case False
    then show ?thesis using assms w le(1)
      by (simp add: CustomUint_Ser_def CustomUint_Unser_def rbind_def read_bytes_def)
  qed
qed

lemma LimitedString_rt:
  assumes "length v \<le> limit" "length v \<le> unat MAX_SIZE"
  shows "LimitedString_Unser limit (ser_byte_vector v @ rest) = Inr (v, rest)"
proof -
  have "v = []" if "(word_of_nat (length v) :: u64) = 0"
    using compact_length [OF assms(2)] unfolding that by simp
  then have z: "(word_of_nat (length v) :: u64) = 0 \<longleftrightarrow> v = []" by auto
  show ?thesis
    unfolding LimitedString_Unser_def ser_byte_vector_def append_assoc
      rbind_Inr [of "ReadCompactSize True", OF compact_length_rt [OF assms(2)]]
      compact_length [OF assms(2)]
    using assms(1) z by (simp add: read_bytes_append)
qed

subsection \<open>Properties\<close>

text \<open>
  C33.  A CompactSize is a bijective encoding: the range-checked reader accepts exactly the bytes
  the writer produces for a size of at most \<^const>\<open>MAX_SIZE\<close>, whatever follows them, and every other
  encoding of the same number is rejected; the encoding has the computed length.
\<close>

theorem CompactSize_canonical:
  "(ReadCompactSize True s = Inr (n, rest) \<longleftrightarrow> n \<le> MAX_SIZE \<and> s = WriteCompactSize n @ rest)
   \<and> length (WriteCompactSize n) = GetSizeOfCompactSize n"
  by (simp add: csize.accepts_iff length_WriteCompactSize)

text \<open>
  "Every integer has exactly one encoding" as a VarInt: for an unsigned 64-bit type the
  reader accepts exactly the bytes the writer produces, and it never wraps around.
\<close>

theorem VarInt_canonical:
  "(ReadVarInt (2 ^ 64 - 1) s = Inr (n, rest) \<longleftrightarrow> n < 2 ^ 64 \<and> s = WriteVarInt n @ rest)
   \<and> length (WriteVarInt n) = GetSizeOfVarInt n"
proof -
  have "n \<le> 2 ^ 64 - 1 \<longleftrightarrow> n < 2 ^ 64" by auto
  then show ?thesis using varint64.accepts_iff [of s n rest] length_WriteVarInt [of n] by blast
qed

text \<open>
  C34.  The reader of an offset-coded bit set of fewer than \<open>2^31\<close> bits writes outside its vector
  exactly when the first offset of the stream exceeds \<open>2^31\<close>: the index then wraps to a negative
  number, which passes the upper bound check, and the check against the previous index is skipped
  for the first one.
\<close>

theorem ReadFixedVarIntsBitSet_out_of_bounds:
  assumes "sz < 2 ^ 31"
  shows "ReadFixedVarIntsBitSet sz s = Inl OutOfBoundsWrite \<longleftrightarrow>
    (\<exists>offset s'. ReadVarInt (2 ^ 32 - 1) s = Inr (offset, s') \<and> 2 ^ 31 < offset)"
proof (cases "ReadVarInt (2 ^ 32 - 1) s")
  case (Inl e)
  then show ?thesis using ReadVarInt_errors [OF Inl]
    unfolding ReadFixedVarIntsBitSet_def by (subst bits_of_varints.simps) simp
next
  case (Inr r)
  obtain offset s' where r: "r = (offset, s')" by (cases r)
  have o: "offset \<le> 2 ^ 32 - 1" using varint32.canonical Inr r by blast
  have sz: "0 \<le> sint (word_of_nat sz :: u32)" using sint_u32_of_int [of "int sz"] assms by simp
  let ?idx = "next_index (-1) offset"
  show ?thesis
  proof (cases "offset = 0")
    case True
    then show ?thesis using Inr r
      unfolding ReadFixedVarIntsBitSet_def by (subst bits_of_varints.simps) simp
  next
    case False
    then have neg: "?idx < 0 \<longleftrightarrow> 2 ^ 31 < offset" using first_index_negative o by blast
    have "ReadFixedVarIntsBitSet sz s = Inl OutOfBoundsWrite \<longleftrightarrow> ?idx < 0"
      using False Inr r sz later_index_safe
      unfolding ReadFixedVarIntsBitSet_def by (subst bits_of_varints.simps) (auto simp: Let_def)
    then show ?thesis using neg Inr r by simp
  qed
qed

theorem ReadFixedVarIntsBitSet_out_of_bounds_witness:
  "ReadFixedVarIntsBitSet 16 (WriteVarInt 0x80000001 @ [0]) = Inl OutOfBoundsWrite"
proof -
  have "ReadVarInt (2 ^ 32 - 1) (WriteVarInt 0x80000001 @ [0]) = Inr (0x80000001, [0])"
    by (rule ReadVarInt_rt) simp
  then show ?thesis
    using ReadFixedVarIntsBitSet_out_of_bounds [of 16 "WriteVarInt 0x80000001 @ [0]"] by simp
qed

text \<open>
  Both bit set formats read back what was written, the automatic format always picks the
  shorter of the two, and the plain format accepts exactly the bytes of its writer, so no padding
  bit can vary.
\<close>

theorem bitset_formats_round_trip:
  assumes "length vec < 2 ^ 31"
  shows "ReadAutoBitSet (length vec) (WriteAutoBitSet vec @ rest) = Inr (vec, rest)
    \<and> length (WriteAutoBitSet vec)
        = 1 + min (GetSizeOfFixedBitSet (length vec)) (length (WriteFixedVarIntsBitSet vec))
    \<and> (ReadFixedBitSet sz s = Inr (w, t) \<longleftrightarrow> length w = sz \<and> s = WriteFixedBitSet w sz @ t)"
  using autobits.round_trip [of vec "length vec" rest] bitset.accepts_iff [of sz s w t] assms
  by (simp add: WriteAutoBitSet_smallest WriteFixedBitSet_bits(1) GetSizeOfFixedBitSet_def)

theorem bitset_formats_round_trip_witness:
  "ReadAutoBitSet 3 (WriteAutoBitSet [True, False, True] @ [7]) = Inr ([True, False, True], [7])"
  using bitset_formats_round_trip [of "[True, False, True]" "[7]" 0 "[]" "[]" "[]"]
  by (simp add: numeral_3_eq_3)

end
