(* ===== verification/Transaction.thy ===== *)
theory Transaction
  imports Serialize
begin

text \<open>
  Transactions: \<^verbatim>\<open>primitives/transaction.{h,cpp}\<close>, the context-free checks of
  \<^verbatim>\<open>consensus/tx_check.cpp\<close> and the validation result of \<^verbatim>\<open>consensus/validation.h\<close>.  The two C++
  classes \<^verbatim>\<open>CTransaction\<close> and \<^verbatim>\<open>CMutableTransaction\<close> have the same fields (the cached hash apart) and
  the same wire format, and share one record.  \<^verbatim>\<open>nVersion\<close> is an \<^verbatim>\<open>int16_t\<close>, kept as a word and read
  with \<^const>\<open>sint\<close>.
\<close>

subsection \<open>Blobs and signed integers on the wire\<close>

definition ser_uint256 :: "uint256 \<Rightarrow> bytes" where
  "ser_uint256 h = h"

definition unser_uint256 :: "uint256 reader" where
  "unser_uint256 = read_bytes 32"

definition ser_int32 :: "int \<Rightarrow> bytes" where
  "ser_int32 v = ser_writedata32 (word_of_int v)"

definition unser_int32 :: "int reader" where
  "unser_int32 = rbind ser_readdata32 (\<lambda>w. rret (sint w))"

definition ser_int64 :: "int \<Rightarrow> bytes" where
  "ser_int64 v = ser_writedata64 (word_of_int v)"

definition unser_int64 :: "int reader" where
  "unser_int64 = rbind ser_readdata64 (\<lambda>w. rret (sint w))"

definition is_int32 :: "int \<Rightarrow> bool" where
  "is_int32 v \<longleftrightarrow> - (2 ^ 31) \<le> v \<and> v < 2 ^ 31"

definition is_int64 :: "int \<Rightarrow> bool" where
  "is_int64 v \<longleftrightarrow> - (2 ^ 63) \<le> v \<and> v < 2 ^ 63"

lemma is_int32_sint [simp]: "is_int32 (sint (w :: u32))"
  using sint_range_size [of w] by (auto simp: is_int32_def word_size)

lemma is_int64_sint [simp]: "is_int64 (sint (w :: u64))"
  using sint_range_size [of w] by (auto simp: is_int64_def word_size)

lemma sint_of_int32: "is_int32 v \<Longrightarrow> sint (word_of_int v :: u32) = v"
  by (simp add: is_int32_def signed_of_int signed_take_bit_int_eq_self)

lemma sint_of_int64: "is_int64 v \<Longrightarrow> sint (word_of_int v :: u64) = v"
  by (simp add: is_int64_def signed_of_int signed_take_bit_int_eq_self)

interpretation hash256: canonical_codec "\<lambda>h. length h = 32" ser_uint256 unser_uint256
  by unfold_locales (auto simp: ser_uint256_def unser_uint256_def read_bytes_append read_bytes_Inr)

interpretation int32c: canonical_codec is_int32 ser_int32 unser_int32
  by unfold_locales
    (auto simp: ser_int32_def unser_int32_def sint_of_int32 rbind_eq_Inr dest: readdata32_canon)

interpretation int64c: canonical_codec is_int64 ser_int64 unser_int64
  by unfold_locales
    (auto simp: ser_int64_def unser_int64_def sint_of_int64 rbind_eq_Inr dest: readdata64_canon)

subsection \<open>Outpoints, inputs and outputs\<close>

definition TRANSACTION_NORMAL :: u16 where "TRANSACTION_NORMAL = 0"
definition TRANSACTION_PROVIDER_REGISTER :: u16 where "TRANSACTION_PROVIDER_REGISTER = 1"
definition TRANSACTION_PROVIDER_UPDATE_SERVICE :: u16 where "TRANSACTION_PROVIDER_UPDATE_SERVICE = 2"
definition TRANSACTION_PROVIDER_UPDATE_REGISTRAR :: u16 where "TRANSACTION_PROVIDER_UPDATE_REGISTRAR = 3"
definition TRANSACTION_PROVIDER_UPDATE_REVOKE :: u16 where "TRANSACTION_PROVIDER_UPDATE_REVOKE = 4"
definition TRANSACTION_COINBASE :: u16 where "TRANSACTION_COINBASE = 5"
definition TRANSACTION_QUORUM_COMMITMENT :: u16 where "TRANSACTION_QUORUM_COMMITMENT = 6"
definition TRANSACTION_MNHF_SIGNAL :: u16 where "TRANSACTION_MNHF_SIGNAL = 7"
definition TRANSACTION_ASSET_LOCK :: u16 where "TRANSACTION_ASSET_LOCK = 8"
definition TRANSACTION_ASSET_UNLOCK :: u16 where "TRANSACTION_ASSET_UNLOCK = 9"

type_synonym CScript = bytes

record COutPoint =
  op_hash :: uint256
  op_n :: u32

definition NULL_INDEX :: u32 where
  "NULL_INDEX = 0xffffffff"

definition blob_IsNull :: "bytes \<Rightarrow> bool" where
  "blob_IsNull m_data = list_all (\<lambda>val. val = 0) m_data"

definition COutPoint_IsNull :: "COutPoint \<Rightarrow> bool" where
  "COutPoint_IsNull p \<longleftrightarrow> blob_IsNull (op_hash p) \<and> op_n p = NULL_INDEX"

text \<open>\<^verbatim>\<open>memcmp\<close> on two byte arrays of the same length, as the sign of its result.\<close>

fun memcmp :: "bytes \<Rightarrow> bytes \<Rightarrow> int" where
  "memcmp (x # xs) (y # ys) = (if x = y then memcmp xs ys else if x < y then -1 else 1)"
| "memcmp _ _ = 0"

definition COutPoint_less :: "COutPoint \<Rightarrow> COutPoint \<Rightarrow> bool" where
  "COutPoint_less a b =
    (let cmp = memcmp (op_hash a) (op_hash b) in cmp < 0 \<or> (cmp = 0 \<and> op_n a < op_n b))"

definition ser_COutPoint :: "COutPoint \<Rightarrow> bytes" where
  "ser_COutPoint p = ser_uint256 (op_hash p) @ ser_writedata32 (op_n p)"

definition unser_COutPoint :: "COutPoint reader" where
  "unser_COutPoint = rbind unser_uint256 (\<lambda>h. rbind ser_readdata32 (\<lambda>i.
     rret \<lparr>op_hash = h, op_n = i\<rparr>))"

record CTxIn =
  prevout :: COutPoint
  scriptSig :: CScript
  nSequence :: u32

definition SEQUENCE_FINAL :: u32 where "SEQUENCE_FINAL = 0xffffffff"
definition MAX_SEQUENCE_NONFINAL :: u32 where "MAX_SEQUENCE_NONFINAL = SEQUENCE_FINAL - 1"
definition SEQUENCE_LOCKTIME_DISABLE_FLAG :: u32 where "SEQUENCE_LOCKTIME_DISABLE_FLAG = push_bit 31 1"
definition SEQUENCE_LOCKTIME_TYPE_FLAG :: u32 where "SEQUENCE_LOCKTIME_TYPE_FLAG = push_bit 22 1"
definition SEQUENCE_LOCKTIME_MASK :: u32 where "SEQUENCE_LOCKTIME_MASK = 0x0000ffff"
definition SEQUENCE_LOCKTIME_GRANULARITY :: nat where "SEQUENCE_LOCKTIME_GRANULARITY = 9"

definition ser_CTxIn :: "CTxIn \<Rightarrow> bytes" where
  "ser_CTxIn i = ser_COutPoint (prevout i) @ ser_byte_vector (scriptSig i) @ ser_writedata32 (nSequence i)"

definition unser_CTxIn :: "CTxIn reader" where
  "unser_CTxIn = rbind unser_COutPoint (\<lambda>p. rbind unser_byte_vector (\<lambda>sig.
     rbind ser_readdata32 (\<lambda>sq. rret \<lparr>prevout = p, scriptSig = sig, nSequence = sq\<rparr>)))"

record CTxOut =
  nValue :: CAmount
  scriptPubKey :: CScript

definition CTxOut_SetNull :: CTxOut where
  "CTxOut_SetNull = \<lparr>nValue = -1, scriptPubKey = []\<rparr>"

definition CTxOut_IsNull :: "CTxOut \<Rightarrow> bool" where
  "CTxOut_IsNull o1 \<longleftrightarrow> nValue o1 = -1"

definition ser_CTxOut :: "CTxOut \<Rightarrow> bytes" where
  "ser_CTxOut o1 = ser_int64 (nValue o1) @ ser_byte_vector (scriptPubKey o1)"

definition unser_CTxOut :: "CTxOut reader" where
  "unser_CTxOut = rbind unser_int64 (\<lambda>v. rbind unser_byte_vector (\<lambda>scr.
     rret \<lparr>nValue = v, scriptPubKey = scr\<rparr>))"

definition COutPoint_ok :: "COutPoint \<Rightarrow> bool" where
  "COutPoint_ok p \<longleftrightarrow> length (op_hash p) = 32"

definition CTxIn_ok :: "CTxIn \<Rightarrow> bool" where
  "CTxIn_ok i \<longleftrightarrow> COutPoint_ok (prevout i) \<and> length (scriptSig i) \<le> unat MAX_SIZE"

definition CTxOut_ok :: "CTxOut \<Rightarrow> bool" where
  "CTxOut_ok o1 \<longleftrightarrow> is_int64 (nValue o1) \<and> length (scriptPubKey o1) \<le> unat MAX_SIZE"

lemmas wire_accepts = u8c.accepts_iff u16c.accepts_iff u32c.accepts_iff u64c.accepts_iff
  hash256.accepts_iff int32c.accepts_iff int64c.accepts_iff bvec.accepts_iff rbind_eq_Inr

interpretation outpoint_fields: codec_pair "\<lambda>h. length h = 32" ser_uint256 unser_uint256
    "\<lambda>_. True" ser_writedata32 ser_readdata32 ..

interpretation outpoint: canonical_codec COutPoint_ok ser_COutPoint unser_COutPoint
proof
  show "COutPoint_ok x \<Longrightarrow> unser_COutPoint (ser_COutPoint x @ rest) = Inr (x, rest)" for x rest
    by (simp add: ser_COutPoint_def unser_COutPoint_def COutPoint_ok_def hash256.round_trip)
  show "unser_COutPoint s = Inr (x, rest) \<Longrightarrow> COutPoint_ok x \<and> s = ser_COutPoint x @ rest" for s x rest
    unfolding unser_COutPoint_def wire_accepts by (auto simp: ser_COutPoint_def COutPoint_ok_def)
qed

interpretation txin: canonical_codec CTxIn_ok ser_CTxIn unser_CTxIn
proof
  show "CTxIn_ok x \<Longrightarrow> unser_CTxIn (ser_CTxIn x @ rest) = Inr (x, rest)" for x rest
    by (simp add: ser_CTxIn_def unser_CTxIn_def CTxIn_ok_def outpoint.round_trip bvec.round_trip
        del: MAX_SIZE_unat)
  show "unser_CTxIn s = Inr (x, rest) \<Longrightarrow> CTxIn_ok x \<and> s = ser_CTxIn x @ rest" for s x rest
    unfolding unser_CTxIn_def wire_accepts outpoint.accepts_iff by (auto simp: ser_CTxIn_def CTxIn_ok_def)
qed

interpretation txout: canonical_codec CTxOut_ok ser_CTxOut unser_CTxOut
proof
  show "CTxOut_ok x \<Longrightarrow> unser_CTxOut (ser_CTxOut x @ rest) = Inr (x, rest)" for x rest
    by (simp add: ser_CTxOut_def unser_CTxOut_def CTxOut_ok_def int64c.round_trip bvec.round_trip
        del: MAX_SIZE_unat)
  show "unser_CTxOut s = Inr (x, rest) \<Longrightarrow> CTxOut_ok x \<and> s = ser_CTxOut x @ rest" for s x rest
    unfolding unser_CTxOut_def wire_accepts by (auto simp: ser_CTxOut_def CTxOut_ok_def)
qed

subsection \<open>Transactions\<close>

record CTransaction =
  vin :: "CTxIn list"
  vout :: "CTxOut list"
  tx_nVersion :: u16
  nType :: u16
  nLockTime :: u32
  vExtraPayload :: bytes

definition CURRENT_VERSION :: int where "CURRENT_VERSION = 2"
definition SPECIAL_VERSION :: int where "SPECIAL_VERSION = 3"

definition CMutableTransaction :: CTransaction where
  "CMutableTransaction = \<lparr>vin = [], vout = [], tx_nVersion = word_of_int CURRENT_VERSION,
     nType = TRANSACTION_NORMAL, nLockTime = 0, vExtraPayload = []\<rparr>"

definition CTransaction_IsNull :: "CTransaction \<Rightarrow> bool" where
  "CTransaction_IsNull tx \<longleftrightarrow> vin tx = [] \<and> vout tx = []"

definition IsCoinBase :: "CTransaction \<Rightarrow> bool" where
  "IsCoinBase tx \<longleftrightarrow> length (vin tx) = 1 \<and> COutPoint_IsNull (prevout (vin tx ! 0))"

definition IsSpecialTxVersion :: "CTransaction \<Rightarrow> bool" where
  "IsSpecialTxVersion tx \<longleftrightarrow> sint (tx_nVersion tx) \<ge> SPECIAL_VERSION"

definition IsPlatformTransfer :: "CTransaction \<Rightarrow> bool" where
  "IsPlatformTransfer tx \<longleftrightarrow> IsSpecialTxVersion tx \<and> nType tx = TRANSACTION_ASSET_UNLOCK"

definition HasExtraPayloadField :: "CTransaction \<Rightarrow> bool" where
  "HasExtraPayloadField tx \<longleftrightarrow> IsSpecialTxVersion tx \<and> nType tx \<noteq> TRANSACTION_NORMAL"

text \<open>\<^verbatim>\<open>nVersion\<close> is promoted to \<^verbatim>\<open>int\<close>, with its sign, before it is joined with the type.\<close>

definition n32bitVersion :: "CTransaction \<Rightarrow> u32" where
  "n32bitVersion tx = scast (tx_nVersion tx) OR push_bit 16 (ucast (nType tx))"

definition ser_CTransaction :: "CTransaction \<Rightarrow> bytes" where
  "ser_CTransaction tx = ser_writedata32 (n32bitVersion tx) @ ser_vector ser_CTxIn (vin tx)
     @ ser_vector ser_CTxOut (vout tx) @ ser_writedata32 (nLockTime tx)
     @ (if HasExtraPayloadField tx then ser_byte_vector (vExtraPayload tx) else [])"

definition unser_CTransaction :: "CTransaction reader" where
  "unser_CTransaction = rbind ser_readdata32 (\<lambda>ver. rbind (unser_vector unser_CTxIn) (\<lambda>ins.
     rbind (unser_vector unser_CTxOut) (\<lambda>outs. rbind ser_readdata32 (\<lambda>lock.
       let tx = \<lparr>vin = ins, vout = outs, tx_nVersion = ucast (ver AND 0xffff),
                 nType = ucast (drop_bit 16 ver AND 0xffff), nLockTime = lock, vExtraPayload = []\<rparr>
       in if HasExtraPayloadField tx
          then rbind unser_byte_vector (\<lambda>p. rret (tx\<lparr>vExtraPayload := p\<rparr>))
          else rret tx))))"

definition GetHash :: "(bytes \<Rightarrow> uint256) \<Rightarrow> CTransaction \<Rightarrow> uint256" where
  "GetHash hash256d tx = hash256d (ser_CTransaction tx)"

definition GetTotalSize :: "CTransaction \<Rightarrow> nat" where
  "GetTotalSize tx = length (ser_CTransaction tx)"

datatype value_error = ValueOutOfRangeThrown

fun sum_outputs :: "CTxOut list \<Rightarrow> CAmount \<Rightarrow> value_error + CAmount" where
  "sum_outputs [] nValueOut = Inr nValueOut"
| "sum_outputs (tx_out # rest) nValueOut =
    (if \<not> MoneyRange (nValue tx_out) \<or> \<not> MoneyRange (nValueOut + nValue tx_out)
     then Inl ValueOutOfRangeThrown
     else sum_outputs rest (nValueOut + nValue tx_out))"

definition GetValueOut :: "CTransaction \<Rightarrow> value_error + CAmount" where
  "GetValueOut tx = sum_outputs (vout tx) 0"

definition CompareInputBIP69 :: "CTxIn \<Rightarrow> CTxIn \<Rightarrow> bool" where
  "CompareInputBIP69 a b =
    (if op_hash (prevout a) = op_hash (prevout b) then op_n (prevout a) < op_n (prevout b)
     else memcmp (rev (op_hash (prevout a))) (rev (op_hash (prevout b))) < 0)"

definition tx_ok :: "CTransaction \<Rightarrow> bool" where
  "tx_ok tx \<longleftrightarrow> list_all CTxIn_ok (vin tx) \<and> length (vin tx) \<le> unat MAX_SIZE
     \<and> list_all CTxOut_ok (vout tx) \<and> length (vout tx) \<le> unat MAX_SIZE
     \<and> (if HasExtraPayloadField tx then length (vExtraPayload tx) \<le> unat MAX_SIZE
        else vExtraPayload tx = [])
     \<and> 0 \<le> sint (tx_nVersion tx)"

lemma sign_bit_u16: "0 \<le> sint (v :: u16) \<longleftrightarrow> \<not> bit v 15"
  by (simp add: sint_uint signed_take_bit_nonnegative_iff bit_uint_iff)

lemma ffff_mask: "(0xffff :: u32) = mask 16"
  by (simp add: mask_eq_exp_minus_1)

lemma version_low: "ucast (n32bitVersion tx AND 0xffff) = tx_nVersion tx"
  unfolding ffff_mask by (rule bit_word_eqI) (auto simp: n32bitVersion_def bit_simps)

lemma type_high: "0 \<le> sint (tx_nVersion tx) \<Longrightarrow> ucast (drop_bit 16 (n32bitVersion tx) AND 0xffff) = nType tx"
  unfolding ffff_mask sign_bit_u16
  by (rule bit_word_eqI) (auto simp: n32bitVersion_def bit_simps)

lemma version_join:
  "n32bitVersion \<lparr>vin = i, vout = ou, tx_nVersion = ucast (w AND 0xffff), nType = ucast (drop_bit 16 w AND 0xffff),
     nLockTime = l, vExtraPayload = p\<rparr> = w"
  if "0 \<le> sint (ucast (w AND 0xffff) :: u16)" for w :: u32
proof (rule bit_word_eqI)
  fix n assume n: "n < LENGTH(32)"
  have b: "\<not> bit w 15" using that unfolding sign_bit_u16 ffff_mask by (simp add: bit_simps)
  consider "n < 16" | "16 \<le> n" by linarith
  then show "bit (n32bitVersion \<lparr>vin = i, vout = ou, tx_nVersion = ucast (w AND 0xffff),
      nType = ucast (drop_bit 16 w AND 0xffff), nLockTime = l, vExtraPayload = p\<rparr>) n = bit w n"
    using n b unfolding ffff_mask
    by cases (auto simp: n32bitVersion_def bit_simps)
qed

lemma negative_version_hides_type:
  assumes "sint (tx_nVersion tx) < 0"
  shows "n32bitVersion tx = scast (tx_nVersion tx)"
proof (rule bit_word_eqI)
  fix n assume n: "n < LENGTH(32)"
  have b: "bit (tx_nVersion tx) 15" using assms sign_bit_u16 [of "tx_nVersion tx"] by linarith
  then show "bit (n32bitVersion tx) n = bit (scast (tx_nVersion tx) :: u32) n"
    using n by (auto simp: n32bitVersion_def bit_simps)
qed

lemmas txin_vector = txin.vector_rt txin.vector_canonical
lemmas txout_vector = txout.vector_rt txout.vector_canonical

lemma unser_ser_CTransaction:
  assumes "tx_ok tx"
  shows "unser_CTransaction (ser_CTransaction tx @ rest) = Inr (tx, rest)"
proof -
  have v: "0 \<le> sint (tx_nVersion tx)" using assms by (simp only: tx_ok_def)
  let ?t = "\<lparr>vin = vin tx, vout = vout tx, tx_nVersion = tx_nVersion tx, nType = nType tx,
    nLockTime = nLockTime tx, vExtraPayload = []\<rparr>"
  have h: "HasExtraPayloadField ?t = HasExtraPayloadField tx"
    by (simp add: HasExtraPayloadField_def IsSpecialTxVersion_def)
  have i: "unser_vector unser_CTxIn (ser_vector ser_CTxIn (vin tx) @ r) = Inr (vin tx, r)" for r
    by (rule txin_vector) (use assms in \<open>simp_all only: tx_ok_def\<close>)
  have ou: "unser_vector unser_CTxOut (ser_vector ser_CTxOut (vout tx) @ r) = Inr (vout tx, r)" for r
    by (rule txout_vector) (use assms in \<open>simp_all only: tx_ok_def\<close>)
  show ?thesis
  proof (cases "HasExtraPayloadField tx")
    case True
    then have "length (vExtraPayload tx) \<le> unat MAX_SIZE" using assms by (simp only: tx_ok_def if_True)
    then show ?thesis using True h
      by (simp add: unser_CTransaction_def ser_CTransaction_def i ou version_low type_high [OF v] Let_def
          bvec.round_trip del: MAX_SIZE_unat)
  next
    case False
    then have "vExtraPayload tx = []" using assms by (simp only: tx_ok_def if_False)
    then show ?thesis using False h
      by (simp add: unser_CTransaction_def ser_CTransaction_def i ou version_low type_high [OF v] Let_def)
  qed
qed

lemma unser_CTransaction_canonical:
  assumes "unser_CTransaction s = Inr (tx, rest)" "0 \<le> sint (tx_nVersion tx)"
  shows "tx_ok tx \<and> s = ser_CTransaction tx @ rest"
proof -
  obtain ver ins outs lock s1 s2 s3 s4 where
    r: "ser_readdata32 s = Inr (ver, s1)" "unser_vector unser_CTxIn s1 = Inr (ins, s2)"
      "unser_vector unser_CTxOut s2 = Inr (outs, s3)" "ser_readdata32 s3 = Inr (lock, s4)"
    and t: "(let tx = \<lparr>vin = ins, vout = outs, tx_nVersion = ucast (ver AND 0xffff),
                 nType = ucast (drop_bit 16 ver AND 0xffff), nLockTime = lock, vExtraPayload = []\<rparr>
       in if HasExtraPayloadField tx
          then rbind unser_byte_vector (\<lambda>p. rret (tx\<lparr>vExtraPayload := p\<rparr>))
          else rret tx) s4 = Inr (tx, rest)"
    using assms(1) unfolding unser_CTransaction_def rbind_eq_Inr by blast
  let ?t = "\<lambda>p. \<lparr>vin = ins, vout = outs, tx_nVersion = ucast (ver AND 0xffff),
      nType = ucast (drop_bit 16 ver AND 0xffff), nLockTime = lock, vExtraPayload = p\<rparr>"
  have h: "HasExtraPayloadField (?t p) = HasExtraPayloadField (?t [])" for p
    by (simp add: HasExtraPayloadField_def IsSpecialTxVersion_def)
  have p: "\<exists>p. tx = ?t p \<and> s4 = (if HasExtraPayloadField (?t p) then ser_byte_vector p else []) @ rest
      \<and> (if HasExtraPayloadField (?t p) then length p \<le> unat MAX_SIZE else p = [])"
  proof (cases "HasExtraPayloadField (?t [])")
    case True
    then obtain p where "unser_byte_vector s4 = Inr (p, rest)" "tx = ?t p"
      using t by (auto simp: Let_def rbind_eq_Inr)
    then show ?thesis using bvec.canonical True h [of p] by (intro exI [of _ p]) simp
  next
    case False
    then have "tx = ?t []" "s4 = rest" using t by (simp_all add: Let_def)
    then show ?thesis using False by (intro exI [of _ "[]"]) simp
  qed
  then obtain p where p: "tx = ?t p"
    "s4 = (if HasExtraPayloadField tx then ser_byte_vector p else []) @ rest"
    "if HasExtraPayloadField tx then length p \<le> unat MAX_SIZE else p = []" by blast
  have v: "n32bitVersion tx = ver"
    using assms(2) version_join [of ver] unfolding p(1) by simp
  note c = readdata32_canon [OF r(1)] txin_vector(2) [OF r(2)] txout_vector(2) [OF r(3)] readdata32_canon [OF r(4)]
  have "tx_ok tx" using c p(3) assms(2) by (simp add: tx_ok_def p(1) del: MAX_SIZE_unat)
  moreover have "s = ser_CTransaction tx @ rest"
    using c p(2) v by (simp add: ser_CTransaction_def p(1))
  ultimately show ?thesis ..
qed

interpretation transaction: codec tx_ok ser_CTransaction unser_CTransaction
  by unfold_locales (rule unser_ser_CTransaction)

subsection \<open>Context-free validity\<close>

datatype TxValidationResult = TX_RESULT_UNSET | TX_CONSENSUS | TX_RECENT_CONSENSUS_CHANGE
  | TX_INPUTS_NOT_STANDARD | TX_NOT_STANDARD | TX_MISSING_INPUTS | TX_PREMATURE_SPEND
  | TX_BAD_SPECIAL | TX_CONFLICT | TX_CONFLICT_LOCK | TX_MEMPOOL_POLICY | TX_NO_MEMPOOL

text \<open>\<^verbatim>\<open>state.Invalid(result, reason)\<close> with the \<^verbatim>\<open>false\<close> it returns, or \<^verbatim>\<open>true\<close>.\<close>

type_synonym tx_verdict = "TxValidationResult \<times> string + unit"

definition MAX_LEGACY_BLOCK_SIZE :: nat where "MAX_LEGACY_BLOCK_SIZE = 1000000"
definition MAX_DIP0001_BLOCK_SIZE :: nat where "MAX_DIP0001_BLOCK_SIZE = 2000000"
definition MAX_TX_EXTRA_PAYLOAD :: nat where "MAX_TX_EXTRA_PAYLOAD = 10000"
definition COINBASE_MATURITY :: int where "COINBASE_MATURITY = 100"
definition LOCKTIME_VERIFY_SEQUENCE :: int where "LOCKTIME_VERIFY_SEQUENCE = 1"

definition MaxBlockSize :: "bool \<Rightarrow> nat" where
  "MaxBlockSize fDIP0001Active = (if fDIP0001Active then MAX_DIP0001_BLOCK_SIZE else MAX_LEGACY_BLOCK_SIZE)"

definition MaxBlockSigOps :: "bool \<Rightarrow> nat" where
  "MaxBlockSigOps fDIP0001Active = MaxBlockSize fDIP0001Active div 50"

fun check_outputs :: "CTxOut list \<Rightarrow> CAmount \<Rightarrow> tx_verdict" where
  "check_outputs [] nValueOut = Inr ()"
| "check_outputs (txout # rest) nValueOut =
    (if nValue txout < 0 then Inl (TX_CONSENSUS, ''bad-txns-vout-negative'')
     else if nValue txout > MAX_MONEY then Inl (TX_CONSENSUS, ''bad-txns-vout-toolarge'')
     else if \<not> MoneyRange (nValueOut + nValue txout) then Inl (TX_CONSENSUS, ''bad-txns-txouttotal-toolarge'')
     else check_outputs rest (nValueOut + nValue txout))"

text \<open>
  \<^verbatim>\<open>std::set<COutPoint>::insert\<close> finds an element equivalent under \<^verbatim>\<open>operator<\<close>.
\<close>

definition set_has :: "COutPoint list \<Rightarrow> COutPoint \<Rightarrow> bool" where
  "set_has seen p \<longleftrightarrow> list_ex (\<lambda>q. \<not> COutPoint_less p q \<and> \<not> COutPoint_less q p) seen"

fun check_duplicates :: "CTxIn list \<Rightarrow> COutPoint list \<Rightarrow> tx_verdict" where
  "check_duplicates [] vInOutPoints = Inr ()"
| "check_duplicates (txin # rest) vInOutPoints =
    (if set_has vInOutPoints (prevout txin) then Inl (TX_CONSENSUS, ''bad-txns-inputs-duplicate'')
     else check_duplicates rest (prevout txin # vInOutPoints))"

definition check_coinbase :: "CTransaction \<Rightarrow> tx_verdict" where
  "check_coinbase tx =
    (if IsCoinBase tx
     then let minCbSize = (if nType tx = TRANSACTION_COINBASE then 1 else 2);
              n = length (scriptSig (vin tx ! 0))
          in if n < minCbSize \<or> n > 100 then Inl (TX_CONSENSUS, ''bad-cb-length'') else Inr ()
     else if list_ex (\<lambda>txin. COutPoint_IsNull (prevout txin)) (vin tx)
          then Inl (TX_CONSENSUS, ''bad-txns-prevout-null'') else Inr ())"

definition CheckTransaction :: "CTransaction \<Rightarrow> tx_verdict" where
  "CheckTransaction tx =
    (let no_io = nType tx = TRANSACTION_QUORUM_COMMITMENT \<or> nType tx = TRANSACTION_MNHF_SIGNAL;
         allowEmptyTxIn = (no_io \<or> nType tx = TRANSACTION_ASSET_UNLOCK);
         allowEmptyTxOut = no_io in
     if \<not> allowEmptyTxIn \<and> vin tx = [] then Inl (TX_CONSENSUS, ''bad-txns-vin-empty'')
     else if \<not> allowEmptyTxOut \<and> vout tx = [] then Inl (TX_CONSENSUS, ''bad-txns-vout-empty'')
     else if length (ser_CTransaction tx) > MAX_LEGACY_BLOCK_SIZE then Inl (TX_CONSENSUS, ''bad-txns-oversize'')
     else if length (vExtraPayload tx) > MAX_TX_EXTRA_PAYLOAD then Inl (TX_CONSENSUS, ''bad-txns-payload-oversize'')
     else case check_outputs (vout tx) 0 of Inl e \<Rightarrow> Inl e
     | Inr _ \<Rightarrow> (case check_duplicates (vin tx) [] of Inl e \<Rightarrow> Inl e
     | Inr _ \<Rightarrow> check_coinbase tx))"

lemma memcmp_refl [simp]: "memcmp xs xs = 0"
  by (induction xs) simp_all

lemma memcmp_eq_0: "length xs = length ys \<Longrightarrow> memcmp xs ys = 0 \<longleftrightarrow> xs = ys"
  by (induction xs ys rule: list_induct2) simp_all

lemma memcmp_swap: "memcmp xs ys = - memcmp ys xs"
  by (induction xs ys rule: memcmp.induct) auto

lemma memcmp_trans:
  "memcmp xs ys < 0 \<Longrightarrow> memcmp ys zs < 0 \<Longrightarrow> length xs = length ys \<Longrightarrow> length ys = length zs \<Longrightarrow>
     memcmp xs zs < 0"
proof (induction xs ys arbitrary: zs rule: memcmp.induct)
  case (1 x xs y ys)
  then show ?case by (cases zs) (auto split: if_splits)
qed simp_all

lemma COutPoint_less_equiv:
  assumes "COutPoint_ok p" "COutPoint_ok q"
  shows "\<not> COutPoint_less p q \<and> \<not> COutPoint_less q p \<longleftrightarrow> p = q"
proof -
  have m: "memcmp (op_hash p) (op_hash q) = 0 \<longleftrightarrow> op_hash p = op_hash q"
    using assms by (intro memcmp_eq_0) (simp add: COutPoint_ok_def)
  show ?thesis
    using m memcmp_swap [of "op_hash p" "op_hash q"]
    by (cases p; cases q) (auto simp: COutPoint_less_def Let_def)
qed

lemma set_has_iff:
  "list_all COutPoint_ok seen \<Longrightarrow> COutPoint_ok p \<Longrightarrow> set_has seen p \<longleftrightarrow> p \<in> set seen"
  by (induction seen) (auto simp: set_has_def COutPoint_less_equiv)

lemma check_duplicates_iff:
  "list_all CTxIn_ok ins \<Longrightarrow> list_all COutPoint_ok seen \<Longrightarrow>
     check_duplicates ins seen = Inr () \<longleftrightarrow>
       distinct (map prevout ins) \<and> set (map prevout ins) \<inter> set seen = {}"
  by (induction ins arbitrary: seen) (auto simp: set_has_iff CTxIn_ok_def)

lemma check_outputs_iff:
  "MoneyRange acc \<Longrightarrow> check_outputs outs acc = Inr () \<longleftrightarrow>
     list_all (\<lambda>ou. MoneyRange (nValue ou)) outs \<and> MoneyRange (acc + sum_list (map nValue outs))"
proof (induction outs arbitrary: acc)
  case (Cons ou outs)
  have nn: "list_all (\<lambda>ou. MoneyRange (nValue ou)) outs \<Longrightarrow> 0 \<le> sum_list (map nValue outs)"
    by (induction outs) (auto simp: MoneyRange_def)
  have step: "check_outputs (ou # outs) acc = Inr () \<longleftrightarrow>
      MoneyRange (nValue ou) \<and> MoneyRange (acc + nValue ou) \<and> check_outputs outs (acc + nValue ou) = Inr ()"
    by (simp add: MoneyRange_def [of "nValue ou"])
  show ?case
  proof (cases "MoneyRange (acc + nValue ou)")
    case True
    then show ?thesis unfolding step using Cons.IH [OF True] by (simp add: add.assoc)
  next
    case False
    have "\<not> MoneyRange (acc + (nValue ou + sum_list (map nValue outs)))"
      if "MoneyRange (nValue ou)" "list_all (\<lambda>ou. MoneyRange (nValue ou)) outs"
      using that(1) nn [OF that(2)] False Cons.prems unfolding MoneyRange_def by linarith
    then show ?thesis unfolding step using False by auto
  qed
qed simp

lemma sum_outputs_eq:
  "MoneyRange acc \<Longrightarrow> sum_outputs outs acc =
     (if check_outputs outs acc = Inr () then Inr (acc + sum_list (map nValue outs))
      else Inl ValueOutOfRangeThrown)"
proof (induction outs arbitrary: acc)
  case (Cons ou outs)
  show ?case
  proof (cases "MoneyRange (nValue ou) \<and> MoneyRange (acc + nValue ou)")
    case True
    then have "\<not> nValue ou < 0" "\<not> nValue ou > MAX_MONEY" unfolding MoneyRange_def by auto
    then show ?thesis using True Cons.IH [of "acc + nValue ou"] by (simp add: add.assoc)
  next
    case False
    then show ?thesis by (auto simp: MoneyRange_def [of "nValue ou"])
  qed
qed simp

lemma MoneyRange_0 [simp]: "MoneyRange 0"
  by (simp add: MoneyRange_def MAX_MONEY_def COIN_def)

lemma check_coinbase_iff:
  "check_coinbase tx = Inr () \<longleftrightarrow>
    (if IsCoinBase tx then (if nType tx = TRANSACTION_COINBASE then 1 else 2) \<le> length (scriptSig (vin tx ! 0))
        \<and> length (scriptSig (vin tx ! 0)) \<le> 100
     else list_all (\<lambda>i. \<not> COutPoint_IsNull (prevout i)) (vin tx))"
  by (auto simp: check_coinbase_def Let_def list_ex_iff list_all_iff)

lemma CheckTransaction_parts:
  "CheckTransaction tx = Inr () \<longleftrightarrow>
    (vin tx = [] \<longrightarrow> nType tx \<in> {TRANSACTION_QUORUM_COMMITMENT, TRANSACTION_MNHF_SIGNAL, TRANSACTION_ASSET_UNLOCK})
    \<and> (vout tx = [] \<longrightarrow> nType tx \<in> {TRANSACTION_QUORUM_COMMITMENT, TRANSACTION_MNHF_SIGNAL})
    \<and> length (ser_CTransaction tx) \<le> MAX_LEGACY_BLOCK_SIZE
    \<and> length (vExtraPayload tx) \<le> MAX_TX_EXTRA_PAYLOAD
    \<and> check_outputs (vout tx) 0 = Inr () \<and> check_duplicates (vin tx) [] = Inr ()
    \<and> check_coinbase tx = Inr ()"
  by (auto simp: CheckTransaction_def Let_def split: sum.splits)

subsection \<open>Properties\<close>

text \<open>
  C35.  Serializing a well-formed transaction of non-negative version and reading it back gives
  the transaction and the bytes that followed; conversely the reader accepts a transaction of
  non-negative version only as exactly the bytes the writer produces for it, so its hash commits
  to every byte received.
\<close>

theorem transaction_wire_format:
  "(tx_ok tx \<longrightarrow> unser_CTransaction (ser_CTransaction tx @ rest) = Inr (tx, rest))
   \<and> (unser_CTransaction s = Inr (tx, rest) \<longrightarrow> 0 \<le> sint (tx_nVersion tx) \<longrightarrow>
        tx_ok tx \<and> s = ser_CTransaction tx @ rest)"
  using transaction.round_trip unser_CTransaction_canonical by blast

definition sample_tx :: CTransaction where
  "sample_tx = \<lparr>vin = [\<lparr>prevout = \<lparr>op_hash = replicate 32 7, op_n = 1\<rparr>, scriptSig = [0x51], nSequence = SEQUENCE_FINAL\<rparr>],
     vout = [\<lparr>nValue = 5, scriptPubKey = [0x6a]\<rparr>], tx_nVersion = 3, nType = TRANSACTION_ASSET_LOCK,
     nLockTime = 9, vExtraPayload = [1, 2]\<rparr>"

lemma sample_tx_ok: "tx_ok sample_tx"
  by (simp add: tx_ok_def sample_tx_def CTxIn_ok_def CTxOut_ok_def COutPoint_ok_def is_int64_def
      HasExtraPayloadField_def IsSpecialTxVersion_def SPECIAL_VERSION_def TRANSACTION_ASSET_LOCK_def
      TRANSACTION_NORMAL_def)

theorem transaction_wire_format_witness:
  "unser_CTransaction (ser_CTransaction sample_tx @ [0xff]) = Inr (sample_tx, [0xff])"
  using transaction_wire_format [of sample_tx "[0xff]" "[]"] sample_tx_ok by blast

text \<open>
  C36.  The format loses the type of a transaction of negative version: sign extension sets the
  upper sixteen bits, so all types share one serialization, and therefore one hash.
\<close>

theorem negative_version_type_lost:
  assumes "sint (tx_nVersion tx) < 0"
  shows "ser_CTransaction (tx\<lparr>nType := t\<rparr>) = ser_CTransaction tx
    \<and> GetHash h (tx\<lparr>nType := t\<rparr>) = GetHash h tx"
proof -
  have "\<not> IsSpecialTxVersion tx" "\<not> IsSpecialTxVersion (tx\<lparr>nType := t\<rparr>)"
    using assms by (simp_all add: IsSpecialTxVersion_def SPECIAL_VERSION_def)
  then have "ser_CTransaction (tx\<lparr>nType := t\<rparr>) = ser_CTransaction tx"
    using assms negative_version_hides_type [of tx] negative_version_hides_type [of "tx\<lparr>nType := t\<rparr>"]
    by (simp add: ser_CTransaction_def HasExtraPayloadField_def)
  then show ?thesis by (simp add: GetHash_def)
qed

theorem negative_version_type_lost_witness:
  "ser_CTransaction (CMutableTransaction\<lparr>tx_nVersion := 0x8000, nType := 6\<rparr>)
     = ser_CTransaction (CMutableTransaction\<lparr>tx_nVersion := 0x8000\<rparr>)"
  using negative_version_type_lost [of "CMutableTransaction\<lparr>tx_nVersion := 0x8000\<rparr>" 6]
  by simp

text \<open>
  C37.  \<^verbatim>\<open>CheckTransaction\<close> accepts a transaction with well-formed inputs exactly when it meets every
  context-free rule: inputs and outputs are present unless the type waives them, the size limits
  hold, every output and their exact sum lie in the money range, no outpoint is spent twice, and
  a null outpoint occurs only as the single input of a coinbase with a script of the right length.
\<close>

theorem CheckTransaction_correct:
  assumes "list_all CTxIn_ok (vin tx)"
  shows "CheckTransaction tx = Inr () \<longleftrightarrow>
    (vin tx = [] \<longrightarrow> nType tx \<in> {TRANSACTION_QUORUM_COMMITMENT, TRANSACTION_MNHF_SIGNAL, TRANSACTION_ASSET_UNLOCK})
    \<and> (vout tx = [] \<longrightarrow> nType tx \<in> {TRANSACTION_QUORUM_COMMITMENT, TRANSACTION_MNHF_SIGNAL})
    \<and> GetTotalSize tx \<le> 1000000 \<and> length (vExtraPayload tx) \<le> 10000
    \<and> (\<forall>ou \<in> set (vout tx). MoneyRange (nValue ou)) \<and> MoneyRange (sum_list (map nValue (vout tx)))
    \<and> distinct (map prevout (vin tx))
    \<and> (if IsCoinBase tx then (if nType tx = TRANSACTION_COINBASE then 1 else 2) \<le> length (scriptSig (vin tx ! 0))
        \<and> length (scriptSig (vin tx ! 0)) \<le> 100
       else (\<forall>i \<in> set (vin tx). \<not> COutPoint_IsNull (prevout i)))"
  unfolding CheckTransaction_parts check_coinbase_iff GetTotalSize_def MAX_LEGACY_BLOCK_SIZE_def
    MAX_TX_EXTRA_PAYLOAD_def list_all_iff
  using check_duplicates_iff [OF assms, of "[]"] check_outputs_iff [of 0 "vout tx"]
  by (simp add: list_all_iff)

theorem CheckTransaction_correct_witness:
  "CheckTransaction (sample_tx\<lparr>vin := vin sample_tx @ vin sample_tx\<rparr>) \<noteq> Inr ()"
  using CheckTransaction_correct [of "sample_tx\<lparr>vin := vin sample_tx @ vin sample_tx\<rparr>"] sample_tx_ok
  by (simp add: tx_ok_def) (simp add: sample_tx_def)

text \<open>
  A transaction that passes \<^verbatim>\<open>CheckTransaction\<close> never makes \<^verbatim>\<open>GetValueOut\<close> throw: it returns the
  exact sum of the outputs, which lies in the money range.
\<close>

theorem GetValueOut_after_check:
  assumes "CheckTransaction tx = Inr ()"
  shows "\<exists>v. GetValueOut tx = Inr v \<and> v = sum_list (map nValue (vout tx)) \<and> MoneyRange v"
proof -
  have "check_outputs (vout tx) 0 = Inr ()" using assms by (simp only: CheckTransaction_parts)
  then show ?thesis
    using sum_outputs_eq [of 0 "vout tx"] check_outputs_iff [of 0 "vout tx"] by (simp add: GetValueOut_def)
qed

theorem GetValueOut_after_check_witness:
  "\<exists>v. GetValueOut (CMutableTransaction\<lparr>nType := TRANSACTION_MNHF_SIGNAL\<rparr>) = Inr v"
proof -
  have "CheckTransaction (CMutableTransaction\<lparr>nType := TRANSACTION_MNHF_SIGNAL\<rparr>) = Inr ()"
    by (simp add: CheckTransaction_parts CMutableTransaction_def check_coinbase_iff IsCoinBase_def
        MAX_LEGACY_BLOCK_SIZE_def MAX_TX_EXTRA_PAYLOAD_def ser_CTransaction_def ser_vector_def
        ser_writedata32_def length_WriteCompactSize GetSizeOfCompactSize_def HasExtraPayloadField_def
        IsSpecialTxVersion_def SPECIAL_VERSION_def CURRENT_VERSION_def)
  from GetValueOut_after_check [OF this] show ?thesis by blast
qed

end
