(* ===== verification/Script.thy ===== *)
theory Script
  imports Transaction
begin

text \<open>
  The scripting language: \<^verbatim>\<open>script/script.{h,cpp}\<close>.  A script is a byte string, an iterator into it
  is the rest of the string, and an opcode is a byte.  The file models instruction decoding,
  pushes, script numbers and their minimal encoding, signature-operation counting and the
  template tests.
\<close>

subsection \<open>Limits and opcodes\<close>

definition MAX_SCRIPT_ELEMENT_SIZE :: nat where "MAX_SCRIPT_ELEMENT_SIZE = 520"
definition MAX_OPS_PER_SCRIPT :: nat where "MAX_OPS_PER_SCRIPT = 201"
definition MAX_PUBKEYS_PER_MULTISIG :: nat where "MAX_PUBKEYS_PER_MULTISIG = 20"
definition MAX_SCRIPT_SIZE :: nat where "MAX_SCRIPT_SIZE = 10000"
definition MAX_STACK_SIZE :: nat where "MAX_STACK_SIZE = 1000"
definition LOCKTIME_THRESHOLD :: int where "LOCKTIME_THRESHOLD = 500000000"

abbreviation (input) OP_0 :: u8 where "OP_0 \<equiv> 0x00"
abbreviation (input) OP_FALSE :: u8 where "OP_FALSE \<equiv> 0x00"
abbreviation (input) OP_PUSHDATA1 :: u8 where "OP_PUSHDATA1 \<equiv> 0x4c"
abbreviation (input) OP_PUSHDATA2 :: u8 where "OP_PUSHDATA2 \<equiv> 0x4d"
abbreviation (input) OP_PUSHDATA4 :: u8 where "OP_PUSHDATA4 \<equiv> 0x4e"
abbreviation (input) OP_1NEGATE :: u8 where "OP_1NEGATE \<equiv> 0x4f"
abbreviation (input) OP_RESERVED :: u8 where "OP_RESERVED \<equiv> 0x50"
abbreviation (input) OP_1 :: u8 where "OP_1 \<equiv> 0x51"
abbreviation (input) OP_TRUE :: u8 where "OP_TRUE \<equiv> 0x51"
abbreviation (input) OP_2 :: u8 where "OP_2 \<equiv> 0x52"
abbreviation (input) OP_3 :: u8 where "OP_3 \<equiv> 0x53"
abbreviation (input) OP_4 :: u8 where "OP_4 \<equiv> 0x54"
abbreviation (input) OP_5 :: u8 where "OP_5 \<equiv> 0x55"
abbreviation (input) OP_6 :: u8 where "OP_6 \<equiv> 0x56"
abbreviation (input) OP_7 :: u8 where "OP_7 \<equiv> 0x57"
abbreviation (input) OP_8 :: u8 where "OP_8 \<equiv> 0x58"
abbreviation (input) OP_9 :: u8 where "OP_9 \<equiv> 0x59"
abbreviation (input) OP_10 :: u8 where "OP_10 \<equiv> 0x5a"
abbreviation (input) OP_11 :: u8 where "OP_11 \<equiv> 0x5b"
abbreviation (input) OP_12 :: u8 where "OP_12 \<equiv> 0x5c"
abbreviation (input) OP_13 :: u8 where "OP_13 \<equiv> 0x5d"
abbreviation (input) OP_14 :: u8 where "OP_14 \<equiv> 0x5e"
abbreviation (input) OP_15 :: u8 where "OP_15 \<equiv> 0x5f"
abbreviation (input) OP_16 :: u8 where "OP_16 \<equiv> 0x60"
abbreviation (input) OP_NOP :: u8 where "OP_NOP \<equiv> 0x61"
abbreviation (input) OP_VER :: u8 where "OP_VER \<equiv> 0x62"
abbreviation (input) OP_IF :: u8 where "OP_IF \<equiv> 0x63"
abbreviation (input) OP_NOTIF :: u8 where "OP_NOTIF \<equiv> 0x64"
abbreviation (input) OP_VERIF :: u8 where "OP_VERIF \<equiv> 0x65"
abbreviation (input) OP_VERNOTIF :: u8 where "OP_VERNOTIF \<equiv> 0x66"
abbreviation (input) OP_ELSE :: u8 where "OP_ELSE \<equiv> 0x67"
abbreviation (input) OP_ENDIF :: u8 where "OP_ENDIF \<equiv> 0x68"
abbreviation (input) OP_VERIFY :: u8 where "OP_VERIFY \<equiv> 0x69"
abbreviation (input) OP_RETURN :: u8 where "OP_RETURN \<equiv> 0x6a"
abbreviation (input) OP_TOALTSTACK :: u8 where "OP_TOALTSTACK \<equiv> 0x6b"
abbreviation (input) OP_FROMALTSTACK :: u8 where "OP_FROMALTSTACK \<equiv> 0x6c"
abbreviation (input) OP_2DROP :: u8 where "OP_2DROP \<equiv> 0x6d"
abbreviation (input) OP_2DUP :: u8 where "OP_2DUP \<equiv> 0x6e"
abbreviation (input) OP_3DUP :: u8 where "OP_3DUP \<equiv> 0x6f"
abbreviation (input) OP_2OVER :: u8 where "OP_2OVER \<equiv> 0x70"
abbreviation (input) OP_2ROT :: u8 where "OP_2ROT \<equiv> 0x71"
abbreviation (input) OP_2SWAP :: u8 where "OP_2SWAP \<equiv> 0x72"
abbreviation (input) OP_IFDUP :: u8 where "OP_IFDUP \<equiv> 0x73"
abbreviation (input) OP_DEPTH :: u8 where "OP_DEPTH \<equiv> 0x74"
abbreviation (input) OP_DROP :: u8 where "OP_DROP \<equiv> 0x75"
abbreviation (input) OP_DUP :: u8 where "OP_DUP \<equiv> 0x76"
abbreviation (input) OP_NIP :: u8 where "OP_NIP \<equiv> 0x77"
abbreviation (input) OP_OVER :: u8 where "OP_OVER \<equiv> 0x78"
abbreviation (input) OP_PICK :: u8 where "OP_PICK \<equiv> 0x79"
abbreviation (input) OP_ROLL :: u8 where "OP_ROLL \<equiv> 0x7a"
abbreviation (input) OP_ROT :: u8 where "OP_ROT \<equiv> 0x7b"
abbreviation (input) OP_SWAP :: u8 where "OP_SWAP \<equiv> 0x7c"
abbreviation (input) OP_TUCK :: u8 where "OP_TUCK \<equiv> 0x7d"
abbreviation (input) OP_CAT :: u8 where "OP_CAT \<equiv> 0x7e"
abbreviation (input) OP_SPLIT :: u8 where "OP_SPLIT \<equiv> 0x7f"
abbreviation (input) OP_SIZE :: u8 where "OP_SIZE \<equiv> 0x82"
abbreviation (input) OP_NUM2BIN :: u8 where "OP_NUM2BIN \<equiv> 0x80"
abbreviation (input) OP_BIN2NUM :: u8 where "OP_BIN2NUM \<equiv> 0x81"
abbreviation (input) OP_INVERT :: u8 where "OP_INVERT \<equiv> 0x83"
abbreviation (input) OP_AND :: u8 where "OP_AND \<equiv> 0x84"
abbreviation (input) OP_OR :: u8 where "OP_OR \<equiv> 0x85"
abbreviation (input) OP_XOR :: u8 where "OP_XOR \<equiv> 0x86"
abbreviation (input) OP_EQUAL :: u8 where "OP_EQUAL \<equiv> 0x87"
abbreviation (input) OP_EQUALVERIFY :: u8 where "OP_EQUALVERIFY \<equiv> 0x88"
abbreviation (input) OP_RESERVED1 :: u8 where "OP_RESERVED1 \<equiv> 0x89"
abbreviation (input) OP_RESERVED2 :: u8 where "OP_RESERVED2 \<equiv> 0x8a"
abbreviation (input) OP_1ADD :: u8 where "OP_1ADD \<equiv> 0x8b"
abbreviation (input) OP_1SUB :: u8 where "OP_1SUB \<equiv> 0x8c"
abbreviation (input) OP_2MUL :: u8 where "OP_2MUL \<equiv> 0x8d"
abbreviation (input) OP_2DIV :: u8 where "OP_2DIV \<equiv> 0x8e"
abbreviation (input) OP_NEGATE :: u8 where "OP_NEGATE \<equiv> 0x8f"
abbreviation (input) OP_ABS :: u8 where "OP_ABS \<equiv> 0x90"
abbreviation (input) OP_NOT :: u8 where "OP_NOT \<equiv> 0x91"
abbreviation (input) OP_0NOTEQUAL :: u8 where "OP_0NOTEQUAL \<equiv> 0x92"
abbreviation (input) OP_ADD :: u8 where "OP_ADD \<equiv> 0x93"
abbreviation (input) OP_SUB :: u8 where "OP_SUB \<equiv> 0x94"
abbreviation (input) OP_MUL :: u8 where "OP_MUL \<equiv> 0x95"
abbreviation (input) OP_DIV :: u8 where "OP_DIV \<equiv> 0x96"
abbreviation (input) OP_MOD :: u8 where "OP_MOD \<equiv> 0x97"
abbreviation (input) OP_LSHIFT :: u8 where "OP_LSHIFT \<equiv> 0x98"
abbreviation (input) OP_RSHIFT :: u8 where "OP_RSHIFT \<equiv> 0x99"
abbreviation (input) OP_BOOLAND :: u8 where "OP_BOOLAND \<equiv> 0x9a"
abbreviation (input) OP_BOOLOR :: u8 where "OP_BOOLOR \<equiv> 0x9b"
abbreviation (input) OP_NUMEQUAL :: u8 where "OP_NUMEQUAL \<equiv> 0x9c"
abbreviation (input) OP_NUMEQUALVERIFY :: u8 where "OP_NUMEQUALVERIFY \<equiv> 0x9d"
abbreviation (input) OP_NUMNOTEQUAL :: u8 where "OP_NUMNOTEQUAL \<equiv> 0x9e"
abbreviation (input) OP_LESSTHAN :: u8 where "OP_LESSTHAN \<equiv> 0x9f"
abbreviation (input) OP_GREATERTHAN :: u8 where "OP_GREATERTHAN \<equiv> 0xa0"
abbreviation (input) OP_LESSTHANOREQUAL :: u8 where "OP_LESSTHANOREQUAL \<equiv> 0xa1"
abbreviation (input) OP_GREATERTHANOREQUAL :: u8 where "OP_GREATERTHANOREQUAL \<equiv> 0xa2"
abbreviation (input) OP_MIN :: u8 where "OP_MIN \<equiv> 0xa3"
abbreviation (input) OP_MAX :: u8 where "OP_MAX \<equiv> 0xa4"
abbreviation (input) OP_WITHIN :: u8 where "OP_WITHIN \<equiv> 0xa5"
abbreviation (input) OP_RIPEMD160 :: u8 where "OP_RIPEMD160 \<equiv> 0xa6"
abbreviation (input) OP_SHA1 :: u8 where "OP_SHA1 \<equiv> 0xa7"
abbreviation (input) OP_SHA256 :: u8 where "OP_SHA256 \<equiv> 0xa8"
abbreviation (input) OP_HASH160 :: u8 where "OP_HASH160 \<equiv> 0xa9"
abbreviation (input) OP_HASH256 :: u8 where "OP_HASH256 \<equiv> 0xaa"
abbreviation (input) OP_CODESEPARATOR :: u8 where "OP_CODESEPARATOR \<equiv> 0xab"
abbreviation (input) OP_CHECKSIG :: u8 where "OP_CHECKSIG \<equiv> 0xac"
abbreviation (input) OP_CHECKSIGVERIFY :: u8 where "OP_CHECKSIGVERIFY \<equiv> 0xad"
abbreviation (input) OP_CHECKMULTISIG :: u8 where "OP_CHECKMULTISIG \<equiv> 0xae"
abbreviation (input) OP_CHECKMULTISIGVERIFY :: u8 where "OP_CHECKMULTISIGVERIFY \<equiv> 0xaf"
abbreviation (input) OP_NOP1 :: u8 where "OP_NOP1 \<equiv> 0xb0"
abbreviation (input) OP_CHECKLOCKTIMEVERIFY :: u8 where "OP_CHECKLOCKTIMEVERIFY \<equiv> 0xb1"
abbreviation (input) OP_NOP2 :: u8 where "OP_NOP2 \<equiv> 0xb1"
abbreviation (input) OP_CHECKSEQUENCEVERIFY :: u8 where "OP_CHECKSEQUENCEVERIFY \<equiv> 0xb2"
abbreviation (input) OP_NOP3 :: u8 where "OP_NOP3 \<equiv> 0xb2"
abbreviation (input) OP_NOP4 :: u8 where "OP_NOP4 \<equiv> 0xb3"
abbreviation (input) OP_NOP5 :: u8 where "OP_NOP5 \<equiv> 0xb4"
abbreviation (input) OP_NOP6 :: u8 where "OP_NOP6 \<equiv> 0xb5"
abbreviation (input) OP_NOP7 :: u8 where "OP_NOP7 \<equiv> 0xb6"
abbreviation (input) OP_NOP8 :: u8 where "OP_NOP8 \<equiv> 0xb7"
abbreviation (input) OP_NOP9 :: u8 where "OP_NOP9 \<equiv> 0xb8"
abbreviation (input) OP_NOP10 :: u8 where "OP_NOP10 \<equiv> 0xb9"
abbreviation (input) OP_CHECKDATASIG :: u8 where "OP_CHECKDATASIG \<equiv> 0xba"
abbreviation (input) OP_CHECKDATASIGVERIFY :: u8 where "OP_CHECKDATASIGVERIFY \<equiv> 0xbb"
abbreviation (input) OP_INVALIDOPCODE :: u8 where "OP_INVALIDOPCODE \<equiv> 0xff"

definition MAX_OPCODE :: u8 where "MAX_OPCODE = OP_CHECKDATASIGVERIFY"

text \<open>The enumeration itself, in the order of the source.\<close>

definition opcodetype :: "u8 list" where
  "opcodetype = [
    OP_0, OP_FALSE, OP_PUSHDATA1, OP_PUSHDATA2, OP_PUSHDATA4, OP_1NEGATE, OP_RESERVED, OP_1, OP_TRUE,
    OP_2, OP_3, OP_4, OP_5, OP_6, OP_7, OP_8, OP_9, OP_10, OP_11, OP_12, OP_13, OP_14, OP_15, OP_16,
    OP_NOP, OP_VER, OP_IF, OP_NOTIF, OP_VERIF, OP_VERNOTIF, OP_ELSE, OP_ENDIF, OP_VERIFY, OP_RETURN,
    OP_TOALTSTACK, OP_FROMALTSTACK, OP_2DROP, OP_2DUP, OP_3DUP, OP_2OVER, OP_2ROT, OP_2SWAP, OP_IFDUP,
    OP_DEPTH, OP_DROP, OP_DUP, OP_NIP, OP_OVER, OP_PICK, OP_ROLL, OP_ROT, OP_SWAP, OP_TUCK, OP_CAT,
    OP_SPLIT, OP_SIZE, OP_NUM2BIN, OP_BIN2NUM, OP_INVERT, OP_AND, OP_OR, OP_XOR, OP_EQUAL,
    OP_EQUALVERIFY, OP_RESERVED1, OP_RESERVED2, OP_1ADD, OP_1SUB, OP_2MUL, OP_2DIV, OP_NEGATE, OP_ABS,
    OP_NOT, OP_0NOTEQUAL, OP_ADD, OP_SUB, OP_MUL, OP_DIV, OP_MOD, OP_LSHIFT, OP_RSHIFT, OP_BOOLAND,
    OP_BOOLOR, OP_NUMEQUAL, OP_NUMEQUALVERIFY, OP_NUMNOTEQUAL, OP_LESSTHAN, OP_GREATERTHAN,
    OP_LESSTHANOREQUAL, OP_GREATERTHANOREQUAL, OP_MIN, OP_MAX, OP_WITHIN, OP_RIPEMD160, OP_SHA1,
    OP_SHA256, OP_HASH160, OP_HASH256, OP_CODESEPARATOR, OP_CHECKSIG, OP_CHECKSIGVERIFY,
    OP_CHECKMULTISIG, OP_CHECKMULTISIGVERIFY, OP_NOP1, OP_CHECKLOCKTIMEVERIFY, OP_NOP2,
    OP_CHECKSEQUENCEVERIFY, OP_NOP3, OP_NOP4, OP_NOP5, OP_NOP6, OP_NOP7, OP_NOP8, OP_NOP9, OP_NOP10,
    OP_CHECKDATASIG, OP_CHECKDATASIGVERIFY, OP_INVALIDOPCODE]"

definition op_names :: "(u8 \<times> string) list" where
  "op_names = [
    (OP_0, ''0''), (OP_PUSHDATA1, ''OP_PUSHDATA1''), (OP_PUSHDATA2, ''OP_PUSHDATA2''),
    (OP_PUSHDATA4, ''OP_PUSHDATA4''), (OP_1NEGATE, ''-1''), (OP_RESERVED, ''OP_RESERVED''),
    (OP_1, ''1''), (OP_2, ''2''), (OP_3, ''3''),
    (OP_4, ''4''), (OP_5, ''5''), (OP_6, ''6''),
    (OP_7, ''7''), (OP_8, ''8''), (OP_9, ''9''),
    (OP_10, ''10''), (OP_11, ''11''), (OP_12, ''12''),
    (OP_13, ''13''), (OP_14, ''14''), (OP_15, ''15''),
    (OP_16, ''16''), (OP_NOP, ''OP_NOP''), (OP_VER, ''OP_VER''),
    (OP_IF, ''OP_IF''), (OP_NOTIF, ''OP_NOTIF''), (OP_VERIF, ''OP_VERIF''),
    (OP_VERNOTIF, ''OP_VERNOTIF''), (OP_ELSE, ''OP_ELSE''), (OP_ENDIF, ''OP_ENDIF''),
    (OP_VERIFY, ''OP_VERIFY''), (OP_RETURN, ''OP_RETURN''), (OP_TOALTSTACK, ''OP_TOALTSTACK''),
    (OP_FROMALTSTACK, ''OP_FROMALTSTACK''), (OP_2DROP, ''OP_2DROP''), (OP_2DUP, ''OP_2DUP''),
    (OP_3DUP, ''OP_3DUP''), (OP_2OVER, ''OP_2OVER''), (OP_2ROT, ''OP_2ROT''),
    (OP_2SWAP, ''OP_2SWAP''), (OP_IFDUP, ''OP_IFDUP''), (OP_DEPTH, ''OP_DEPTH''),
    (OP_DROP, ''OP_DROP''), (OP_DUP, ''OP_DUP''), (OP_NIP, ''OP_NIP''),
    (OP_OVER, ''OP_OVER''), (OP_PICK, ''OP_PICK''), (OP_ROLL, ''OP_ROLL''),
    (OP_ROT, ''OP_ROT''), (OP_SWAP, ''OP_SWAP''), (OP_TUCK, ''OP_TUCK''),
    (OP_CAT, ''OP_CAT''), (OP_SPLIT, ''OP_SPLIT''), (OP_SIZE, ''OP_SIZE''),
    (OP_NUM2BIN, ''OP_NUM2BIN''), (OP_BIN2NUM, ''OP_BIN2NUM''), (OP_INVERT, ''OP_INVERT''),
    (OP_AND, ''OP_AND''), (OP_OR, ''OP_OR''), (OP_XOR, ''OP_XOR''),
    (OP_EQUAL, ''OP_EQUAL''), (OP_EQUALVERIFY, ''OP_EQUALVERIFY''), (OP_RESERVED1, ''OP_RESERVED1''),
    (OP_RESERVED2, ''OP_RESERVED2''), (OP_1ADD, ''OP_1ADD''), (OP_1SUB, ''OP_1SUB''),
    (OP_2MUL, ''OP_2MUL''), (OP_2DIV, ''OP_2DIV''), (OP_NEGATE, ''OP_NEGATE''),
    (OP_ABS, ''OP_ABS''), (OP_NOT, ''OP_NOT''), (OP_0NOTEQUAL, ''OP_0NOTEQUAL''),
    (OP_ADD, ''OP_ADD''), (OP_SUB, ''OP_SUB''), (OP_MUL, ''OP_MUL''),
    (OP_DIV, ''OP_DIV''), (OP_MOD, ''OP_MOD''), (OP_LSHIFT, ''OP_LSHIFT''),
    (OP_RSHIFT, ''OP_RSHIFT''), (OP_BOOLAND, ''OP_BOOLAND''), (OP_BOOLOR, ''OP_BOOLOR''),
    (OP_NUMEQUAL, ''OP_NUMEQUAL''), (OP_NUMEQUALVERIFY, ''OP_NUMEQUALVERIFY''), (OP_NUMNOTEQUAL, ''OP_NUMNOTEQUAL''),
    (OP_LESSTHAN, ''OP_LESSTHAN''), (OP_GREATERTHAN, ''OP_GREATERTHAN''), (OP_LESSTHANOREQUAL, ''OP_LESSTHANOREQUAL''),
    (OP_GREATERTHANOREQUAL, ''OP_GREATERTHANOREQUAL''), (OP_MIN, ''OP_MIN''), (OP_MAX, ''OP_MAX''),
    (OP_WITHIN, ''OP_WITHIN''), (OP_RIPEMD160, ''OP_RIPEMD160''), (OP_SHA1, ''OP_SHA1''),
    (OP_SHA256, ''OP_SHA256''), (OP_HASH160, ''OP_HASH160''), (OP_HASH256, ''OP_HASH256''),
    (OP_CODESEPARATOR, ''OP_CODESEPARATOR''), (OP_CHECKSIG, ''OP_CHECKSIG''), (OP_CHECKSIGVERIFY, ''OP_CHECKSIGVERIFY''),
    (OP_CHECKMULTISIG, ''OP_CHECKMULTISIG''), (OP_CHECKMULTISIGVERIFY, ''OP_CHECKMULTISIGVERIFY''), (OP_NOP1, ''OP_NOP1''),
    (OP_CHECKLOCKTIMEVERIFY, ''OP_CHECKLOCKTIMEVERIFY''), (OP_CHECKSEQUENCEVERIFY, ''OP_CHECKSEQUENCEVERIFY''), (OP_NOP4, ''OP_NOP4''),
    (OP_NOP5, ''OP_NOP5''), (OP_NOP6, ''OP_NOP6''), (OP_NOP7, ''OP_NOP7''),
    (OP_NOP8, ''OP_NOP8''), (OP_NOP9, ''OP_NOP9''), (OP_NOP10, ''OP_NOP10''),
    (OP_CHECKDATASIG, ''OP_CHECKDATASIG''), (OP_CHECKDATASIGVERIFY, ''OP_CHECKDATASIGVERIFY''), (OP_INVALIDOPCODE, ''OP_INVALIDOPCODE'')]"

definition GetOpName :: "u8 \<Rightarrow> string" where
  "GetOpName opcode = (case map_of op_names opcode of Some s \<Rightarrow> s | None \<Rightarrow> ''OP_UNKNOWN'')"

lemma GetOpName_total: "list_all (\<lambda>op. GetOpName op \<noteq> ''OP_UNKNOWN'') opcodetype"
  by code_simp

subsection \<open>Instruction decoding\<close>

text \<open>The operand length that follows the opcode, and the bytes after it.\<close>

definition operand_size :: "u8 \<Rightarrow> bytes \<Rightarrow> (nat \<times> bytes) option" where
  "operand_size opcode pc =
    (if opcode < OP_PUSHDATA1 then Some (unat opcode, pc)
     else if opcode = OP_PUSHDATA1 then
       (if length pc < 1 then None else Some (unat (hd pc), tl pc))
     else if opcode = OP_PUSHDATA2 then
       (if length pc < 2 then None else Some (unat (ReadLE16 pc), drop 2 pc))
     else
       (if length pc < 4 then None else Some (unat (ReadLE32 pc), drop 4 pc)))"

fun GetScriptOp :: "bytes \<Rightarrow> (u8 \<times> bytes \<times> bytes) option" where
  "GetScriptOp [] = None"
| "GetScriptOp (opcode # pc) =
    (if opcode \<le> OP_PUSHDATA4
     then case operand_size opcode pc of None \<Rightarrow> None
       | Some (nSize, pc') \<Rightarrow>
          if length pc' < nSize then None else Some (opcode, take nSize pc', drop nSize pc')
     else Some (opcode, [], pc))"

definition push_data :: "bytes \<Rightarrow> CScript" where
  "push_data b =
    (if length b < unat OP_PUSHDATA1 then word_of_nat (length b) # b
     else if length b \<le> 0xff then OP_PUSHDATA1 # word_of_nat (length b) # b
     else if length b \<le> 0xffff then OP_PUSHDATA2 # WriteLE16 (word_of_nat (length b)) @ b
     else OP_PUSHDATA4 # WriteLE32 (word_of_nat (length b)) @ b)"

definition CheckMinimalPush :: "bytes \<Rightarrow> u8 \<Rightarrow> bool" where
  "CheckMinimalPush data opcode =
    (if length data = 0 then opcode = OP_0
     else if length data = 1 \<and> data ! 0 \<ge> 1 \<and> data ! 0 \<le> 16 then False
     else if length data = 1 \<and> data ! 0 = 0x81 then False
     else if length data \<le> 75 then unat opcode = length data
     else if length data \<le> 255 then opcode = OP_PUSHDATA1
     else if length data \<le> 65535 then opcode = OP_PUSHDATA2
     else True)"

lemma operand_size_shorter: "operand_size opcode pc = Some (n, pc') \<Longrightarrow> length pc' \<le> length pc"
  by (auto simp: operand_size_def split: if_splits)

lemma GetScriptOp_shorter: "GetScriptOp pc = Some (opcode, vch, pc') \<Longrightarrow> length pc' < length pc"
proof (induction pc rule: GetScriptOp.induct)
  case (2 opc pc)
  then show ?case
    using operand_size_shorter [of opc pc]
    by (auto split: if_splits option.splits)
qed simp

lemma GetScriptOp_push:
  assumes "length b < 2 ^ 32"
  shows "GetScriptOp (push_data b @ rest) =
    Some (if length b < 76 then word_of_nat (length b) else if length b \<le> 0xff then OP_PUSHDATA1
          else if length b \<le> 0xffff then OP_PUSHDATA2 else OP_PUSHDATA4, b, rest)"
proof -
  consider (a) "length b < 76" | (b) "76 \<le> length b" "length b \<le> 0xff"
    | (c) "0xff < length b" "length b \<le> 0xffff" | (d) "0xffff < length b" by linarith
  then show ?thesis
  proof cases
    case a
    have "unat (word_of_nat (length b) :: u8) = length b"
      using a by (simp add: unsigned_of_nat take_bit_nat_eq_self)
    then show ?thesis using a
      by (simp add: push_data_def operand_size_def word_less_nat_alt word_le_nat_alt)
  next
    case b
    have "unat (word_of_nat (length b) :: u8) = length b"
      using b by (simp add: unsigned_of_nat take_bit_nat_eq_self)
    then show ?thesis using b by (simp add: push_data_def operand_size_def)
  next
    case c
    have "unat (word_of_nat (length b) :: u16) = length b"
      using c by (simp add: unsigned_of_nat take_bit_nat_eq_self)
    then show ?thesis using c by (simp add: push_data_def operand_size_def)
  next
    case d
    have "unat (word_of_nat (length b) :: u32) = length b"
      using assms by (simp add: unsigned_of_nat take_bit_nat_eq_self)
    then show ?thesis using d by (simp add: push_data_def operand_size_def)
  qed
qed

subsection \<open>Script numbers\<close>

text \<open>
  A number is little-endian with the sign in the top bit of the last byte.  \<^verbatim>\<open>set_vch\<close> assembles the
  bytes in a 64-bit integer; \<^verbatim>\<open>serialize\<close> takes the absolute value as an unsigned integer, so that the
  most negative value needs no special case.
\<close>

definition le_or :: "bytes \<Rightarrow> u64" where
  "le_or vch = foldl (\<lambda>result i. result OR push_bit (8 * i) (ucast (vch ! i))) 0 [0..<length vch]"

definition set_vch :: "bytes \<Rightarrow> int" where
  "set_vch vch =
    (if vch = [] then 0
     else if last vch AND 0x80 \<noteq> 0
       then - sint (le_or vch AND NOT (push_bit (8 * (length vch - 1)) 0x80))
     else sint (le_or vch))"

fun le_digits :: "nat \<Rightarrow> bytes" where
  "le_digits absvalue = (if absvalue = 0 then [] else word_of_nat (absvalue mod 256) # le_digits (absvalue div 256))"

declare le_digits.simps [simp del]

definition scriptnum_serialize :: "int \<Rightarrow> bytes" where
  "scriptnum_serialize val =
    (if val = 0 then []
     else let neg = val < 0;
              absvalue = unat (if neg then NOT (word_of_int val) + 1 else word_of_int val :: u64);
              result = le_digits absvalue
          in if last result AND 0x80 \<noteq> 0 then result @ [if neg then 0x80 else 0]
             else if neg then butlast result @ [last result OR 0x80]
             else result)"

definition IsMinimallyEncoded :: "bytes \<Rightarrow> nat \<Rightarrow> bool" where
  "IsMinimallyEncoded vch nMaxNumSize =
    (if length vch > nMaxNumSize then False
     else if length vch > 0 \<and> last vch AND 0x7f = 0
       then \<not> (length vch \<le> 1 \<or> vch ! (length vch - 2) AND 0x80 = 0)
     else True)"

text \<open>
  The trimming loop of \<^verbatim>\<open>MinimallyEncode\<close>, running down from \<^verbatim>\<open>i\<close>; the flag of the pair is the value the
  method returns.
\<close>

fun trim_zeros :: "u8 \<Rightarrow> bytes \<Rightarrow> nat \<Rightarrow> bytes" where
  "trim_zeros lst data 0 = []"
| "trim_zeros lst data (Suc i) =
    (if data ! i \<noteq> 0
     then if data ! i AND 0x80 \<noteq> 0 then take (Suc i + 1) (data[Suc i := lst])
          else take (Suc i) (data[i := data ! i OR lst])
     else trim_zeros lst data i)"

definition MinimallyEncode :: "bytes \<Rightarrow> bytes \<times> bool" where
  "MinimallyEncode data =
    (if length data = 0 then (data, False)
     else let lst = last data in
       if lst AND 0x7f \<noteq> 0 then (data, False)
       else if length data = 1 then ([], True)
       else if data ! (length data - 2) AND 0x80 \<noteq> 0 then (data, False)
       else (trim_zeros lst data (length data - 1), True))"

definition nDefaultMaxNumSize :: nat where "nDefaultMaxNumSize = 4"

datatype num_error = ScriptNumOverflow | NonMinimalScriptNum

definition CScriptNum :: "bytes \<Rightarrow> bool \<Rightarrow> nat \<Rightarrow> num_error + int" where
  "CScriptNum vch fRequireMinimal nMaxNumSize =
    (if length vch > nMaxNumSize then Inl ScriptNumOverflow
     else if fRequireMinimal \<and> \<not> IsMinimallyEncoded vch nMaxNumSize then Inl NonMinimalScriptNum
     else Inr (set_vch vch))"

definition getint :: "int \<Rightarrow> int" where
  "getint m_value = (if m_value > 2 ^ 31 - 1 then 2 ^ 31 - 1
     else if m_value < - (2 ^ 31) then - (2 ^ 31) else m_value)"

definition push_int64 :: "int \<Rightarrow> CScript" where
  "push_int64 n =
    (if n = -1 \<or> (n \<ge> 1 \<and> n \<le> 16) then [word_of_int (n + uint (OP_1 - 1))]
     else if n = 0 then [OP_0]
     else push_data (scriptnum_serialize n))"

subsubsection \<open>Sign and magnitude\<close>

definition sm_mag :: "bytes \<Rightarrow> nat" where
  "sm_mag vch = (if vch = [] then 0 else le_val (butlast vch) + 256 ^ (length vch - 1) * (unat (last vch) mod 128))"

definition sm_neg :: "bytes \<Rightarrow> bool" where
  "sm_neg vch \<longleftrightarrow> vch \<noteq> [] \<and> 128 \<le> unat (last vch)"

definition sm_val :: "bytes \<Rightarrow> int" where
  "sm_val vch = (if sm_neg vch then - int (sm_mag vch) else int (sm_mag vch))"

lemma byte_half:
  "(x :: nat) < 256 \<Longrightarrow> x div 128 = (if 128 \<le> x then 1 else 0) \<and> x mod 128 = (if 128 \<le> x then x - 128 else x)"
  by (simp add: le_div_geq le_mod_geq)

lemma byte_high: "b AND 0x80 = 0 \<longleftrightarrow> unat (b :: u8) < 128"
proof -
  have "b AND 0x80 \<noteq> 0 \<longleftrightarrow> bit b 7"
    using bit_iff_and_push_bit_not_eq_0 [of b 7] by simp
  also have "\<dots> \<longleftrightarrow> bit (unat b) 7" by (simp add: bit_unsigned_iff)
  also have "\<dots> \<longleftrightarrow> odd (unat b div 128)" by (simp add: bit_iff_odd)
  also have "\<dots> \<longleftrightarrow> 128 \<le> unat b"
  proof -
    have "x < 256 \<Longrightarrow> odd (x div 128) \<longleftrightarrow> 128 \<le> x" for x :: nat by (simp add: byte_half)
    then show ?thesis by simp
  qed
  finally show ?thesis by auto
qed

lemma byte_low_zero: "b AND 0x7f = 0 \<longleftrightarrow> unat (b :: u8) mod 128 = 0"
  using byte_low7 [of b] by (metis unsigned_0 unat_eqI)

lemma le_or_Nil [simp]: "le_or [] = 0"
  by (simp add: le_or_def)

lemma le_or_snoc: "le_or (vch @ [b]) = le_or vch OR push_bit (8 * length vch) (ucast b)"
proof -
  have "foldl (\<lambda>r i. r OR push_bit (8 * i) (ucast ((vch @ [b]) ! i))) 0 [0..<length vch] = le_or vch"
    unfolding le_or_def by (rule foldl_cong) (simp_all add: nth_append)
  then show ?thesis by (simp add: le_or_def)
qed

lemma le_val_snoc: "le_val (vch @ [b]) = le_val vch + 256 ^ length vch * unat b"
  by (simp add: le_val_append)

lemma unat_le_or: "length vch \<le> 8 \<Longrightarrow> unat (le_or vch) = le_val vch"
proof (induction vch rule: rev_induct)
  case (snoc b vch)
  let ?k = "8 * length vch"
  have ih: "unat (le_or vch) = le_val vch" and l: "length vch \<le> 7" using snoc by simp_all
  have lt: "unat (le_or vch) < 2 ^ ?k" using le_val_less [of vch] by (simp add: ih power_mult)
  have pb: "unat (push_bit ?k (ucast b) :: u64) = 2 ^ ?k * unat b"
  proof -
    have "2 ^ ?k * unat b < 2 ^ ?k * 2 ^ 8" by simp
    also have "\<dots> = 2 ^ (?k + 8)" by (simp add: power_add)
    also have "\<dots> \<le> 2 ^ 64" using l by (intro power_increasing) simp_all
    finally show ?thesis
      unfolding unsigned_push_bit_eq by (simp add: take_bit_nat_eq_self push_bit_eq_mult mult.commute)
  qed
  have "le_or vch AND push_bit ?k (ucast b) = 0"
  proof (rule bit_word_eqI)
    fix n assume "n < LENGTH(64)"
    have "take_bit ?k (le_or vch) = le_or vch"
      by (rule unat_eqI) (simp add: unat_take_bit_mod lt)
    then have "bit (le_or vch) n \<Longrightarrow> n < ?k" by (metis bit_take_bit_iff)
    then show "bit (le_or vch AND push_bit ?k (ucast b)) n = bit (0 :: u64) n"
      by (auto simp: bit_simps)
  qed
  then have "le_or (vch @ [b]) = le_or vch + push_bit ?k (ucast b)"
    by (simp add: le_or_snoc disjunctive_add_eq_or)
  moreover have "unat (le_or vch) + unat (push_bit ?k (ucast b) :: u64) < 2 ^ LENGTH(64)"
  proof -
    have "le_val (vch @ [b]) < 256 ^ length (vch @ [b])" by (rule le_val_less)
    also have "\<dots> \<le> 256 ^ 8" using snoc.prems by (intro power_increasing) simp_all
    finally show ?thesis by (simp add: le_val_snoc ih pb power_mult)
  qed
  ultimately show ?case
    by (simp add: unat_add_small ih pb le_val_snoc power_mult)
qed simp

lemma bit_sign_byte: "bit (0x80 :: u64) k \<longleftrightarrow> k = 7"
proof -
  have e: "(0x80 :: u64) = push_bit 7 1" by simp
  show ?thesis unfolding e by (simp only: bit_push_bit_iff bit_1_iff possible_bit_word) auto
qed

lemma bit_low7_mask: "bit (0x7f :: u8) k \<longleftrightarrow> k < 7"
proof -
  have e: "(0x7f :: u8) = mask 7" by (simp add: mask_eq_exp_minus_1)
  show ?thesis unfolding e by (simp only: bit_mask_iff possible_bit_word) auto
qed

lemma le_or_clear_sign:
  assumes "length vch \<le> 7"
  shows "le_or (vch @ [b]) AND NOT (push_bit (8 * length vch) 0x80) = le_or (vch @ [b AND 0x7f])"
proof (rule bit_word_eqI)
  fix n assume n: "n < LENGTH(64)"
  have "take_bit (8 * length vch) (le_or vch) = le_or vch"
    by (rule unat_eqI)
      (use assms le_val_less [of vch] in \<open>simp add: unat_take_bit_mod unat_le_or power_mult\<close>)
  then have lo: "bit (le_or vch) n \<Longrightarrow> n < 8 * length vch" by (metis bit_take_bit_iff)
  let ?k = "8 * length vch"
  have h: "bit (push_bit ?k 0x80 :: u64) n \<longleftrightarrow> n = ?k + 7"
      "bit (push_bit ?k (ucast (b AND 0x7f)) :: u64) n \<longleftrightarrow> bit (push_bit ?k (ucast b) :: u64) n \<and> n < ?k + 7"
    using n assms
    by (simp_all only: bit_push_bit_iff bit_sign_byte bit_and_iff bit_ucast_iff bit_low7_mask) auto
  have u: "bit (push_bit ?k (ucast b) :: u64) n \<Longrightarrow> n < ?k + 8 \<and> ?k \<le> n"
    by (auto simp: bit_simps dest: bit_imp_le_length)
  show "bit (le_or (vch @ [b]) AND NOT (push_bit ?k 0x80)) n = bit (le_or (vch @ [b AND 0x7f])) n"
    unfolding le_or_snoc bit_and_iff bit_or_iff bit_not_iff h using n lo u by auto
qed

lemma sint_u64_small: "unat (w :: u64) < 2 ^ 63 \<Longrightarrow> sint w = int (unat w)"
proof -
  assume "unat w < 2 ^ 63"
  then have "uint w < 2 ^ 63" by (simp add: uint_nat del: of_nat_unat)
  moreover have "0 \<le> uint w" by simp
  ultimately have "signed_take_bit 63 (uint w) = uint w"
    by (intro signed_take_bit_int_eq_self) linarith+
  then show ?thesis by (simp add: sint_uint)
qed

lemma sm_mag_snoc: "sm_mag (xs @ [b]) = le_val (xs @ [b AND 0x7f])"
  by (simp add: sm_mag_def le_val_snoc byte_low7)

lemma sm_neg_snoc: "sm_neg (xs @ [b]) \<longleftrightarrow> 128 \<le> unat b"
  by (simp add: sm_neg_def)

lemma sm_mag_less: "sm_mag (xs @ [b]) < 128 * 256 ^ length xs"
proof -
  let ?p = "256 ^ length xs :: nat" and ?m = "unat b mod 128"
  have "?p * Suc ?m \<le> ?p * 128" by (intro mult_le_mono2 Suc_leI mod_less_divisor) simp
  then have "?p * ?m + ?p \<le> 128 * ?p" by (simp only: mult_Suc_right mult.commute [of ?p 128] add.commute)
  moreover have "sm_mag (xs @ [b]) = le_val xs + ?p * ?m" by (simp add: sm_mag_def)
  ultimately show ?thesis using le_val_less [of xs] by linarith
qed

lemma set_vch_val: "length vch \<le> 8 \<Longrightarrow> set_vch vch = sm_val vch"
proof (cases vch rule: rev_cases)
  case (snoc xs b)
  assume l: "length vch \<le> 8"
  then have l7: "length xs \<le> 7" using snoc by simp
  have m: "unat (le_or (xs @ [b AND 0x7f])) = sm_mag vch"
    using l7 snoc by (simp add: unat_le_or sm_mag_snoc)
  have "sm_mag vch < 128 * 256 ^ length xs" unfolding snoc by (rule sm_mag_less)
  also have "\<dots> \<le> 128 * 256 ^ 7" using l7 by (intro mult_le_mono2 power_increasing) simp_all
  finally have s: "sint (le_or (xs @ [b AND 0x7f])) = int (sm_mag vch)"
    using m by (simp add: sint_u64_small)
  show ?thesis
  proof (cases "b AND 0x80 = 0")
    case True
    then have "b AND 0x7f = b" by (intro unat_eqI) (simp add: byte_low7 byte_high)
    then show ?thesis using True s snoc
      by (simp add: set_vch_def sm_val_def sm_neg_snoc byte_high)
  next
    case False
    then show ?thesis using s snoc le_or_clear_sign [OF l7, of b]
      by (simp add: set_vch_def sm_val_def sm_neg_snoc byte_high)
  qed
qed (simp add: set_vch_def sm_val_def sm_neg_def sm_mag_def)

lemma le_digits_0 [simp]: "le_digits 0 = []"
  by (simp add: le_digits.simps)

lemma le_digits_pos: "0 < n \<Longrightarrow> le_digits n = word_of_nat (n mod 256) # le_digits (n div 256)"
  by (subst le_digits.simps) simp

lemma le_val_le_digits [simp]: "le_val (le_digits n) = n"
proof (induction n rule: le_digits.induct)
  case (1 n)
  then show ?case
    by (cases "n = 0") (simp_all add: le_digits_pos unsigned_of_nat take_bit_nat_eq_self)
qed

lemma le_digits_Nil [simp]: "le_digits n = [] \<longleftrightarrow> n = 0"
  by (cases "n = 0") (simp_all add: le_digits_pos)

lemma last_le_digits: "n \<noteq> 0 \<Longrightarrow> last (le_digits n) \<noteq> 0"
proof (induction n rule: le_digits.induct)
  case (1 n)
  show ?case
  proof (cases "n div 256 = 0")
    case True
    then have "n < 256" by simp
    then have "unat (word_of_nat n :: u8) = n" by (simp add: unsigned_of_nat take_bit_nat_eq_self)
    then have "(word_of_nat n :: u8) \<noteq> 0" using 1(2) by auto
    then show ?thesis using True 1(2) \<open>n < 256\<close> by (simp add: le_digits_pos)
  next
    case False
    then show ?thesis using 1 by (simp add: le_digits_pos)
  qed
qed

lemma le_digits_le_val: "ds = [] \<or> last ds \<noteq> 0 \<Longrightarrow> le_digits (le_val ds) = ds"
proof (induction ds)
  case (Cons d ds)
  have "0 < le_val (d # ds)"
  proof (cases "ds = []")
    case True
    then have "d \<noteq> 0" using Cons.prems by simp
    then have "unat d \<noteq> 0" using unat_eqI [of d 0] by auto
    then show ?thesis by simp
  next
    case False
    then have "le_digits (le_val ds) = ds" using Cons by simp
    then have "le_val ds \<noteq> 0" using False by (cases "le_val ds = 0") simp_all
    then show ?thesis by simp
  qed
  moreover have "(unat d + 256 * le_val ds) mod 256 = unat d" "(unat d + 256 * le_val ds) div 256 = le_val ds"
    by simp_all
  moreover have "ds = [] \<or> last ds \<noteq> 0" using Cons.prems by (auto split: if_splits)
  ultimately show ?case using Cons.IH by (simp add: le_digits_pos)
qed simp

lemma abs_u64: "- (2 ^ 63) \<le> v \<Longrightarrow> v < 2 ^ 63 \<Longrightarrow>
  unat (if v < 0 then NOT (word_of_int v) + 1 else word_of_int v :: u64) = nat \<bar>v\<bar>"
proof -
  assume v: "- (2 ^ 63) \<le> v" "v < 2 ^ 63"
  have i: "unat (word_of_int k :: u64) = nat k" if "0 \<le> k" "k < 2 ^ 64" for k
  proof -
    have "int (unat (word_of_int k :: u64)) = k"
      using that by (simp add: unsigned_of_int take_bit_int_eq_self)
    then show ?thesis by linarith
  qed
  show ?thesis
  proof (cases "v < 0")
    case True
    have "NOT (word_of_int v) + 1 = (word_of_int (- v) :: u64)" by (simp add: not_eq_complement)
    moreover have "unat (word_of_int (- v) :: u64) = nat (- v)" by (rule i) (use True v in simp_all)
    ultimately show ?thesis using True by (simp only: if_True abs_of_neg)
  next
    case False
    then have "unat (word_of_int v :: u64) = nat v" by (intro i) (use v in simp_all)
    then show ?thesis using False by simp
  qed
qed

lemma or_sign: "unat b < 128 \<Longrightarrow> unat (b OR 0x80 :: u8) = unat b + 128"
proof -
  assume "unat b < 128"
  then have "b AND 0x80 = 0" by (simp add: byte_high)
  then have e: "b OR 0x80 = b + 0x80" by (simp add: disjunctive_add_eq_or)
  show ?thesis unfolding e using \<open>unat b < 128\<close> by (subst unat_add_small) simp_all
qed

text \<open>The shape of an encoded number, by its magnitude digits and its sign.\<close>

definition sm_encode :: "bytes \<Rightarrow> bool \<Rightarrow> bytes" where
  "sm_encode ds neg =
    (if last ds AND 0x80 \<noteq> 0 then ds @ [if neg then 0x80 else 0]
     else if neg then butlast ds @ [last ds OR 0x80] else ds)"

lemma serialize_sm_encode:
  "n \<noteq> 0 \<Longrightarrow> - (2 ^ 63) \<le> n \<Longrightarrow> n < 2 ^ 63 \<Longrightarrow>
     scriptnum_serialize n = sm_encode (le_digits (nat \<bar>n\<bar>)) (n < 0)"
  unfolding scriptnum_serialize_def sm_encode_def Let_def by (simp only: abs_u64 if_False)

lemma sm_encode_correct:
  assumes "ds \<noteq> []" "last ds \<noteq> 0"
  shows "sm_mag (sm_encode ds neg) = le_val ds \<and> sm_neg (sm_encode ds neg) = neg
    \<and> IsMinimallyEncoded (sm_encode ds neg) (length (sm_encode ds neg))"
proof -
  obtain xs b where d: "ds = xs @ [b]" using assms(1) by (metis rev_exhaust)
  have b0: "unat b \<noteq> 0" using assms(2) d unat_eqI [of b 0] by auto
  show ?thesis
  proof (cases "b AND 0x80 = 0")
    case False
    then show ?thesis
      using d by (auto simp: sm_encode_def sm_mag_def sm_neg_def IsMinimallyEncoded_def nth_append butlast_append)
  next
    case True
    then have b: "unat b < 128" by (simp add: byte_high)
    show ?thesis
    proof (cases neg)
      case neg: True
      have "unat (b OR 0x80) = unat b + 128" using or_sign [OF b] .
      then have "(unat (b OR 0x80)) mod 128 = unat b" using b by simp
      then show ?thesis using True neg d b0 or_sign [OF b]
        by (simp add: sm_encode_def sm_mag_def sm_neg_def IsMinimallyEncoded_def byte_low_zero le_val_snoc)
    next
      case False
      then show ?thesis using True d b b0
        by (simp add: sm_encode_def sm_mag_def sm_neg_def IsMinimallyEncoded_def byte_low_zero le_val_snoc)
    qed
  qed
qed

lemma minimal_cases:
  assumes "IsMinimallyEncoded v k" "v \<noteq> []"
  obtains xs b where "v = xs @ [b]" "unat b mod 128 \<noteq> 0"
  | ys c b where "v = ys @ [c, b]" "128 \<le> unat c" "unat b mod 128 = 0"
proof -
  obtain xs b where v: "v = xs @ [b]" using assms(2) by (metis rev_exhaust)
  show thesis
  proof (cases "unat b mod 128 = 0")
    case False
    then show ?thesis by (rule that(1) [OF v])
  next
    case True
    then have "xs \<noteq> []" "\<not> unat (last xs) < 128"
      using assms(1) v
      by (auto simp: IsMinimallyEncoded_def byte_low_zero byte_high nth_append last_conv_nth split: if_splits)
    then have "v = butlast xs @ [last xs, b]" "128 \<le> unat (last xs)" using v by simp_all
    then show ?thesis by (rule that(2) [OF _ _ True])
  qed
qed

lemma sm_encode_minimal:
  assumes "IsMinimallyEncoded v k" "v \<noteq> []"
  shows "0 < sm_mag v \<and> sm_encode (le_digits (sm_mag v)) (sm_neg v) = v"
  using assms
proof (cases rule: minimal_cases)
  case (1 xs b)
  have l: "unat (b AND 0x7f) = unat b mod 128" by (rule byte_low7)
  then have z: "b AND 0x7f \<noteq> 0" "unat (b AND 0x7f) < 128" using 1(2) by auto
  have d: "le_digits (sm_mag v) = xs @ [b AND 0x7f]"
    unfolding 1(1) sm_mag_snoc by (rule le_digits_le_val) (simp add: z(1))
  then have "sm_mag v \<noteq> 0" by (cases "sm_mag v = 0") simp_all
  moreover have "(b AND 0x7f) AND 0x80 = 0" by (simp add: byte_high z(2))
  moreover have "b AND 0x7f = b" if "unat b < 128" using that l by (intro unat_eqI) simp
  moreover have "(b AND 0x7f) OR 0x80 = b" if "128 \<le> unat b"
  proof (rule unat_eqI)
    have "128 \<le> x \<Longrightarrow> x < 256 \<Longrightarrow> x mod 128 + 128 = x" for x :: nat by (simp add: byte_half)
    from this [OF that unat_u8_less] show "unat ((b AND 0x7f) OR 0x80) = unat b" using or_sign [OF z(2)] l by simp
  qed
  ultimately show ?thesis using d 1(1) by (auto simp: sm_encode_def sm_neg_def)
next
  case (2 ys c b)
  have m: "sm_mag v = le_val (ys @ [c])" using 2 by (simp add: sm_mag_def butlast_append)
  have c: "c \<noteq> 0" using 2(2) by auto
  have d: "le_digits (sm_mag v) = ys @ [c]" unfolding m by (rule le_digits_le_val) (simp add: c)
  then have "sm_mag v \<noteq> 0" by (cases "sm_mag v = 0") simp_all
  moreover have "c AND 0x80 \<noteq> 0" using 2(2) by (simp add: byte_high)
  moreover have "x mod 128 = 0 \<Longrightarrow> x < 256 \<Longrightarrow> x = (if 128 \<le> x then 128 else 0)" for x :: nat
    using byte_half [of x] by auto
  from this [OF 2(3) unat_u8_less] have "b = (if 128 \<le> unat b then 0x80 else 0)"
    by (intro unat_eqI) (simp split: if_splits)
  ultimately show ?thesis using d 2(1) by (auto simp: sm_encode_def sm_neg_def)
qed

lemma serialize_val:
  assumes "\<bar>n\<bar> < 2 ^ 63"
  shows "sm_val (scriptnum_serialize n) = n
    \<and> IsMinimallyEncoded (scriptnum_serialize n) (length (scriptnum_serialize n))"
proof (cases "n = 0")
  case True
  then show ?thesis
    by (simp add: scriptnum_serialize_def sm_val_def sm_neg_def sm_mag_def IsMinimallyEncoded_def)
next
  case False
  then have s: "scriptnum_serialize n = sm_encode (le_digits (nat \<bar>n\<bar>)) (n < 0)"
    using assms by (intro serialize_sm_encode) auto
  have "nat \<bar>n\<bar> \<noteq> 0" using False by simp
  then have "le_digits (nat \<bar>n\<bar>) \<noteq> []" "last (le_digits (nat \<bar>n\<bar>)) \<noteq> 0"
    by (simp, rule last_le_digits)
  from sm_encode_correct [OF this, of "n < 0"] show ?thesis unfolding s by (auto simp: sm_val_def)
qed

lemma sm_val_Nil [simp]: "sm_val [] = 0"
  by (simp add: sm_val_def sm_neg_def sm_mag_def)

lemma minimal_size: "IsMinimallyEncoded v k \<longleftrightarrow> IsMinimallyEncoded v (length v) \<and> length v \<le> k"
  by (auto simp: IsMinimallyEncoded_def)

lemma sm_mag_bound: "sm_mag v < 128 * 256 ^ (length v - 1)"
  by (cases v rule: rev_cases) (simp add: sm_mag_def, use sm_mag_less in simp)

lemma sm_val_small: "length v \<le> 8 \<Longrightarrow> \<bar>sm_val v\<bar> < 2 ^ 63"
proof -
  assume "length v \<le> 8"
  have "sm_mag v < 128 * 256 ^ (length v - 1)" by (rule sm_mag_bound)
  also have "\<dots> \<le> 128 * 256 ^ 7" using \<open>length v \<le> 8\<close> by (intro mult_le_mono2 power_increasing) simp_all
  finally show ?thesis by (simp add: sm_val_def)
qed

lemma serialize_minimal:
  assumes "IsMinimallyEncoded v k" "length v \<le> 8"
  shows "scriptnum_serialize (sm_val v) = v"
proof (cases "v = []")
  case True
  then show ?thesis by (simp add: scriptnum_serialize_def sm_val_def sm_neg_def sm_mag_def)
next
  case False
  note m = sm_encode_minimal [OF assms(1) False]
  have "sm_val v \<noteq> 0" "nat \<bar>sm_val v\<bar> = sm_mag v" "(sm_val v < 0) = sm_neg v" using m by (auto simp: sm_val_def)
  then show ?thesis using m sm_val_small [OF assms(2)]
    by (subst serialize_sm_encode) auto
qed

lemma minimal_lower:
  assumes "IsMinimallyEncoded v k" "2 \<le> length v"
  shows "128 * 256 ^ (length v - 2) \<le> sm_mag v"
proof -
  have "v \<noteq> []" using assms(2) by auto
  with assms(1) show ?thesis
  proof (cases rule: minimal_cases)
    case (1 xs b)
    have l: "length v - 2 = length xs - 1" "length xs \<noteq> 0" using 1 assms(2) by auto
    have "128 * 256 ^ (length xs - 1) \<le> (256 :: nat) ^ length xs"
      using l(2) by (cases "length xs") simp_all
    also have "\<dots> \<le> 256 ^ length xs * (unat b mod 128)" using 1(2) by simp
    also have "\<dots> \<le> sm_mag v" unfolding 1(1) by (simp add: sm_mag_def)
    finally show ?thesis using l by simp
  next
    case (2 ys c b)
    have "128 * 256 ^ length ys \<le> 256 ^ length ys * unat c" using 2(2) by simp
    also have "\<dots> \<le> sm_mag v" using 2 by (simp add: sm_mag_def butlast_append le_val_snoc)
    finally show ?thesis using 2(1) by simp
  qed
qed

lemma serialize_length:
  assumes "\<bar>n\<bar> < 2 ^ 63"
  shows "length (scriptnum_serialize n) \<le> Suc k \<longleftrightarrow> \<bar>n\<bar> < 128 * 256 ^ k"
proof
  let ?v = "scriptnum_serialize n"
  have v: "sm_val ?v = n" "IsMinimallyEncoded ?v (length ?v)" using serialize_val [OF assms] by blast+
  have a: "\<bar>n\<bar> = int (sm_mag ?v)" using v(1) unfolding sm_val_def by (auto split: if_splits)
  { assume "length ?v \<le> Suc k"
    have "sm_mag ?v < 128 * 256 ^ (length ?v - 1)" by (rule sm_mag_bound)
    also have "\<dots> \<le> 128 * 256 ^ k" using \<open>length ?v \<le> Suc k\<close> by (intro mult_le_mono2 power_increasing) simp_all
    finally have "int (sm_mag ?v) < int (128 * 256 ^ k)" by (simp only: of_nat_less_iff)
    then show "\<bar>n\<bar> < 128 * 256 ^ k" unfolding a by simp }
  { assume h: "\<bar>n\<bar> < 128 * 256 ^ k"
    show "length ?v \<le> Suc k"
    proof (rule ccontr)
      assume "\<not> length ?v \<le> Suc k"
      then have l: "2 \<le> length ?v" "k \<le> length ?v - 2" by simp_all
      have "(128 * 256 ^ k :: nat) \<le> 128 * 256 ^ (length ?v - 2)" using l(2) by (intro mult_le_mono2 power_increasing) simp_all
      also have "\<dots> \<le> sm_mag ?v" by (rule minimal_lower [OF v(2) l(1)])
      finally have "int (128 * 256 ^ k) \<le> int (sm_mag ?v)" by (simp only: of_nat_le_iff)
      then show False using h unfolding a by simp
    qed }
qed

subsubsection \<open>Minimal encoding\<close>

lemma le_val_zeros: "list_all (\<lambda>b. b = 0) zs \<Longrightarrow> le_val zs = 0"
  by (induction zs) simp_all

lemma trim_zeros_correct:
  assumes "i < length data" "lst = 0 \<or> lst = 0x80"
    "list_all (\<lambda>b. b = 0) (drop i (butlast data))" "last data = lst"
  shows "sm_val (trim_zeros lst data i) = sm_val data
    \<and> IsMinimallyEncoded (trim_zeros lst data i) (length (trim_zeros lst data i))"
  using assms
proof (induction i)
  case 0
  then have "le_val (butlast data) = 0" by (simp add: le_val_zeros)
  moreover have "unat lst mod 128 = 0" using 0(2) by auto
  ultimately have "sm_mag data = 0" using 0(4) by (simp add: sm_mag_def)
  then have "sm_val data = 0" by (simp add: sm_val_def)
  then show ?case by (simp add: IsMinimallyEncoded_def)
next
  case (Suc i)
  have i: "i < length (butlast data)" "i < length data" using Suc.prems(1) by auto
  show ?case
  proof (cases "data ! i = 0")
    case True
    have "drop i (butlast data) = data ! i # drop (Suc i) (butlast data)"
      using i by (simp add: Cons_nth_drop_Suc [symmetric] nth_butlast)
    then have "list_all (\<lambda>b. b = 0) (drop i (butlast data))" using Suc.prems(3) True by simp
    then show ?thesis using Suc.IH Suc.prems True i by simp
  next
    case False
    let ?c = "data ! i" and ?xs = "take i data"
    have t: "take (Suc i) data = ?xs @ [?c]" using i by (simp add: take_Suc_conv_app_nth)
    have lm: "unat lst mod 128 = 0" "128 \<le> unat lst \<longleftrightarrow> lst = 0x80" using Suc.prems(2) by auto
    have "butlast data = take (Suc i) data @ drop (Suc i) (butlast data)"
      using i by (metis append_take_drop_id butlast_conv_take take_take min.absorb1 Suc_leI length_butlast)
    then have "le_val (butlast data) = le_val (?xs @ [?c])"
      using Suc.prems(3) t by (metis add.right_neutral le_val_append le_val_zeros mult_0_right)
    then have md: "sm_mag data = le_val (?xs @ [?c])" "sm_neg data \<longleftrightarrow> lst = 0x80"
      using lm Suc.prems(4) i by (auto simp: sm_mag_def sm_neg_def)
    have c0: "unat ?c \<noteq> 0" using False unat_eqI [of ?c 0] by auto
    show ?thesis
    proof (cases "?c AND 0x80 = 0")
      case True
      then have c: "unat ?c < 128" by (simp add: byte_high)
      have cl: "unat (?c OR lst) = unat ?c + (if lst = 0x80 then 128 else 0)"
        using Suc.prems(2) or_sign [OF c] by auto
      have "trim_zeros lst data (Suc i) = ?xs @ [?c OR lst]"
        using False True i by (simp add: take_Suc_conv_app_nth)
      then show ?thesis
        using cl c c0 md by (auto simp: sm_val_def sm_mag_def sm_neg_def IsMinimallyEncoded_def byte_low_zero le_val_snoc)
    next
      case cf: False
      have "take (Suc (Suc i)) (data[Suc i := lst]) = take (Suc i) data @ [lst]"
        using Suc.prems(1) by (simp add: take_Suc_conv_app_nth [of "Suc i"])
      then have "trim_zeros lst data (Suc i) = ?xs @ [?c, lst]"
        using False cf t by simp
      then show ?thesis
        using cf md lm by (auto simp: sm_val_def sm_mag_def sm_neg_def IsMinimallyEncoded_def butlast_append nth_append)
    qed
  qed
qed

lemma MinimallyEncode_correct:
  "sm_val (fst (MinimallyEncode data)) = sm_val data
   \<and> IsMinimallyEncoded (fst (MinimallyEncode data)) (length (fst (MinimallyEncode data)))
   \<and> (snd (MinimallyEncode data) \<longleftrightarrow> \<not> IsMinimallyEncoded data (length data))"
proof (cases data rule: rev_cases)
  case Nil
  then show ?thesis by (simp add: MinimallyEncode_def IsMinimallyEncoded_def)
next
  case (snoc xs b)
  show ?thesis
  proof (cases "IsMinimallyEncoded data (length data)")
    case True
    then show ?thesis using snoc
      by (auto simp: MinimallyEncode_def IsMinimallyEncoded_def Let_def nth_append split: if_splits)
  next
    case False
    then have b: "b AND 0x7f = 0" "xs = [] \<or> data ! (length data - 2) AND 0x80 = 0"
      using snoc by (auto simp: IsMinimallyEncoded_def split: if_splits)
    have "x mod 128 = 0 \<Longrightarrow> x < 256 \<Longrightarrow> x = 0 \<or> x = 128" for x :: nat
      using byte_half [of x] by (auto split: if_splits)
    then have "unat b = 0 \<or> unat b = 128" using b(1) unat_u8_less [of b] by (simp add: byte_low_zero)
    then have b2: "b = 0 \<or> b = 0x80" using unat_eqI [of b 0] unat_eqI [of b "0x80"] by auto
    show ?thesis
    proof (cases "xs = []")
      case True
      then show ?thesis using snoc b b2 False
        by (auto simp: MinimallyEncode_def Let_def sm_val_def sm_neg_def sm_mag_def IsMinimallyEncoded_def)
    next
      case xs: False
      then have m: "MinimallyEncode data = (trim_zeros b data (length data - 1), True)"
        using snoc b by (simp add: MinimallyEncode_def Let_def)
      have "list_all (\<lambda>b. b = 0) (drop (length data - 1) (butlast data))" using snoc by simp
      from trim_zeros_correct [OF _ b2 this] show ?thesis using m snoc False by simp
    qed
  qed
qed

subsection \<open>Counting signature operations and recognising templates\<close>

definition DecodeOP_N :: "u8 \<Rightarrow> nat" where
  "DecodeOP_N opcode = (if opcode = OP_0 then 0 else unat opcode - unat (OP_1 - 1))"

definition EncodeOP_N :: "nat \<Rightarrow> u8" where
  "EncodeOP_N n = (if n = 0 then OP_0 else OP_1 + word_of_nat n - 1)"

definition sig_op_weight :: "bool \<Rightarrow> u8 \<Rightarrow> u8 \<Rightarrow> nat" where
  "sig_op_weight fAccurate lastOpcode opcode =
    (if opcode = OP_CHECKSIG \<or> opcode = OP_CHECKSIGVERIFY then 1
     else if opcode = OP_CHECKMULTISIG \<or> opcode = OP_CHECKMULTISIGVERIFY
       then if fAccurate \<and> lastOpcode \<ge> OP_1 \<and> lastOpcode \<le> OP_16 then DecodeOP_N lastOpcode
            else MAX_PUBKEYS_PER_MULTISIG
     else 0)"

function count_sig_ops :: "bool \<Rightarrow> u8 \<Rightarrow> bytes \<Rightarrow> nat" where
  "count_sig_ops fAccurate lastOpcode pc =
    (case GetScriptOp pc of None \<Rightarrow> 0
     | Some (opcode, _, pc') \<Rightarrow>
        sig_op_weight fAccurate lastOpcode opcode + count_sig_ops fAccurate opcode pc')"
  by auto
termination
  by (relation "measure (\<lambda>(_, _, pc). length pc)") (auto dest!: GetScriptOp_shorter [OF sym [OF sym]])

declare count_sig_ops.simps [simp del]

definition GetSigOpCount :: "CScript \<Rightarrow> bool \<Rightarrow> nat" where
  "GetSigOpCount script fAccurate = count_sig_ops fAccurate OP_INVALIDOPCODE script"

definition IsPayToPublicKeyHash :: "CScript \<Rightarrow> bool" where
  "IsPayToPublicKeyHash s \<longleftrightarrow> length s = 25 \<and> s ! 0 = OP_DUP \<and> s ! 1 = OP_HASH160 \<and> s ! 2 = 0x14
     \<and> s ! 23 = OP_EQUALVERIFY \<and> s ! 24 = OP_CHECKSIG"

definition IsPayToScriptHash :: "CScript \<Rightarrow> bool" where
  "IsPayToScriptHash s \<longleftrightarrow> length s = 23 \<and> s ! 0 = OP_HASH160 \<and> s ! 1 = 0x14 \<and> s ! 22 = OP_EQUAL"

definition IsPayToPublicKey :: "CScript \<Rightarrow> bool" where
  "IsPayToPublicKey s =
    (if length s = 35 then (s ! 1 = 0x02 \<or> s ! 1 = 0x03) \<and> s ! 34 = OP_CHECKSIG
     else if length s = 67 then s ! 1 = 0x04 \<and> s ! 66 = OP_CHECKSIG
     else False)"

function IsPushOnly :: "bytes \<Rightarrow> bool" where
  "IsPushOnly pc =
    (if pc = [] then True
     else case GetScriptOp pc of None \<Rightarrow> False
     | Some (opcode, _, pc') \<Rightarrow> if opcode > OP_16 then False else IsPushOnly pc')"
  by auto
termination
  by (relation "measure length") (auto dest!: GetScriptOp_shorter [OF sym [OF sym]])

declare IsPushOnly.simps [simp del]

text \<open>The last item the signature script pushes; \<^const>\<open>None\<close> when it is not push-only.\<close>

function last_push :: "bytes \<Rightarrow> bytes \<Rightarrow> bytes option" where
  "last_push vData pc =
    (if pc = [] then Some vData
     else case GetScriptOp pc of None \<Rightarrow> None
     | Some (opcode, vch, pc') \<Rightarrow> if opcode > OP_16 then None else last_push vch pc')"
  by auto
termination
  by (relation "measure (\<lambda>(_, pc). length pc)") (auto dest!: GetScriptOp_shorter [OF sym [OF sym]])

declare last_push.simps [simp del]

definition GetSigOpCount_P2SH :: "CScript \<Rightarrow> CScript \<Rightarrow> nat" where
  "GetSigOpCount_P2SH script sig =
    (if \<not> IsPayToScriptHash script then GetSigOpCount script True
     else case last_push [] sig of None \<Rightarrow> 0 | Some subscript \<Rightarrow> GetSigOpCount subscript True)"

definition IsUnspendable :: "CScript \<Rightarrow> bool" where
  "IsUnspendable s \<longleftrightarrow> (length s > 0 \<and> s ! 0 = OP_RETURN) \<or> length s > MAX_SCRIPT_SIZE"

lemma sig_op_weight_accurate: "sig_op_weight True l opc \<le> sig_op_weight False l opc"
  by (auto simp: sig_op_weight_def DecodeOP_N_def MAX_PUBKEYS_PER_MULTISIG_def word_le_nat_alt)

lemma sig_op_weight_le: "sig_op_weight a l opc \<le> 20"
  by (auto simp: sig_op_weight_def DecodeOP_N_def MAX_PUBKEYS_PER_MULTISIG_def word_le_nat_alt)

lemma sig_op_weight_push: "opc \<le> OP_16 \<Longrightarrow> sig_op_weight a l opc = 0"
  by (auto simp: sig_op_weight_def)

lemma count_sig_ops_accurate: "count_sig_ops True l pc \<le> count_sig_ops False l' pc"
proof (induction "length pc" arbitrary: l l' pc rule: less_induct)
  case less
  show ?case
  proof (cases "GetScriptOp pc")
    case (Some r)
    obtain opc v p where r: "r = (opc, v, p)" by (cases r)
    have "sig_op_weight True l opc \<le> sig_op_weight False l opc" by (rule sig_op_weight_accurate)
    also have "\<dots> = sig_op_weight False l' opc" by (simp add: sig_op_weight_def)
    finally show ?thesis
      using less [of p opc opc] GetScriptOp_shorter Some r
      by (simp add: count_sig_ops.simps [of _ _ pc] add_mono)
  qed (simp add: count_sig_ops.simps)
qed

lemma count_sig_ops_le: "count_sig_ops a l pc \<le> 20 * length pc"
proof (induction a l pc rule: count_sig_ops.induct)
  case (1 a l pc)
  show ?case
  proof (cases "GetScriptOp pc")
    case (Some r)
    obtain opc v p where r: "r = (opc, v, p)" by (cases r)
    have "count_sig_ops a opc p \<le> 20 * length p" using 1 Some r by blast
    moreover have "length p < length pc" using GetScriptOp_shorter Some r by blast
    ultimately show ?thesis
      using sig_op_weight_le [of a l opc] Some r by (simp add: count_sig_ops.simps [of _ _ pc])
  qed (simp add: count_sig_ops.simps)
qed

lemma IsPushOnly_step:
  "GetScriptOp pc = Some (opc, v, p) \<Longrightarrow> IsPushOnly pc \<longleftrightarrow> opc \<le> OP_16 \<and> IsPushOnly p"
  by (subst IsPushOnly.simps) (auto simp: not_less)

lemma count_sig_ops_push: "IsPushOnly pc \<Longrightarrow> count_sig_ops a l pc = 0"
proof (induction "length pc" arbitrary: l pc rule: less_induct)
  case less
  show ?case
  proof (cases "GetScriptOp pc")
    case (Some r)
    obtain opc v p where r: "r = (opc, v, p)" by (cases r)
    note s = Some [unfolded r]
    have "opc \<le> OP_16" "IsPushOnly p" using less.prems unfolding IsPushOnly_step [OF s] by simp_all
    moreover from this have "count_sig_ops a opc p = 0" by (intro less.hyps GetScriptOp_shorter [OF s])
    ultimately show ?thesis unfolding count_sig_ops.simps [of _ _ pc] s by (simp add: sig_op_weight_push)
  qed (simp add: count_sig_ops.simps)
qed

text \<open>The opcodes of a script up to the first one that does not decode.\<close>

function script_opcodes :: "bytes \<Rightarrow> u8 list" where
  "script_opcodes pc = (case GetScriptOp pc of None \<Rightarrow> [] | Some (opcode, _, pc') \<Rightarrow> opcode # script_opcodes pc')"
  by auto
termination by (relation "measure length") (auto dest: GetScriptOp_shorter)

declare script_opcodes.simps [simp del]

lemma count_sig_ops_exact:
  "count_sig_ops a l pc = length (filter (\<lambda>opc. opc = OP_CHECKSIG \<or> opc = OP_CHECKSIGVERIFY) (script_opcodes pc))
    + (\<Sum>(prev, opc) \<leftarrow> zip (l # script_opcodes pc) (script_opcodes pc).
         if opc = OP_CHECKMULTISIG \<or> opc = OP_CHECKMULTISIGVERIFY
         then (if a \<and> OP_1 \<le> prev \<and> prev \<le> OP_16 then unat prev - 80 else 20) else 0)"
proof (induction pc arbitrary: l rule: script_opcodes.induct)
  case (1 pc)
  show ?case
  proof (cases "GetScriptOp pc")
    case None
    then show ?thesis by (simp add: count_sig_ops.simps [of _ _ pc] script_opcodes.simps [of pc])
  next
    case (Some r)
    then obtain opc v pc' where s: "GetScriptOp pc = Some (opc, v, pc')" by (cases r) auto
    have "OP_1 \<le> l \<Longrightarrow> l \<noteq> OP_0" by auto
    then have w: "sig_op_weight a l opc = (if opc = OP_CHECKSIG \<or> opc = OP_CHECKSIGVERIFY then 1
      else if opc = OP_CHECKMULTISIG \<or> opc = OP_CHECKMULTISIGVERIFY
      then (if a \<and> OP_1 \<le> l \<and> l \<le> OP_16 then unat l - 80 else 20) else 0)"
      by (auto simp: sig_op_weight_def DecodeOP_N_def MAX_PUBKEYS_PER_MULTISIG_def)
    show ?thesis unfolding count_sig_ops.simps [of _ _ pc] script_opcodes.simps [of pc] s
      using 1 [OF s refl refl, of opc] by (simp add: w)
  qed
qed

lemma push_data_nonempty [simp]: "push_data b \<noteq> []"
  by (simp add: push_data_def)

lemma GetScriptOp_push_le:
  "length b < 2 ^ 32 \<Longrightarrow> \<exists>opc. GetScriptOp (push_data b @ rest) = Some (opc, b, rest) \<and> opc \<le> OP_16"
  by (auto simp: GetScriptOp_push word_le_nat_alt unsigned_of_nat take_bit_nat_eq_self)

lemma pushes_push_only:
  "list_all (\<lambda>b. length b < 2 ^ 32) bs \<Longrightarrow> IsPushOnly (concat (map push_data bs))
     \<and> last_push d (concat (map push_data bs)) = Some (if bs = [] then d else last bs)"
proof (induction bs arbitrary: d)
  case (Cons b bs)
  let ?r = "concat (map push_data bs)"
  obtain opc where o: "GetScriptOp (push_data b @ ?r) = Some (opc, b, ?r)" "opc \<le> OP_16"
    using GetScriptOp_push_le [of b ?r] Cons.prems by auto
  then show ?case using Cons
    by (simp add: IsPushOnly.simps [of "push_data b @ ?r"] last_push.simps [of d "push_data b @ ?r"] not_less)
qed (simp add: IsPushOnly.simps last_push.simps)

subsection \<open>Properties\<close>

text \<open>
  C38.  Script numbers: serialization and the minimal-encoding parser are inverse to each other.
  A number comes back from its bytes through a parser of \<open>k + 1\<close> bytes that requires minimality
  exactly when its absolute value is below \<open>128 * 256^k\<close> (for the default four bytes: below
  \<open>2^31\<close>), and a byte string accepted by such a parser is the serialization of its value.
\<close>

theorem script_number_bijection:
  assumes "k < 8"
  shows "(\<bar>n\<bar> < 2 ^ 63 \<longrightarrow> (CScriptNum (scriptnum_serialize n) True (Suc k) = Inr n \<longleftrightarrow> \<bar>n\<bar> < 128 * 256 ^ k))
    \<and> (CScriptNum vch True (Suc k) = Inr m \<longrightarrow> vch = scriptnum_serialize m)"
proof (intro conjI impI)
  assume n: "\<bar>n\<bar> < 2 ^ 63"
  let ?v = "scriptnum_serialize n"
  have "CScriptNum ?v True (Suc k) = Inr (set_vch ?v) \<longleftrightarrow> length ?v \<le> Suc k"
    using serialize_val [OF n] minimal_size [of ?v "Suc k"] by (auto simp: CScriptNum_def)
  moreover have "length ?v \<le> Suc k \<Longrightarrow> set_vch ?v = n"
    using set_vch_val [of ?v] serialize_val [OF n] assms by simp
  moreover have "\<not> length ?v \<le> Suc k \<Longrightarrow> CScriptNum ?v True (Suc k) \<noteq> Inr n" by (simp add: CScriptNum_def)
  ultimately show "CScriptNum ?v True (Suc k) = Inr n \<longleftrightarrow> \<bar>n\<bar> < 128 * 256 ^ k"
    using serialize_length [OF n, of k] by metis
next
  assume "CScriptNum vch True (Suc k) = Inr m"
  then have "IsMinimallyEncoded vch (Suc k)" "length vch \<le> 8" "m = set_vch vch"
    using assms by (auto simp: CScriptNum_def split: if_splits)
  then show "vch = scriptnum_serialize m" using serialize_minimal [of vch "Suc k"] set_vch_val [of vch] by simp
qed

theorem script_number_bijection_witness:
  "CScriptNum (scriptnum_serialize (-2147483647)) True 4 = Inr (-2147483647)
   \<and> CScriptNum (scriptnum_serialize 2147483648) True 4 \<noteq> Inr 2147483648"
  using script_number_bijection [of 3 "-2147483647" "[]" 0] script_number_bijection [of 3 2147483648 "[]" 0]
  by simp

text \<open>
  \<^verbatim>\<open>MinimallyEncode\<close> turns any byte string into the minimal encoding of the same number, and
  reports a change exactly when the input was not minimal.
\<close>

theorem MinimallyEncode_minimal:
  "let (out, changed) = MinimallyEncode data in
     sm_val out = sm_val data \<and> IsMinimallyEncoded out (length out)
     \<and> (changed \<longleftrightarrow> \<not> IsMinimallyEncoded data (length data))"
  using MinimallyEncode_correct [of data] by (simp add: case_prod_beta Let_def)

text \<open>
  Decoding a push gives the data back and leaves the rest of the script; a script made of
  pushes is push-only, and the last item found for a pay-to-script-hash input is the last one
  pushed.
\<close>

theorem push_decode:
  assumes "length b < 2 ^ 32" "list_all (\<lambda>b. length b < 2 ^ 32) bs"
  shows "(\<exists>opcode. GetScriptOp (push_data b @ rest) = Some (opcode, b, rest))
    \<and> IsPushOnly (concat (map push_data bs))
    \<and> last_push [] (concat (map push_data bs)) = Some (if bs = [] then [] else last bs)"
  using GetScriptOp_push_le [OF assms(1), of rest] pushes_push_only [OF assms(2), of "[]"] by blast

theorem push_decode_witness:
  "last_push [] (push_data [1, 2] @ push_data [3]) = Some [3]"
  using push_decode [of "[]" "[[1, 2], [3]]" "[]"] by simp

text \<open>
  Counting signature operations: one for each \<^verbatim>\<open>CHECKSIG\<close>, and for each \<^verbatim>\<open>CHECKMULTISIG\<close> the number of keys when the
  accurate count finds it in the opcode before, or else twenty.  The accurate count never exceeds the other, which is
  at most twenty per byte, and a push-only script counts none.
\<close>

theorem GetSigOpCount_exact:
  "GetSigOpCount s a =
     length (filter (\<lambda>opc. opc = OP_CHECKSIG \<or> opc = OP_CHECKSIGVERIFY) (script_opcodes s))
     + (\<Sum>(prev, opc) \<leftarrow> zip (OP_INVALIDOPCODE # script_opcodes s) (script_opcodes s).
          if opc = OP_CHECKMULTISIG \<or> opc = OP_CHECKMULTISIGVERIFY
          then (if a \<and> OP_1 \<le> prev \<and> prev \<le> OP_16 then unat prev - 80 else 20) else 0)
   \<and> GetSigOpCount s True \<le> GetSigOpCount s False \<and> GetSigOpCount s False \<le> 20 * length s
   \<and> (IsPushOnly s \<longrightarrow> GetSigOpCount s a = 0)"
  using count_sig_ops_exact count_sig_ops_accurate count_sig_ops_le count_sig_ops_push by (simp add: GetSigOpCount_def)

end
