(* ===== verification/Interpreter.thy ===== *)
theory Interpreter
  imports Script "HOL-Library.Signed_Division"
begin

text \<open>
  The script interpreter: \<^verbatim>\<open>script/interpreter.{h,cpp}\<close> and \<^verbatim>\<open>script/script_error.h\<close>.  The value stack is
  a list whose head is the top (the back of the C++ vector).  \<^verbatim>\<open>EvalScript\<close> is a loop over one step
  function, and the step dispatches on the opcode to one definition per group of the \<^verbatim>\<open>switch\<close>.  An
  error is the \<^verbatim>\<open>ScriptError\<close> that the code reports with its \<^verbatim>\<open>false\<close>; an exception is caught by the code
  and becomes \<^verbatim>\<open>SCRIPT_ERR_UNKNOWN_ERROR\<close>.  Hash functions, public-key operations and the signature
  checker are parameters.  \<^verbatim>\<open>SigVersion\<close> has the single value \<^verbatim>\<open>BASE\<close>, so tests against it hold.
\<close>

datatype ScriptError = SCRIPT_ERR_OK | SCRIPT_ERR_UNKNOWN_ERROR | SCRIPT_ERR_EVAL_FALSE
  | SCRIPT_ERR_OP_RETURN | SCRIPT_ERR_SCRIPT_SIZE | SCRIPT_ERR_PUSH_SIZE | SCRIPT_ERR_OP_COUNT
  | SCRIPT_ERR_STACK_SIZE | SCRIPT_ERR_SIG_COUNT | SCRIPT_ERR_PUBKEY_COUNT | SCRIPT_ERR_VERIFY
  | SCRIPT_ERR_EQUALVERIFY | SCRIPT_ERR_CHECKMULTISIGVERIFY | SCRIPT_ERR_CHECKSIGVERIFY
  | SCRIPT_ERR_CHECKDATASIGVERIFY | SCRIPT_ERR_NUMEQUALVERIFY | SCRIPT_ERR_BAD_OPCODE
  | SCRIPT_ERR_DISABLED_OPCODE | SCRIPT_ERR_INVALID_STACK_OPERATION
  | SCRIPT_ERR_INVALID_ALTSTACK_OPERATION | SCRIPT_ERR_UNBALANCED_CONDITIONAL
  | SCRIPT_ERR_INVALID_SPLIT_RANGE | SCRIPT_ERR_INVALID_OPERAND_SIZE
  | SCRIPT_ERR_INVALID_NUMBER_RANGE | SCRIPT_ERR_IMPOSSIBLE_ENCODING | SCRIPT_ERR_DIV_BY_ZERO
  | SCRIPT_ERR_MOD_BY_ZERO | SCRIPT_ERR_NEGATIVE_LOCKTIME | SCRIPT_ERR_UNSATISFIED_LOCKTIME
  | SCRIPT_ERR_SIG_HASHTYPE | SCRIPT_ERR_SIG_DER | SCRIPT_ERR_MINIMALDATA | SCRIPT_ERR_SIG_PUSHONLY
  | SCRIPT_ERR_SIG_HIGH_S | SCRIPT_ERR_SIG_NULLDUMMY | SCRIPT_ERR_PUBKEYTYPE | SCRIPT_ERR_CLEANSTACK
  | SCRIPT_ERR_SIG_NULLFAIL | SCRIPT_ERR_DISCOURAGE_UPGRADABLE_NOPS | SCRIPT_ERR_OP_CODESEPARATOR
  | SCRIPT_ERR_SIG_FINDANDDELETE | SCRIPT_ERR_ERROR_COUNT

subsection \<open>Verification flags\<close>

definition SCRIPT_VERIFY_P2SH :: u32 where "SCRIPT_VERIFY_P2SH = push_bit 0 1"
definition SCRIPT_VERIFY_STRICTENC :: u32 where "SCRIPT_VERIFY_STRICTENC = push_bit 1 1"
definition SCRIPT_VERIFY_DERSIG :: u32 where "SCRIPT_VERIFY_DERSIG = push_bit 2 1"
definition SCRIPT_VERIFY_LOW_S :: u32 where "SCRIPT_VERIFY_LOW_S = push_bit 3 1"
definition SCRIPT_VERIFY_NULLDUMMY :: u32 where "SCRIPT_VERIFY_NULLDUMMY = push_bit 4 1"
definition SCRIPT_VERIFY_SIGPUSHONLY :: u32 where "SCRIPT_VERIFY_SIGPUSHONLY = push_bit 5 1"
definition SCRIPT_VERIFY_MINIMALDATA :: u32 where "SCRIPT_VERIFY_MINIMALDATA = push_bit 6 1"
definition SCRIPT_VERIFY_DISCOURAGE_UPGRADABLE_NOPS :: u32 where
  "SCRIPT_VERIFY_DISCOURAGE_UPGRADABLE_NOPS = push_bit 7 1"
definition SCRIPT_VERIFY_CLEANSTACK :: u32 where "SCRIPT_VERIFY_CLEANSTACK = push_bit 8 1"
definition SCRIPT_VERIFY_CHECKLOCKTIMEVERIFY :: u32 where
  "SCRIPT_VERIFY_CHECKLOCKTIMEVERIFY = push_bit 9 1"
definition SCRIPT_VERIFY_CHECKSEQUENCEVERIFY :: u32 where
  "SCRIPT_VERIFY_CHECKSEQUENCEVERIFY = push_bit 10 1"
definition SCRIPT_VERIFY_NULLFAIL :: u32 where "SCRIPT_VERIFY_NULLFAIL = push_bit 14 1"
definition SCRIPT_VERIFY_CONST_SCRIPTCODE :: u32 where "SCRIPT_VERIFY_CONST_SCRIPTCODE = push_bit 16 1"

definition has_flag :: "u32 \<Rightarrow> u32 \<Rightarrow> bool" where
  "has_flag flags f \<longleftrightarrow> flags AND f \<noteq> 0"

definition flags_le :: "u32 \<Rightarrow> u32 \<Rightarrow> bool" where
  "flags_le f g \<longleftrightarrow> f AND g = f"

definition SIGHASH_ALL :: int where "SIGHASH_ALL = 1"
definition SIGHASH_NONE :: int where "SIGHASH_NONE = 2"
definition SIGHASH_SINGLE :: int where "SIGHASH_SINGLE = 3"
definition SIGHASH_ANYONECANPAY :: int where "SIGHASH_ANYONECANPAY = 0x80"

lemma has_flag_mono: "flags_le f g \<Longrightarrow> has_flag f x \<Longrightarrow> has_flag g x"
proof -
  assume a: "flags_le f g" "has_flag f x"
  have "f AND x = (f AND g) AND x" using a(1) by (simp add: flags_le_def)
  then have "g AND x = 0 \<Longrightarrow> f AND x = 0" by (simp add: and.assoc)
  then show ?thesis using a(2) by (auto simp: has_flag_def)
qed

subsection \<open>The world outside: hashes, keys and the signature checker\<close>

record crypto =
  ripemd160 :: "bytes \<Rightarrow> bytes"
  sha1 :: "bytes \<Rightarrow> bytes"
  sha256 :: "bytes \<Rightarrow> bytes"
  CheckLowS :: "bytes \<Rightarrow> bool"
  PubKey_IsValid :: "bytes \<Rightarrow> bool"
  PubKey_Verify :: "bytes \<Rightarrow> uint256 \<Rightarrow> bytes \<Rightarrow> bool"

definition hash160 :: "crypto \<Rightarrow> bytes \<Rightarrow> bytes" where
  "hash160 cr vch = ripemd160 cr (sha256 cr vch)"

definition hash256 :: "crypto \<Rightarrow> bytes \<Rightarrow> bytes" where
  "hash256 cr vch = sha256 cr (sha256 cr vch)"

text \<open>The documented output sizes of the hash functions.\<close>

definition crypto_ok :: "crypto \<Rightarrow> bool" where
  "crypto_ok cr \<longleftrightarrow> (\<forall>x. length (ripemd160 cr x) = 20 \<and> length (sha1 cr x) = 20 \<and> length (sha256 cr x) = 32)"

record BaseSignatureChecker =
  CheckSig :: "bytes \<Rightarrow> bytes \<Rightarrow> CScript \<Rightarrow> bool"
  CheckLockTime :: "int \<Rightarrow> bool"
  CheckSequence :: "int \<Rightarrow> bool"

subsection \<open>Truth values and encodings\<close>

fun CastToBool :: "bytes \<Rightarrow> bool" where
  "CastToBool [] = False"
| "CastToBool (b # vch) = (if b \<noteq> 0 then \<not> (vch = [] \<and> b = 0x80) else CastToBool vch)"

definition IsCompressedOrUncompressedPubKey :: "bytes \<Rightarrow> bool" where
  "IsCompressedOrUncompressedPubKey vchPubKey =
    (if length vchPubKey < 33 then False
     else if vchPubKey ! 0 = 0x04 then length vchPubKey = 65
     else if vchPubKey ! 0 = 0x02 \<or> vchPubKey ! 0 = 0x03 then length vchPubKey = 33
     else False)"

definition IsValidSignatureEncoding :: "bytes \<Rightarrow> bool" where
  "IsValidSignatureEncoding sig =
    (if length sig < 9 then False
     else if length sig > 73 then False
     else if sig ! 0 \<noteq> 0x30 then False
     else if unat (sig ! 1) \<noteq> length sig - 3 then False
     else let lenR = unat (sig ! 3) in
     if 5 + lenR \<ge> length sig then False
     else let lenS = unat (sig ! (5 + lenR)) in
     if lenR + lenS + 7 \<noteq> length sig then False
     else if sig ! 2 \<noteq> 0x02 then False
     else if lenR = 0 then False
     else if sig ! 4 AND 0x80 \<noteq> 0 then False
     else if lenR > 1 \<and> sig ! 4 = 0x00 \<and> sig ! 5 AND 0x80 = 0 then False
     else if sig ! (lenR + 4) \<noteq> 0x02 then False
     else if lenS = 0 then False
     else if sig ! (lenR + 6) AND 0x80 \<noteq> 0 then False
     else if lenS > 1 \<and> sig ! (lenR + 6) = 0x00 \<and> sig ! (lenR + 7) AND 0x80 = 0 then False
     else True)"

definition IsLowDERSignature :: "crypto \<Rightarrow> bytes \<Rightarrow> ScriptError + unit" where
  "IsLowDERSignature cr vchSig =
    (if \<not> IsValidSignatureEncoding vchSig then Inl SCRIPT_ERR_SIG_DER
     else if \<not> CheckLowS cr (butlast vchSig) then Inl SCRIPT_ERR_SIG_HIGH_S
     else Inr ())"

definition IsDefinedHashtypeSignature :: "bytes \<Rightarrow> bool" where
  "IsDefinedHashtypeSignature vchSig =
    (if vchSig = [] then False
     else let nHashType = uint (last vchSig AND NOT 0x80) in
       \<not> (nHashType < SIGHASH_ALL \<or> nHashType > SIGHASH_SINGLE))"

definition CheckSignatureEncoding :: "crypto \<Rightarrow> bytes \<Rightarrow> u32 \<Rightarrow> ScriptError + unit" where
  "CheckSignatureEncoding cr vchSig flags =
    (if vchSig = [] then Inr ()
     else if has_flag flags (SCRIPT_VERIFY_DERSIG OR SCRIPT_VERIFY_LOW_S OR SCRIPT_VERIFY_STRICTENC)
       \<and> \<not> IsValidSignatureEncoding vchSig then Inl SCRIPT_ERR_SIG_DER
     else if has_flag flags SCRIPT_VERIFY_LOW_S \<and> IsLowDERSignature cr vchSig \<noteq> Inr ()
       then IsLowDERSignature cr vchSig
     else if has_flag flags SCRIPT_VERIFY_STRICTENC \<and> \<not> IsDefinedHashtypeSignature vchSig
       then Inl SCRIPT_ERR_SIG_HASHTYPE
     else Inr ())"

definition CheckPubKeyEncoding :: "bytes \<Rightarrow> u32 \<Rightarrow> ScriptError + unit" where
  "CheckPubKeyEncoding vchPubKey flags =
    (if has_flag flags SCRIPT_VERIFY_STRICTENC \<and> \<not> IsCompressedOrUncompressedPubKey vchPubKey
     then Inl SCRIPT_ERR_PUBKEYTYPE else Inr ())"

lemma CheckSignatureEncoding_mono:
  "flags_le f g \<Longrightarrow> CheckSignatureEncoding cr sig g = Inr () \<Longrightarrow> CheckSignatureEncoding cr sig f = Inr ()"
  using has_flag_mono [of f g] by (auto simp: CheckSignatureEncoding_def split: if_splits)

lemma CheckPubKeyEncoding_mono:
  "flags_le f g \<Longrightarrow> CheckPubKeyEncoding k g = Inr () \<Longrightarrow> CheckPubKeyEncoding k f = Inr ()"
  using has_flag_mono [of f g] by (auto simp: CheckPubKeyEncoding_def split: if_splits)

lemma CastToBool_sm_val: "CastToBool vch \<longleftrightarrow> sm_val vch \<noteq> 0"
proof (induction vch)
  case (Cons b vch)
  show ?case
  proof (cases "vch = []")
    case True
    have "unat b = 0 \<longleftrightarrow> b = 0" "unat b = 128 \<longleftrightarrow> b = 0x80"
      using unat_eqI [of b 0] unat_eqI [of b "0x80"] by auto
    moreover have "unat b mod 128 = 0 \<longleftrightarrow> unat b = 0 \<or> unat b = 128"
      using byte_half [OF unat_u8_less, of b] by auto
    moreover have "sm_val [b] = 0 \<longleftrightarrow> sm_mag [b] = 0" by (simp add: sm_val_def)
    moreover have "sm_mag [b] = unat b mod 128" by (simp add: sm_mag_def)
    ultimately show ?thesis using True by auto
  next
    case False
    have "unat b = 0 \<longleftrightarrow> b = 0" using unat_eqI [of b 0] by auto
    then have "sm_mag (b # vch) = 0 \<longleftrightarrow> b = 0 \<and> sm_mag vch = 0"
      using False by (cases "length vch") (auto simp: sm_mag_def)
    then show ?thesis using Cons False by (auto simp: sm_val_def split: if_splits)
  qed
qed simp

subsection \<open>Deleting a signature from the script code\<close>

function skip_matches :: "bytes \<Rightarrow> bytes \<Rightarrow> bytes \<times> nat" where
  "skip_matches b pc =
    (if b \<noteq> [] \<and> length pc \<ge> length b \<and> take (length b) pc = b
     then let (pc', nFound) = skip_matches b (drop (length b) pc) in (pc', Suc nFound)
     else (pc, 0))"
  by auto
termination
proof (relation "measure (\<lambda>(_, pc). length pc)")
  fix b pc :: bytes
  assume "b \<noteq> [] \<and> length pc \<ge> length b \<and> take (length b) pc = b"
  then have "0 < length b" "length b \<le> length pc" by auto
  then have "length pc - length b < length pc" by linarith
  then show "((b, drop (length b) pc), (b, pc)) \<in> measure (\<lambda>(_, pc). length pc)" by simp
qed simp

declare skip_matches.simps [simp del]

lemma skip_matches_le: "length (fst (skip_matches b pc)) \<le> length pc"
proof (induction b pc rule: skip_matches.induct)
  case (1 b pc)
  show ?case
  proof (cases "b \<noteq> [] \<and> length pc \<ge> length b \<and> take (length b) pc = b")
    case True
    then have "length (fst (skip_matches b (drop (length b) pc))) \<le> length pc" using 1 [OF True] by simp
    then show ?thesis unfolding skip_matches.simps [of b pc] using True by (simp add: case_prod_beta)
  next
    case False
    then show ?thesis unfolding skip_matches.simps [of b pc] by (simp only: if_False fst_conv order_refl)
  qed
qed

function delete_matches :: "bytes \<Rightarrow> bytes \<Rightarrow> bytes \<times> nat" where
  "delete_matches b pc =
    (let (pc2, k) = skip_matches b pc in
     case GetScriptOp pc2 of None \<Rightarrow> (pc2, k)
     | Some (_, _, pc') \<Rightarrow>
        let (result, k') = delete_matches b pc' in (take (length pc2 - length pc') pc2 @ result, k + k'))"
  by auto
termination
proof (relation "measure (\<lambda>(_, pc). length pc)")
  fix b pc x pc2 k r opc y v pc'
  assume "x = skip_matches b pc" "(pc2, k) = x" "GetScriptOp pc2 = Some r" "(opc, y) = r" "(v, pc') = y"
  then have "length pc' < length pc2" "skip_matches b pc = (pc2, k)"
    using GetScriptOp_shorter [of pc2 opc v pc'] by auto
  then have "length pc' < length pc" using skip_matches_le [of b pc] by simp
  then show "((b, pc'), (b, pc)) \<in> measure (\<lambda>(_, pc). length pc)" by simp
qed simp

declare delete_matches.simps [simp del]

definition FindAndDelete :: "CScript \<Rightarrow> CScript \<Rightarrow> CScript \<times> nat" where
  "FindAndDelete script b =
    (if b = [] then (script, 0)
     else let (result, nFound) = delete_matches b script in
       if nFound > 0 then (result, nFound) else (script, 0))"

subsection \<open>The condition stack\<close>

record ConditionStack =
  m_stack_size :: u32
  m_first_false_pos :: u32

definition NO_FALSE :: u32 where "NO_FALSE = 0xffffffff"

definition cs_new :: ConditionStack where
  "cs_new = \<lparr>m_stack_size = 0, m_first_false_pos = NO_FALSE\<rparr>"

definition cs_empty :: "ConditionStack \<Rightarrow> bool" where
  "cs_empty c \<longleftrightarrow> m_stack_size c = 0"

definition cs_all_true :: "ConditionStack \<Rightarrow> bool" where
  "cs_all_true c \<longleftrightarrow> m_first_false_pos c = NO_FALSE"

definition cs_push_back :: "ConditionStack \<Rightarrow> bool \<Rightarrow> ConditionStack" where
  "cs_push_back c f =
    (let pos = (if m_first_false_pos c = NO_FALSE \<and> \<not> f then m_stack_size c else m_first_false_pos c)
     in c\<lparr>m_first_false_pos := pos, m_stack_size := m_stack_size c + 1\<rparr>)"

definition cs_pop_back :: "ConditionStack \<Rightarrow> ConditionStack" where
  "cs_pop_back c =
    (let n = m_stack_size c - 1
     in c\<lparr>m_stack_size := n,
          m_first_false_pos := (if m_first_false_pos c = n then NO_FALSE else m_first_false_pos c)\<rparr>)"

definition cs_toggle_top :: "ConditionStack \<Rightarrow> ConditionStack" where
  "cs_toggle_top c =
    (if m_first_false_pos c = NO_FALSE then c\<lparr>m_first_false_pos := m_stack_size c - 1\<rparr>
     else if m_first_false_pos c = m_stack_size c - 1 then c\<lparr>m_first_false_pos := NO_FALSE\<rparr>
     else c)"

text \<open>
  What the interpreter expects of it: a stack of booleans (head on top) of which only emptiness
  and "all true" are observed.  The relation \<^verbatim>\<open>R v c\<close> says that the object \<^verbatim>\<open>c\<close> stands for the
  stack \<^verbatim>\<open>v\<close>; pushing is only promised below the depth \<^verbatim>\<open>limit\<close>.
\<close>

locale condition_stack =
  fixes new :: 'c and empty :: "'c \<Rightarrow> bool" and all_true :: "'c \<Rightarrow> bool"
    and push_back :: "'c \<Rightarrow> bool \<Rightarrow> 'c" and pop_back :: "'c \<Rightarrow> 'c" and toggle_top :: "'c \<Rightarrow> 'c"
    and limit :: nat and R :: "bool list \<Rightarrow> 'c \<Rightarrow> bool"
  assumes new_R: "R [] new"
    and empty_R: "R v c \<Longrightarrow> empty c \<longleftrightarrow> v = []"
    and all_true_R: "R v c \<Longrightarrow> all_true c \<longleftrightarrow> list_all (\<lambda>b. b) v"
    and push_R: "R v c \<Longrightarrow> length v < limit \<Longrightarrow> R (b # v) (push_back c b)"
    and pop_R: "R (b # v) c \<Longrightarrow> R v (pop_back c)"
    and toggle_R: "R (b # v) c \<Longrightarrow> R ((\<not> b) # v) (toggle_top c)"
begin

text \<open>The observations of a nested conditional do not depend on the representation.\<close>

lemma if_else_endif:
  assumes "R v c" "length v < limit"
  shows "all_true (push_back c b) \<longleftrightarrow> b \<and> list_all (\<lambda>b. b) v"
    and "all_true (toggle_top (push_back c b)) \<longleftrightarrow> \<not> b \<and> list_all (\<lambda>b. b) v"
    and "R v (pop_back (push_back c b))"
proof -
  have p: "R (b # v) (push_back c b)" using push_R assms by blast
  show "all_true (push_back c b) \<longleftrightarrow> b \<and> list_all (\<lambda>b. b) v" using all_true_R [OF p] by simp
  show "R v (pop_back (push_back c b))" using pop_R [OF p] .
  show "all_true (toggle_top (push_back c b)) \<longleftrightarrow> \<not> b \<and> list_all (\<lambda>b. b) v"
    using all_true_R [OF toggle_R [OF p]] by simp
qed

end

text \<open>The first false value counted from the bottom; the values above it are arbitrary.\<close>

definition first_false :: "bool list \<Rightarrow> nat option" where
  "first_false v = (if list_all (\<lambda>b. b) v then None
     else Some (length (takeWhile (\<lambda>b. b) (rev v))))"

definition cs_rel :: "bool list \<Rightarrow> ConditionStack \<Rightarrow> bool" where
  "cs_rel v c \<longleftrightarrow> length v < 2 ^ 32 \<and> unat (m_stack_size c) = length v
     \<and> m_first_false_pos c = (case first_false v of None \<Rightarrow> NO_FALSE | Some k \<Rightarrow> word_of_nat k)"

lemma first_false_Nil [simp]: "first_false [] = None"
  by (simp add: first_false_def)

lemma first_false_less: "first_false v = Some k \<Longrightarrow> k < length v"
proof -
  assume "first_false v = Some k"
  then have k: "k = length (takeWhile (\<lambda>b. b) (rev v))" "\<not> list_all (\<lambda>b. b) v"
    by (auto simp: first_false_def split: if_splits)
  have "takeWhile (\<lambda>b. b) (rev v) \<noteq> rev v" using k(2) by (auto simp: list_all_iff takeWhile_eq_all_conv)
  then show ?thesis
    using k(1) by (metis append_take_drop_id length_rev length_takeWhile_le less_le takeWhile_eq_take take_all)
qed

lemma first_false_None: "first_false v = None \<longleftrightarrow> list_all (\<lambda>b. b) v"
  by (simp add: first_false_def)

lemma first_false_Cons:
  "first_false (b # v) = (case first_false v of Some k \<Rightarrow> Some k | None \<Rightarrow> if b then None else Some (length v))"
proof (cases "list_all (\<lambda>b. b) v")
  case True
  then have "takeWhile (\<lambda>b. b) (rev v) = rev v" by (simp add: takeWhile_eq_all_conv list_all_iff)
  then show ?thesis using True by (auto simp: first_false_def takeWhile_append list_all_iff)
next
  case False
  then have "\<exists>x\<in>set (rev v). \<not> x" by (auto simp: list_all_iff)
  then have "takeWhile (\<lambda>b. b) (rev v @ [b]) = takeWhile (\<lambda>b. b) (rev v)" by (metis takeWhile_append1)
  then show ?thesis using False by (simp add: first_false_def)
qed

lemma pos_ne_NO_FALSE: "k < 2 ^ 32 - 1 \<Longrightarrow> (word_of_nat k :: u32) \<noteq> NO_FALSE"
proof
  assume k: "k < 2 ^ 32 - 1" and e: "(word_of_nat k :: u32) = NO_FALSE"
  have "unat (word_of_nat k :: u32) = k" using k by (simp add: unsigned_of_nat take_bit_nat_eq_self)
  then show False using k unfolding e by (simp add: NO_FALSE_def)
qed

lemma unat_pos: "k < 2 ^ 32 \<Longrightarrow> unat (word_of_nat k :: u32) = k"
  by (simp add: unsigned_of_nat take_bit_nat_eq_self)

lemma cs_rel_pos:
  assumes "cs_rel v c" "first_false v = Some k"
  shows "k < length v" "m_first_false_pos c = word_of_nat k" "m_first_false_pos c \<noteq> NO_FALSE"
    "unat (m_first_false_pos c) = k"
proof -
  show k: "k < length v" using first_false_less [OF assms(2)] .
  show p: "m_first_false_pos c = word_of_nat k" using assms by (simp add: cs_rel_def)
  have "length v < 2 ^ 32" using assms(1) by (simp add: cs_rel_def)
  then have "k < 2 ^ 32 - 1" "k < 2 ^ 32" using k by simp_all
  then show "m_first_false_pos c \<noteq> NO_FALSE" "unat (m_first_false_pos c) = k"
    using pos_ne_NO_FALSE [of k] unat_pos [of k] unfolding p by blast+
qed

lemma cs_rel_size: "cs_rel v c \<Longrightarrow> m_stack_size c = word_of_nat (length v)"
  using unat_eqI [of "m_stack_size c" "word_of_nat (length v)"] unat_pos [of "length v"]
  by (simp add: cs_rel_def)

lemma cs_rel_all_true: "cs_rel v c \<Longrightarrow> cs_all_true c \<longleftrightarrow> list_all (\<lambda>b. b) v"
  using cs_rel_pos(3) [of v c] first_false_None [of v]
  by (cases "first_false v") (auto simp: cs_all_true_def cs_rel_def)

lemma cs_rel_push:
  assumes "cs_rel v c" "length v < 2 ^ 32 - 1"
  shows "cs_rel (b # v) (cs_push_back c b)"
proof -
  have s: "m_stack_size c = word_of_nat (length v)" using cs_rel_size assms by blast
  have "length (b # v) < 2 ^ 32" using assms(2) by simp
  moreover have "unat (m_stack_size c + 1) = length (b # v)"
    unfolding s using unat_pos [of "length (b # v)"] calculation by (simp add: add.commute)
  moreover have "m_first_false_pos c = NO_FALSE \<longleftrightarrow> first_false v = None"
    using cs_rel_all_true [OF assms(1)] by (simp add: cs_all_true_def first_false_None)
  ultimately show ?thesis
    using cs_rel_pos(2) [OF assms(1)] s
    by (cases "first_false v") (auto simp: cs_rel_def cs_push_back_def Let_def first_false_Cons)
qed

lemma cs_rel_below_top:
  assumes "cs_rel (b # v) c"
  shows "m_stack_size c - 1 = word_of_nat (length v)"
    and "m_first_false_pos c = m_stack_size c - 1 \<longleftrightarrow> first_false (b # v) = Some (length v)"
proof -
  show s: "m_stack_size c - 1 = word_of_nat (length v)"
    using cs_rel_size [OF assms] by simp
  have l: "length v < 2 ^ 32 - 1" using assms by (auto simp: cs_rel_def)
  then have u: "unat (word_of_nat (length v) :: u32) = length v" by (intro unat_pos) simp
  show "m_first_false_pos c = m_stack_size c - 1 \<longleftrightarrow> first_false (b # v) = Some (length v)"
  proof (cases "first_false (b # v)")
    case None
    then have "m_first_false_pos c = NO_FALSE" using assms by (simp add: cs_rel_def)
    then have "m_first_false_pos c \<noteq> m_stack_size c - 1" using pos_ne_NO_FALSE [OF l] s by simp
    then show ?thesis using None by simp
  next
    case (Some k)
    then show ?thesis using cs_rel_pos [OF assms Some] u s by (metis option.inject)
  qed
qed

lemma cs_rel_pop:
  assumes "cs_rel (b # v) c"
  shows "cs_rel v (cs_pop_back c)"
proof -
  have l: "length v < 2 ^ 32" using assms by (auto simp: cs_rel_def)
  note t = cs_rel_below_top [OF assms]
  have ne: "first_false v \<noteq> Some (length v)" using first_false_less by blast
  have p: "m_first_false_pos c = (case first_false (b # v) of None \<Rightarrow> NO_FALSE | Some k \<Rightarrow> word_of_nat k)"
    using assms by (simp add: cs_rel_def)
  show ?thesis
    using l t p ne unat_pos [OF l]
    by (cases "first_false v") (auto simp: cs_rel_def cs_pop_back_def Let_def first_false_Cons split: if_splits)
qed

lemma cs_rel_toggle:
  assumes "cs_rel (b # v) c"
  shows "cs_rel ((\<not> b) # v) (cs_toggle_top c)"
proof -
  note t = cs_rel_below_top [OF assms]
  have a: "length (b # v) < 2 ^ 32" "unat (m_stack_size c) = length (b # v)"
    and p: "m_first_false_pos c = (case first_false (b # v) of None \<Rightarrow> NO_FALSE | Some k \<Rightarrow> word_of_nat k)"
    using assms by (simp_all add: cs_rel_def)
  have n: "m_first_false_pos c = NO_FALSE \<longleftrightarrow> first_false (b # v) = None"
    using cs_rel_all_true [OF assms] by (simp only: cs_all_true_def first_false_None)
  have ne: "first_false v \<noteq> Some (length v)" using first_false_less by blast
  show ?thesis
    using a t p n ne
    by (cases "first_false v") (auto simp: cs_rel_def cs_toggle_top_def first_false_Cons split: if_splits)
qed

interpretation bstack: condition_stack "[]" "\<lambda>v. v = []" "list_all (\<lambda>b. b)" "\<lambda>v b. b # v" tl
    "\<lambda>v. (\<not> hd v) # tl v" "2 ^ 32 - 1" "(=)"
  by unfold_locales auto

interpretation cstack: condition_stack cs_new cs_empty cs_all_true cs_push_back cs_pop_back
    cs_toggle_top "2 ^ 32 - 1" cs_rel
proof unfold_locales
  show "cs_rel [] cs_new" by (simp add: cs_rel_def cs_new_def)
  show "cs_rel v c \<Longrightarrow> cs_empty c \<longleftrightarrow> v = []" for v c
    by (auto simp: cs_rel_def cs_empty_def unat_eq_0)
qed (simp_all add: cs_rel_all_true cs_rel_push cs_rel_toggle, rule cs_rel_pop)

subsection \<open>State of the interpreter\<close>

record eval_state =
  stack :: "bytes list"
  altstack :: "bytes list"
  vfExec :: ConditionStack
  pbegincodehash :: bytes
  nOpCount :: nat

definition sbind :: "'e + 'a \<Rightarrow> ('a \<Rightarrow> 'e + 'b) \<Rightarrow> 'e + 'b" where
  "sbind x f = (case x of Inl e \<Rightarrow> Inl e | Inr a \<Rightarrow> f a)"

definition on_stack :: "(bytes list \<Rightarrow> ScriptError + bytes list) \<Rightarrow> eval_state \<Rightarrow> ScriptError + eval_state" where
  "on_stack f st = sbind (f (stack st)) (\<lambda>s. Inr (st\<lparr>stack := s\<rparr>))"

definition read_num :: "u32 \<Rightarrow> nat \<Rightarrow> bytes \<Rightarrow> ScriptError + int" where
  "read_num flags nMaxNumSize vch =
    (case CScriptNum vch (has_flag flags SCRIPT_VERIFY_MINIMALDATA) nMaxNumSize of
       Inl _ \<Rightarrow> Inl SCRIPT_ERR_UNKNOWN_ERROR | Inr n \<Rightarrow> Inr n)"

abbreviation "vchTrue \<equiv> [0x01 :: u8]"
abbreviation "vchFalse \<equiv> [] :: bytes"

definition vch_bool :: "bool \<Rightarrow> bytes" where
  "vch_bool b = (if b then vchTrue else vchFalse)"

abbreviation "bad_stack \<equiv> Inl SCRIPT_ERR_INVALID_STACK_OPERATION"

subsection \<open>Control\<close>

definition op_N :: "u8 \<Rightarrow> bytes list \<Rightarrow> ScriptError + bytes list" where
  "op_N opcode s = Inr (scriptnum_serialize (uint opcode - (uint OP_1 - 1)) # s)"

definition op_CHECKLOCKTIMEVERIFY ::
  "BaseSignatureChecker \<Rightarrow> u32 \<Rightarrow> bytes list \<Rightarrow> ScriptError + bytes list" where
  "op_CHECKLOCKTIMEVERIFY checker flags s =
    (if \<not> has_flag flags SCRIPT_VERIFY_CHECKLOCKTIMEVERIFY then Inr s
     else if s = [] then bad_stack
     else sbind (read_num flags 5 (hd s)) (\<lambda>nLockTime.
       if nLockTime < 0 then Inl SCRIPT_ERR_NEGATIVE_LOCKTIME
       else if \<not> CheckLockTime checker nLockTime then Inl SCRIPT_ERR_UNSATISFIED_LOCKTIME
       else Inr s))"

definition op_CHECKSEQUENCEVERIFY ::
  "BaseSignatureChecker \<Rightarrow> u32 \<Rightarrow> bytes list \<Rightarrow> ScriptError + bytes list" where
  "op_CHECKSEQUENCEVERIFY checker flags s =
    (if \<not> has_flag flags SCRIPT_VERIFY_CHECKSEQUENCEVERIFY then Inr s
     else if s = [] then bad_stack
     else sbind (read_num flags 5 (hd s)) (\<lambda>nSequence.
       if nSequence < 0 then Inl SCRIPT_ERR_NEGATIVE_LOCKTIME
       else if nSequence AND uint SEQUENCE_LOCKTIME_DISABLE_FLAG \<noteq> 0 then Inr s
       else if \<not> CheckSequence checker nSequence then Inl SCRIPT_ERR_UNSATISFIED_LOCKTIME
       else Inr s))"

definition op_NOPn :: "u32 \<Rightarrow> bytes list \<Rightarrow> ScriptError + bytes list" where
  "op_NOPn flags s =
    (if has_flag flags SCRIPT_VERIFY_DISCOURAGE_UPGRADABLE_NOPS
     then Inl SCRIPT_ERR_DISCOURAGE_UPGRADABLE_NOPS else Inr s)"

definition op_IF :: "bool \<Rightarrow> u8 \<Rightarrow> eval_state \<Rightarrow> ScriptError + eval_state" where
  "op_IF fExec opcode st =
    (if fExec then
       case stack st of [] \<Rightarrow> Inl SCRIPT_ERR_UNBALANCED_CONDITIONAL
       | vch # s \<Rightarrow>
         let fValue = (if opcode = OP_NOTIF then \<not> CastToBool vch else CastToBool vch)
         in Inr (st\<lparr>stack := s, vfExec := cs_push_back (vfExec st) fValue\<rparr>)
     else Inr (st\<lparr>vfExec := cs_push_back (vfExec st) False\<rparr>))"

definition op_ELSE :: "eval_state \<Rightarrow> ScriptError + eval_state" where
  "op_ELSE st = (if cs_empty (vfExec st) then Inl SCRIPT_ERR_UNBALANCED_CONDITIONAL
     else Inr (st\<lparr>vfExec := cs_toggle_top (vfExec st)\<rparr>))"

definition op_ENDIF :: "eval_state \<Rightarrow> ScriptError + eval_state" where
  "op_ENDIF st = (if cs_empty (vfExec st) then Inl SCRIPT_ERR_UNBALANCED_CONDITIONAL
     else Inr (st\<lparr>vfExec := cs_pop_back (vfExec st)\<rparr>))"

fun op_VERIFY :: "bytes list \<Rightarrow> ScriptError + bytes list" where
  "op_VERIFY (vch # s) = (if CastToBool vch then Inr s else Inl SCRIPT_ERR_VERIFY)"
| "op_VERIFY [] = bad_stack"

definition op_RETURN :: "bytes list \<Rightarrow> ScriptError + bytes list" where
  "op_RETURN s = Inl SCRIPT_ERR_OP_RETURN"

subsection \<open>Stack operations\<close>

definition op_TOALTSTACK :: "eval_state \<Rightarrow> ScriptError + eval_state" where
  "op_TOALTSTACK st = (case stack st of [] \<Rightarrow> bad_stack
     | vch # s \<Rightarrow> Inr (st\<lparr>altstack := vch # altstack st, stack := s\<rparr>))"

definition op_FROMALTSTACK :: "eval_state \<Rightarrow> ScriptError + eval_state" where
  "op_FROMALTSTACK st = (case altstack st of [] \<Rightarrow> Inl SCRIPT_ERR_INVALID_ALTSTACK_OPERATION
     | vch # a \<Rightarrow> Inr (st\<lparr>stack := vch # stack st, altstack := a\<rparr>))"

fun op_2DROP :: "bytes list \<Rightarrow> ScriptError + bytes list" where
  "op_2DROP (x2 # x1 # s) = Inr s"
| "op_2DROP _ = bad_stack"

fun op_2DUP :: "bytes list \<Rightarrow> ScriptError + bytes list" where
  "op_2DUP (x2 # x1 # s) = Inr (x2 # x1 # x2 # x1 # s)"
| "op_2DUP _ = bad_stack"

fun op_3DUP :: "bytes list \<Rightarrow> ScriptError + bytes list" where
  "op_3DUP (x3 # x2 # x1 # s) = Inr (x3 # x2 # x1 # x3 # x2 # x1 # s)"
| "op_3DUP _ = bad_stack"

fun op_2OVER :: "bytes list \<Rightarrow> ScriptError + bytes list" where
  "op_2OVER (x4 # x3 # x2 # x1 # s) = Inr (x2 # x1 # x4 # x3 # x2 # x1 # s)"
| "op_2OVER _ = bad_stack"

fun op_2ROT :: "bytes list \<Rightarrow> ScriptError + bytes list" where
  "op_2ROT (x6 # x5 # x4 # x3 # x2 # x1 # s) = Inr (x2 # x1 # x6 # x5 # x4 # x3 # s)"
| "op_2ROT _ = bad_stack"

fun op_2SWAP :: "bytes list \<Rightarrow> ScriptError + bytes list" where
  "op_2SWAP (x4 # x3 # x2 # x1 # s) = Inr (x2 # x1 # x4 # x3 # s)"
| "op_2SWAP _ = bad_stack"

fun op_IFDUP :: "bytes list \<Rightarrow> ScriptError + bytes list" where
  "op_IFDUP (x # s) = (if CastToBool x then Inr (x # x # s) else Inr (x # s))"
| "op_IFDUP [] = bad_stack"

definition op_DEPTH :: "bytes list \<Rightarrow> ScriptError + bytes list" where
  "op_DEPTH s = Inr (scriptnum_serialize (int (length s)) # s)"

fun op_DROP :: "bytes list \<Rightarrow> ScriptError + bytes list" where
  "op_DROP (x # s) = Inr s"
| "op_DROP [] = bad_stack"

fun op_DUP :: "bytes list \<Rightarrow> ScriptError + bytes list" where
  "op_DUP (x # s) = Inr (x # x # s)"
| "op_DUP [] = bad_stack"

fun op_NIP :: "bytes list \<Rightarrow> ScriptError + bytes list" where
  "op_NIP (x2 # x1 # s) = Inr (x2 # s)"
| "op_NIP _ = bad_stack"

fun op_OVER :: "bytes list \<Rightarrow> ScriptError + bytes list" where
  "op_OVER (x2 # x1 # s) = Inr (x1 # x2 # x1 # s)"
| "op_OVER _ = bad_stack"

definition op_PICK_ROLL :: "u32 \<Rightarrow> u8 \<Rightarrow> bytes list \<Rightarrow> ScriptError + bytes list" where
  "op_PICK_ROLL flags opcode s =
    (if length s < 2 then bad_stack
     else sbind (read_num flags nDefaultMaxNumSize (hd s)) (\<lambda>bn.
       let n = getint bn; s = tl s in
       if n < 0 \<or> n \<ge> int (length s) then bad_stack
       else let vch = s ! nat n;
                s = (if opcode = OP_ROLL then take (nat n) s @ drop (nat n + 1) s else s)
            in Inr (vch # s)))"

fun op_ROT :: "bytes list \<Rightarrow> ScriptError + bytes list" where
  "op_ROT (x3 # x2 # x1 # s) = Inr (x1 # x3 # x2 # s)"
| "op_ROT _ = bad_stack"

fun op_SWAP :: "bytes list \<Rightarrow> ScriptError + bytes list" where
  "op_SWAP (x2 # x1 # s) = Inr (x1 # x2 # s)"
| "op_SWAP _ = bad_stack"

fun op_TUCK :: "bytes list \<Rightarrow> ScriptError + bytes list" where
  "op_TUCK (x2 # x1 # s) = Inr (x2 # x1 # x2 # s)"
| "op_TUCK _ = bad_stack"

fun op_SIZE :: "bytes list \<Rightarrow> ScriptError + bytes list" where
  "op_SIZE (x # s) = Inr (scriptnum_serialize (int (length x)) # x # s)"
| "op_SIZE [] = bad_stack"

subsection \<open>Bitwise logic\<close>

fun op_EQUAL :: "u8 \<Rightarrow> bytes list \<Rightarrow> ScriptError + bytes list" where
  "op_EQUAL opcode (x2 # x1 # s) =
    (let fEqual = (x1 = x2) in
     if opcode = OP_EQUALVERIFY then (if fEqual then Inr s else Inl SCRIPT_ERR_EQUALVERIFY)
     else Inr (vch_bool fEqual # s))"
| "op_EQUAL _ _ = bad_stack"

fun op_BITWISE :: "u8 \<Rightarrow> bytes list \<Rightarrow> ScriptError + bytes list" where
  "op_BITWISE opcode (x2 # x1 # s) =
    (if length x1 \<noteq> length x2 then Inl SCRIPT_ERR_INVALID_OPERAND_SIZE
     else if opcode = OP_AND then Inr (map2 (AND) x1 x2 # s)
     else if opcode = OP_OR then Inr (map2 (OR) x1 x2 # s)
     else Inr (map2 (XOR) x1 x2 # s))"
| "op_BITWISE _ _ = bad_stack"

subsection \<open>Numeric\<close>

definition unary_num :: "u8 \<Rightarrow> int \<Rightarrow> int" where
  "unary_num opcode bn =
    (if opcode = OP_1ADD then bn + 1
     else if opcode = OP_1SUB then bn - 1
     else if opcode = OP_NEGATE then - bn
     else if opcode = OP_ABS then (if bn < 0 then - bn else bn)
     else if opcode = OP_NOT then of_bool (bn = 0)
     else of_bool (bn \<noteq> 0))"

definition op_UNARY :: "u32 \<Rightarrow> u8 \<Rightarrow> bytes list \<Rightarrow> ScriptError + bytes list" where
  "op_UNARY flags opcode s = (case s of [] \<Rightarrow> bad_stack
     | x # s \<Rightarrow> sbind (read_num flags nDefaultMaxNumSize x) (\<lambda>bn.
        Inr (scriptnum_serialize (unary_num opcode bn) # s)))"

definition binary_num :: "u8 \<Rightarrow> int \<Rightarrow> int \<Rightarrow> ScriptError + int" where
  "binary_num opcode bn1 bn2 =
    (if opcode = OP_ADD then Inr (bn1 + bn2)
     else if opcode = OP_SUB then Inr (bn1 - bn2)
     else if opcode = OP_DIV then (if bn2 = 0 then Inl SCRIPT_ERR_DIV_BY_ZERO else Inr (bn1 sdiv bn2))
     else if opcode = OP_MOD then (if bn2 = 0 then Inl SCRIPT_ERR_MOD_BY_ZERO else Inr (bn1 smod bn2))
     else if opcode = OP_BOOLAND then Inr (of_bool (bn1 \<noteq> 0 \<and> bn2 \<noteq> 0))
     else if opcode = OP_BOOLOR then Inr (of_bool (bn1 \<noteq> 0 \<or> bn2 \<noteq> 0))
     else if opcode = OP_NUMEQUAL then Inr (of_bool (bn1 = bn2))
     else if opcode = OP_NUMEQUALVERIFY then Inr (of_bool (bn1 = bn2))
     else if opcode = OP_NUMNOTEQUAL then Inr (of_bool (bn1 \<noteq> bn2))
     else if opcode = OP_LESSTHAN then Inr (of_bool (bn1 < bn2))
     else if opcode = OP_GREATERTHAN then Inr (of_bool (bn1 > bn2))
     else if opcode = OP_LESSTHANOREQUAL then Inr (of_bool (bn1 \<le> bn2))
     else if opcode = OP_GREATERTHANOREQUAL then Inr (of_bool (bn1 \<ge> bn2))
     else if opcode = OP_MIN then Inr (if bn1 < bn2 then bn1 else bn2)
     else Inr (if bn1 > bn2 then bn1 else bn2))"

definition op_BINARY :: "u32 \<Rightarrow> u8 \<Rightarrow> bytes list \<Rightarrow> ScriptError + bytes list" where
  "op_BINARY flags opcode s = (case s of x2 # x1 # s \<Rightarrow>
      sbind (read_num flags nDefaultMaxNumSize x1) (\<lambda>bn1.
      sbind (read_num flags nDefaultMaxNumSize x2) (\<lambda>bn2.
      sbind (binary_num opcode bn1 bn2) (\<lambda>bn.
        let vch = scriptnum_serialize bn in
        if opcode = OP_NUMEQUALVERIFY
        then (if CastToBool vch then Inr s else Inl SCRIPT_ERR_NUMEQUALVERIFY)
        else Inr (vch # s))))
    | _ \<Rightarrow> bad_stack)"

definition op_WITHIN :: "u32 \<Rightarrow> bytes list \<Rightarrow> ScriptError + bytes list" where
  "op_WITHIN flags s = (case s of x3 # x2 # x1 # s \<Rightarrow>
      sbind (read_num flags nDefaultMaxNumSize x1) (\<lambda>bn1.
      sbind (read_num flags nDefaultMaxNumSize x2) (\<lambda>bn2.
      sbind (read_num flags nDefaultMaxNumSize x3) (\<lambda>bn3.
        Inr (vch_bool (bn2 \<le> bn1 \<and> bn1 < bn3) # s))))
    | _ \<Rightarrow> bad_stack)"

subsection \<open>Crypto\<close>

definition op_HASH :: "crypto \<Rightarrow> u8 \<Rightarrow> bytes list \<Rightarrow> ScriptError + bytes list" where
  "op_HASH cr opcode s = (case s of [] \<Rightarrow> bad_stack
     | vch # s \<Rightarrow>
       let vchHash = (if opcode = OP_RIPEMD160 then ripemd160 cr vch
         else if opcode = OP_SHA1 then sha1 cr vch
         else if opcode = OP_SHA256 then sha256 cr vch
         else if opcode = OP_HASH160 then hash160 cr vch
         else hash256 cr vch)
       in Inr (vchHash # s))"

definition op_CODESEPARATOR :: "bytes \<Rightarrow> eval_state \<Rightarrow> ScriptError + eval_state" where
  "op_CODESEPARATOR pc st = Inr (st\<lparr>pbegincodehash := pc\<rparr>)"

definition drop_signature :: "u32 \<Rightarrow> CScript \<Rightarrow> bytes \<Rightarrow> ScriptError + CScript" where
  "drop_signature flags scriptCode vchSig =
    (let (scriptCode, found) = FindAndDelete scriptCode (push_data vchSig) in
     if found > 0 \<and> has_flag flags SCRIPT_VERIFY_CONST_SCRIPTCODE then Inl SCRIPT_ERR_SIG_FINDANDDELETE
     else Inr scriptCode)"

definition check_encodings :: "crypto \<Rightarrow> u32 \<Rightarrow> bytes \<Rightarrow> bytes \<Rightarrow> ScriptError + unit" where
  "check_encodings cr flags vchSig vchPubKey =
    sbind (CheckSignatureEncoding cr vchSig flags) (\<lambda>_. CheckPubKeyEncoding vchPubKey flags)"

definition EvalChecksig ::
  "crypto \<Rightarrow> BaseSignatureChecker \<Rightarrow> u32 \<Rightarrow> bytes \<Rightarrow> bytes \<Rightarrow> CScript \<Rightarrow> ScriptError + bool" where
  "EvalChecksig cr checker flags vchSig vchPubKey codehash =
    sbind (drop_signature flags codehash vchSig) (\<lambda>scriptCode.
    sbind (check_encodings cr flags vchSig vchPubKey) (\<lambda>_.
      let fSuccess = CheckSig checker vchSig vchPubKey scriptCode in
      if \<not> fSuccess \<and> has_flag flags SCRIPT_VERIFY_NULLFAIL \<and> vchSig \<noteq> []
      then Inl SCRIPT_ERR_SIG_NULLFAIL else Inr fSuccess))"

definition op_CHECKSIG ::
  "crypto \<Rightarrow> BaseSignatureChecker \<Rightarrow> u32 \<Rightarrow> u8 \<Rightarrow> bytes \<Rightarrow> bytes list \<Rightarrow> ScriptError + bytes list" where
  "op_CHECKSIG cr checker flags opcode codehash s = (case s of vchPubKey # vchSig # s \<Rightarrow>
      sbind (EvalChecksig cr checker flags vchSig vchPubKey codehash) (\<lambda>fSuccess.
        if opcode = OP_CHECKSIGVERIFY
        then (if fSuccess then Inr s else Inl SCRIPT_ERR_CHECKSIGVERIFY)
        else Inr (vch_bool fSuccess # s))
    | _ \<Rightarrow> bad_stack)"

definition op_CHECKDATASIG ::
  "crypto \<Rightarrow> u32 \<Rightarrow> u8 \<Rightarrow> bytes list \<Rightarrow> ScriptError + bytes list" where
  "op_CHECKDATASIG cr flags opcode s = (case s of vchPubKey # vchMessage # vchSig # s \<Rightarrow>
      sbind (check_encodings cr flags vchSig vchPubKey) (\<lambda>_.
        let fSuccess = (if vchSig \<noteq> [] then PubKey_Verify cr vchPubKey (sha256 cr vchMessage) vchSig else False)
        in if \<not> fSuccess \<and> has_flag flags SCRIPT_VERIFY_NULLFAIL \<and> vchSig \<noteq> []
           then Inl SCRIPT_ERR_SIG_NULLFAIL
           else if opcode = OP_CHECKDATASIGVERIFY
           then (if fSuccess then Inr s else Inl SCRIPT_ERR_CHECKDATASIGVERIFY)
           else Inr (vch_bool fSuccess # s))
    | _ \<Rightarrow> bad_stack)"

fun drop_signatures :: "u32 \<Rightarrow> CScript \<Rightarrow> bytes list \<Rightarrow> ScriptError + CScript" where
  "drop_signatures flags scriptCode [] = Inr scriptCode"
| "drop_signatures flags scriptCode (vchSig # sigs) =
    sbind (drop_signature flags scriptCode vchSig) (\<lambda>scriptCode. drop_signatures flags scriptCode sigs)"

fun match_signatures ::
  "crypto \<Rightarrow> BaseSignatureChecker \<Rightarrow> u32 \<Rightarrow> CScript \<Rightarrow> bytes list \<Rightarrow> bytes list \<Rightarrow> ScriptError + bool" where
  "match_signatures cr checker flags scriptCode [] keys = Inr True"
| "match_signatures cr checker flags scriptCode (vchSig # sigs) [] = Inr False"
| "match_signatures cr checker flags scriptCode (vchSig # sigs) (vchPubKey # keys) =
    sbind (check_encodings cr flags vchSig vchPubKey) (\<lambda>_.
      let fOk = CheckSig checker vchSig vchPubKey scriptCode;
          sigs' = (if fOk then sigs else vchSig # sigs)
      in if length sigs' > length keys then Inr False
         else match_signatures cr checker flags scriptCode sigs' keys)"

fun pop_arguments :: "bool \<Rightarrow> nat \<Rightarrow> nat \<Rightarrow> bytes list \<Rightarrow> ScriptError + bytes list" where
  "pop_arguments fNullFail 0 ikey2 s = Inr s"
| "pop_arguments fNullFail (Suc i) ikey2 s =
    (if fNullFail \<and> ikey2 = 0 \<and> hd s \<noteq> [] then Inl SCRIPT_ERR_SIG_NULLFAIL
     else pop_arguments fNullFail i (ikey2 - 1) (tl s))"

definition finish_multisig :: "u32 \<Rightarrow> u8 \<Rightarrow> bool \<Rightarrow> bytes list \<Rightarrow> ScriptError + bytes list" where
  "finish_multisig flags opcode fSuccess s = (case s of [] \<Rightarrow> bad_stack
     | dummy # s \<Rightarrow>
       if has_flag flags SCRIPT_VERIFY_NULLDUMMY \<and> dummy \<noteq> [] then Inl SCRIPT_ERR_SIG_NULLDUMMY
       else if opcode = OP_CHECKMULTISIGVERIFY
       then (if fSuccess then Inr s else Inl SCRIPT_ERR_CHECKMULTISIGVERIFY)
       else Inr (vch_bool fSuccess # s))"

definition check_multisig ::
  "crypto \<Rightarrow> BaseSignatureChecker \<Rightarrow> u32 \<Rightarrow> u8 \<Rightarrow> bytes \<Rightarrow> nat \<Rightarrow> nat \<Rightarrow> bytes list \<Rightarrow> ScriptError + bytes list" where
  "check_multisig cr checker flags opcode codehash nKeysCount nSigsCount s =
    (let keys = take nKeysCount (drop 1 s); sigs = take nSigsCount (drop (nKeysCount + 2) s) in
     sbind (drop_signatures flags codehash sigs) (\<lambda>scriptCode.
     sbind (match_signatures cr checker flags scriptCode sigs keys) (\<lambda>fSuccess.
     sbind (pop_arguments (\<not> fSuccess \<and> has_flag flags SCRIPT_VERIFY_NULLFAIL)
              (nKeysCount + nSigsCount + 2) (nKeysCount + 2) s)
       (finish_multisig flags opcode fSuccess))))"

definition op_CHECKMULTISIG ::
  "crypto \<Rightarrow> BaseSignatureChecker \<Rightarrow> u32 \<Rightarrow> u8 \<Rightarrow> eval_state \<Rightarrow> ScriptError + eval_state" where
  "op_CHECKMULTISIG cr checker flags opcode st =
    (let s = stack st in
     if length s < 1 then bad_stack
     else sbind (read_num flags nDefaultMaxNumSize (s ! 0)) (\<lambda>bn.
       let nKeysCount = getint bn in
       if nKeysCount < 0 \<or> nKeysCount > int MAX_PUBKEYS_PER_MULTISIG then Inl SCRIPT_ERR_PUBKEY_COUNT
       else let nKeysCount = nat nKeysCount; nOps = nOpCount st + nKeysCount in
       if nOps > MAX_OPS_PER_SCRIPT then Inl SCRIPT_ERR_OP_COUNT
       else if length s < nKeysCount + 2 then bad_stack
       else sbind (read_num flags nDefaultMaxNumSize (s ! (nKeysCount + 1))) (\<lambda>bn.
         let nSigsCount = getint bn in
         if nSigsCount < 0 \<or> nSigsCount > int nKeysCount then Inl SCRIPT_ERR_SIG_COUNT
         else let nSigsCount = nat nSigsCount in
         if length s < nKeysCount + 3 + nSigsCount then bad_stack
         else sbind (check_multisig cr checker flags opcode (pbegincodehash st) nKeysCount nSigsCount s)
           (\<lambda>s. Inr (st\<lparr>stack := s, nOpCount := nOps\<rparr>)))))"

subsection \<open>Splice and conversion\<close>

fun op_CAT :: "bytes list \<Rightarrow> ScriptError + bytes list" where
  "op_CAT (x2 # x1 # s) =
    (if length x1 + length x2 > MAX_SCRIPT_ELEMENT_SIZE then Inl SCRIPT_ERR_PUSH_SIZE
     else Inr ((x1 @ x2) # s))"
| "op_CAT _ = bad_stack"

definition op_SPLIT :: "u32 \<Rightarrow> bytes list \<Rightarrow> ScriptError + bytes list" where
  "op_SPLIT flags s = (case s of x2 # vch # s \<Rightarrow>
      sbind (read_num flags nDefaultMaxNumSize x2) (\<lambda>bn.
        let nPosition = getint bn in
        if nPosition < 0 \<or> nat nPosition > length vch then Inl SCRIPT_ERR_INVALID_SPLIT_RANGE
        else if nPosition = 0 then Inr (vch # [] # s)
        else if nat nPosition = length vch then Inr ([] # vch # s)
        else Inr (drop (nat nPosition) vch # take (nat nPosition) vch # s))
    | _ \<Rightarrow> bad_stack)"

definition pad_num :: "bytes \<Rightarrow> nat \<Rightarrow> bytes" where
  "pad_num rawnum sz =
    (let signbit = (if rawnum \<noteq> [] then last rawnum AND 0x80 else 0x00);
         rawnum = (if rawnum \<noteq> [] then butlast rawnum @ [last rawnum AND 0x7f] else rawnum)
     in rawnum @ replicate (sz - 1 - length rawnum) 0x00 @ [signbit])"

definition op_NUM2BIN :: "u32 \<Rightarrow> bytes list \<Rightarrow> ScriptError + bytes list" where
  "op_NUM2BIN flags s = (case s of x2 # x1 # s \<Rightarrow>
      sbind (read_num flags nDefaultMaxNumSize x2) (\<lambda>bn.
        let sz = unat (word_of_int (getint bn) :: u64) in
        if sz > MAX_SCRIPT_ELEMENT_SIZE then Inl SCRIPT_ERR_PUSH_SIZE
        else let rawnum = fst (MinimallyEncode x1) in
        if length rawnum > sz then Inl SCRIPT_ERR_IMPOSSIBLE_ENCODING
        else if length rawnum = sz then Inr (rawnum # s)
        else Inr (pad_num rawnum sz # s))
    | _ \<Rightarrow> bad_stack)"

fun op_BIN2NUM :: "bytes list \<Rightarrow> ScriptError + bytes list" where
  "op_BIN2NUM (x # s) =
    (let n = fst (MinimallyEncode x) in
     if \<not> IsMinimallyEncoded n nDefaultMaxNumSize then Inl SCRIPT_ERR_INVALID_NUMBER_RANGE
     else Inr (n # s))"
| "op_BIN2NUM [] = bad_stack"

subsection \<open>The loop\<close>

definition eval_switch ::
  "crypto \<Rightarrow> BaseSignatureChecker \<Rightarrow> u32 \<Rightarrow> bool \<Rightarrow> u8 \<Rightarrow> bytes \<Rightarrow> eval_state \<Rightarrow> ScriptError + eval_state" where
  "eval_switch cr checker flags fExec opcode pc st =
    (if opcode = OP_1NEGATE \<or> OP_1 \<le> opcode \<and> opcode \<le> OP_16 then on_stack (op_N opcode) st
     else if opcode = OP_NOP then Inr st
     else if opcode = OP_CHECKLOCKTIMEVERIFY then on_stack (op_CHECKLOCKTIMEVERIFY checker flags) st
     else if opcode = OP_CHECKSEQUENCEVERIFY then on_stack (op_CHECKSEQUENCEVERIFY checker flags) st
     else if opcode \<in> {OP_NOP1, OP_NOP4, OP_NOP5, OP_NOP6, OP_NOP7, OP_NOP8, OP_NOP9, OP_NOP10}
       then on_stack (op_NOPn flags) st
     else if opcode \<in> {OP_IF, OP_NOTIF} then op_IF fExec opcode st
     else if opcode = OP_ELSE then op_ELSE st
     else if opcode = OP_ENDIF then op_ENDIF st
     else if opcode = OP_VERIFY then on_stack op_VERIFY st
     else if opcode = OP_RETURN then on_stack op_RETURN st
     else if opcode = OP_TOALTSTACK then op_TOALTSTACK st
     else if opcode = OP_FROMALTSTACK then op_FROMALTSTACK st
     else if opcode = OP_2DROP then on_stack op_2DROP st
     else if opcode = OP_2DUP then on_stack op_2DUP st
     else if opcode = OP_3DUP then on_stack op_3DUP st
     else if opcode = OP_2OVER then on_stack op_2OVER st
     else if opcode = OP_2ROT then on_stack op_2ROT st
     else if opcode = OP_2SWAP then on_stack op_2SWAP st
     else if opcode = OP_IFDUP then on_stack op_IFDUP st
     else if opcode = OP_DEPTH then on_stack op_DEPTH st
     else if opcode = OP_DROP then on_stack op_DROP st
     else if opcode = OP_DUP then on_stack op_DUP st
     else if opcode = OP_NIP then on_stack op_NIP st
     else if opcode = OP_OVER then on_stack op_OVER st
     else if opcode \<in> {OP_PICK, OP_ROLL} then on_stack (op_PICK_ROLL flags opcode) st
     else if opcode = OP_ROT then on_stack op_ROT st
     else if opcode = OP_SWAP then on_stack op_SWAP st
     else if opcode = OP_TUCK then on_stack op_TUCK st
     else if opcode = OP_SIZE then on_stack op_SIZE st
     else if opcode \<in> {OP_EQUAL, OP_EQUALVERIFY} then on_stack (op_EQUAL opcode) st
     else if opcode \<in> {OP_AND, OP_OR, OP_XOR} then on_stack (op_BITWISE opcode) st
     else if opcode \<in> {OP_1ADD, OP_1SUB, OP_NEGATE, OP_ABS, OP_NOT, OP_0NOTEQUAL}
       then on_stack (op_UNARY flags opcode) st
     else if opcode \<in> {OP_ADD, OP_SUB, OP_DIV, OP_MOD, OP_BOOLAND, OP_BOOLOR, OP_NUMEQUAL,
         OP_NUMEQUALVERIFY, OP_NUMNOTEQUAL, OP_LESSTHAN, OP_GREATERTHAN, OP_LESSTHANOREQUAL,
         OP_GREATERTHANOREQUAL, OP_MIN, OP_MAX} then on_stack (op_BINARY flags opcode) st
     else if opcode = OP_WITHIN then on_stack (op_WITHIN flags) st
     else if opcode \<in> {OP_RIPEMD160, OP_SHA1, OP_SHA256, OP_HASH160, OP_HASH256}
       then on_stack (op_HASH cr opcode) st
     else if opcode = OP_CODESEPARATOR then op_CODESEPARATOR pc st
     else if opcode \<in> {OP_CHECKSIG, OP_CHECKSIGVERIFY}
       then on_stack (op_CHECKSIG cr checker flags opcode (pbegincodehash st)) st
     else if opcode \<in> {OP_CHECKDATASIG, OP_CHECKDATASIGVERIFY} then on_stack (op_CHECKDATASIG cr flags opcode) st
     else if opcode \<in> {OP_CHECKMULTISIG, OP_CHECKMULTISIGVERIFY} then op_CHECKMULTISIG cr checker flags opcode st
     else if opcode = OP_CAT then on_stack op_CAT st
     else if opcode = OP_SPLIT then on_stack (op_SPLIT flags) st
     else if opcode = OP_NUM2BIN then on_stack (op_NUM2BIN flags) st
     else if opcode = OP_BIN2NUM then on_stack op_BIN2NUM st
     else Inl SCRIPT_ERR_BAD_OPCODE)"

definition push_value :: "u32 \<Rightarrow> u8 \<Rightarrow> bytes \<Rightarrow> bytes list \<Rightarrow> ScriptError + bytes list" where
  "push_value flags opcode vchPushValue s =
    (if has_flag flags SCRIPT_VERIFY_MINIMALDATA \<and> \<not> CheckMinimalPush vchPushValue opcode
     then Inl SCRIPT_ERR_MINIMALDATA else Inr (vchPushValue # s))"

definition is_disabled :: "u8 \<Rightarrow> bool" where
  "is_disabled opcode \<longleftrightarrow> opcode = OP_INVERT \<or> opcode = OP_2MUL \<or> opcode = OP_2DIV
     \<or> opcode = OP_MUL \<or> opcode = OP_LSHIFT \<or> opcode = OP_RSHIFT"

definition check_stack_size :: "eval_state \<Rightarrow> ScriptError + eval_state" where
  "check_stack_size st =
    (if length (stack st) + length (altstack st) > MAX_STACK_SIZE then Inl SCRIPT_ERR_STACK_SIZE else Inr st)"

definition eval_dispatch ::
  "crypto \<Rightarrow> BaseSignatureChecker \<Rightarrow> u32 \<Rightarrow> u8 \<Rightarrow> bytes \<Rightarrow> bytes \<Rightarrow> eval_state \<Rightarrow> ScriptError + eval_state" where
  "eval_dispatch cr checker flags opcode vchPushValue pc st =
    (let fExec = cs_all_true (vfExec st) in
     if fExec \<and> opcode \<le> OP_PUSHDATA4 then on_stack (push_value flags opcode vchPushValue) st
     else if fExec \<or> OP_IF \<le> opcode \<and> opcode \<le> OP_ENDIF
       then eval_switch cr checker flags fExec opcode pc st
     else Inr st)"

definition eval_step ::
  "crypto \<Rightarrow> BaseSignatureChecker \<Rightarrow> u32 \<Rightarrow> u8 \<Rightarrow> bytes \<Rightarrow> bytes \<Rightarrow> eval_state \<Rightarrow> ScriptError + eval_state" where
  "eval_step cr checker flags opcode vchPushValue pc st =
    (if length vchPushValue > MAX_SCRIPT_ELEMENT_SIZE then Inl SCRIPT_ERR_PUSH_SIZE
     else let nOps = (if opcode > OP_16 then nOpCount st + 1 else nOpCount st) in
     if nOps > MAX_OPS_PER_SCRIPT \<and> opcode > OP_16 then Inl SCRIPT_ERR_OP_COUNT
     else if is_disabled opcode then Inl SCRIPT_ERR_DISABLED_OPCODE
     else if opcode = OP_CODESEPARATOR \<and> has_flag flags SCRIPT_VERIFY_CONST_SCRIPTCODE
       then Inl SCRIPT_ERR_OP_CODESEPARATOR
     else sbind (eval_dispatch cr checker flags opcode vchPushValue pc (st\<lparr>nOpCount := nOps\<rparr>))
       check_stack_size)"

function eval_loop ::
  "crypto \<Rightarrow> BaseSignatureChecker \<Rightarrow> u32 \<Rightarrow> bytes \<Rightarrow> eval_state \<Rightarrow> ScriptError + eval_state" where
  "eval_loop cr checker flags pc st =
    (if pc = [] then Inr st
     else case GetScriptOp pc of None \<Rightarrow> Inl SCRIPT_ERR_BAD_OPCODE
     | Some (opcode, vchPushValue, pc') \<Rightarrow>
        (case eval_step cr checker flags opcode vchPushValue pc' st of
           Inl e \<Rightarrow> Inl e
         | Inr st' \<Rightarrow> eval_loop cr checker flags pc' st'))"
  by auto
termination
  by (relation "measure (\<lambda>(_, _, _, pc, _). length pc)") (auto dest: GetScriptOp_shorter)

declare eval_loop.simps [simp del]

definition eval_init :: "bytes list \<Rightarrow> CScript \<Rightarrow> eval_state" where
  "eval_init s script = \<lparr>stack = s, altstack = [], vfExec = cs_new, pbegincodehash = script, nOpCount = 0\<rparr>"

definition EvalScript ::
  "crypto \<Rightarrow> BaseSignatureChecker \<Rightarrow> u32 \<Rightarrow> bytes list \<Rightarrow> CScript \<Rightarrow> ScriptError + bytes list" where
  "EvalScript cr checker flags s script =
    (if length script > MAX_SCRIPT_SIZE then Inl SCRIPT_ERR_SCRIPT_SIZE
     else sbind (eval_loop cr checker flags script (eval_init s script)) (\<lambda>st.
       if \<not> cs_empty (vfExec st) then Inl SCRIPT_ERR_UNBALANCED_CONDITIONAL else Inr (stack st)))"

text \<open>A failed \<^verbatim>\<open>assert\<close> aborts the process, which is an outcome of its own.\<close>

datatype verify_result = Accepted | Rejected ScriptError | AssertionFailed

definition eval_true :: "bytes list \<Rightarrow> bool" where
  "eval_true s \<longleftrightarrow> s \<noteq> [] \<and> CastToBool (hd s)"

definition check_cleanstack :: "u32 \<Rightarrow> bytes list \<Rightarrow> verify_result" where
  "check_cleanstack flags s =
    (if has_flag flags SCRIPT_VERIFY_CLEANSTACK then
       if \<not> has_flag flags SCRIPT_VERIFY_P2SH then AssertionFailed
       else if length s \<noteq> 1 then Rejected SCRIPT_ERR_CLEANSTACK else Accepted
     else Accepted)"

definition verify_p2sh ::
  "crypto \<Rightarrow> BaseSignatureChecker \<Rightarrow> u32 \<Rightarrow> CScript \<Rightarrow> bytes list \<Rightarrow> verify_result" where
  "verify_p2sh cr checker flags script_sig stackCopy =
    (if \<not> IsPushOnly script_sig then Rejected SCRIPT_ERR_SIG_PUSHONLY
     else case stackCopy of [] \<Rightarrow> AssertionFailed
     | pubKey2 # s \<Rightarrow>
        (case EvalScript cr checker flags s pubKey2 of Inl e \<Rightarrow> Rejected e
         | Inr s \<Rightarrow> if \<not> eval_true s then Rejected SCRIPT_ERR_EVAL_FALSE else check_cleanstack flags s))"

definition VerifyScript ::
  "crypto \<Rightarrow> BaseSignatureChecker \<Rightarrow> u32 \<Rightarrow> CScript \<Rightarrow> CScript \<Rightarrow> verify_result" where
  "VerifyScript cr checker flags script_sig script_pubkey =
    (if has_flag flags SCRIPT_VERIFY_SIGPUSHONLY \<and> \<not> IsPushOnly script_sig
       then Rejected SCRIPT_ERR_SIG_PUSHONLY
     else case EvalScript cr checker flags [] script_sig of Inl e \<Rightarrow> Rejected e
     | Inr stackCopy \<Rightarrow>
        (case EvalScript cr checker flags stackCopy script_pubkey of Inl e \<Rightarrow> Rejected e
         | Inr s \<Rightarrow>
           if \<not> eval_true s then Rejected SCRIPT_ERR_EVAL_FALSE
           else if has_flag flags SCRIPT_VERIFY_P2SH \<and> IsPayToScriptHash script_pubkey
             then verify_p2sh cr checker flags script_sig stackCopy
           else check_cleanstack flags s))"

end
