(* ===== verification/Money.thy ===== *)
theory Money
  imports Consensus_Params Chain_Index
begin

text \<open>
  Amounts: their text (\<^verbatim>\<open>src/src/util/moneystr.cpp\<close>), fee rates (\<^verbatim>\<open>src/src/policy/feerate.{h,cpp}\<close>) and the block
  subsidy with its split (\<^verbatim>\<open>src/src/validation.cpp\<close>, \<^verbatim>\<open>src/src/deploymentstatus.h\<close>).
\<close>

subsection \<open>Amounts as text\<close>

fun dec_digits :: "nat \<Rightarrow> string" where
  "dec_digits n = (if n < 10 then [char_of (48 + n)] else dec_digits (n div 10) @ [char_of (48 + n mod 10)])"

declare dec_digits.simps [simp del]

text \<open>\<^verbatim>\<open>strprintf("%d.%08d", quotient, remainder)\<close>\<close>

definition format_amount :: "nat \<Rightarrow> nat \<Rightarrow> string" where
  "format_amount q r =
     dec_digits q @ ''.'' @ replicate (8 - length (dec_digits r)) (CHR ''0'') @ dec_digits r"

text \<open>The trimming loop, on the reversed string.\<close>

fun money_trim :: "string \<Rightarrow> string" where
  "money_trim (c # d # e # cs) = (if c = CHR ''0'' \<and> IsDigit e then money_trim (d # e # cs) else c # d # e # cs)"
| "money_trim cs = cs"

definition FormatMoney :: "CAmount \<Rightarrow> string" where
  "FormatMoney n =
     (let q = cdiv n COIN; r = cmod n COIN;
          (q, r) = (if n < 0 then (- q, - r) else (q, r));
          str = rev (money_trim (rev (format_amount (nat q) (nat r))))
      in if n < 0 then CHR ''-'' # str else str)"

fun parse_frac :: "int \<Rightarrow> int \<Rightarrow> string \<Rightarrow> int \<times> string" where
  "parse_frac nMult nUnits [] = (nUnits, [])"
| "parse_frac nMult nUnits (c # cs) =
     (if IsDigit c \<and> nMult > 0 then parse_frac (cdiv nMult 10) (nUnits + nMult * int (digit_val c)) cs else (nUnits, c # cs))"

text \<open>The loop over the text: the whole part, the units and the rest that was not read.\<close>

fun parse_whole :: "string \<Rightarrow> string \<Rightarrow> (string \<times> int \<times> string) option" where
  "parse_whole strWhole [] = Some (strWhole, 0, [])"
| "parse_whole strWhole (c # cs) =
     (if c = CHR ''.'' then (case parse_frac (cdiv COIN 10) 0 cs of (nUnits, rest) \<Rightarrow> Some (strWhole, nUnits, rest))
      else if IsSpace c then None
      else if \<not> IsDigit c then None
      else parse_whole (strWhole @ [c]) cs)"

definition ParseMoney :: "string \<Rightarrow> CAmount option" where
  "ParseMoney money_string =
     (if \<not> ContainsNoNUL money_string then None
      else let str = TrimStringView money_string in
        if str = [] then None
        else (case parse_whole [] str of None \<Rightarrow> None
              | Some (strWhole, nUnits, rest) \<Rightarrow>
                if rest \<noteq> [] then None
                else if length strWhole > 10 then None
                else if nUnits < 0 \<or> nUnits > COIN then None
                else let value = LocaleIndependentAtoi int64_t strWhole * COIN + nUnits in
                  if \<not> MoneyRange value then None else Some value))"

subsection \<open>Fee rates\<close>

text \<open>
  \<^verbatim>\<open>std::ceil(nSatoshisPerK * nSize / 1000.0)\<close> is the exact ceiling while the product stays below \<open>2 ^ 53\<close>: the quotient
  of a product that is not a multiple of 1000 is at least \<open>1 / 1000\<close> away from an integer, more than its rounding error.
\<close>

definition CFeeRate :: "CAmount \<Rightarrow> u32 \<Rightarrow> CAmount" where
  "CFeeRate nFeePaid num_bytes = (let nSize = uint num_bytes in if nSize > 0 then cdiv (nFeePaid * 1000) nSize else 0)"

definition GetFee :: "CAmount \<Rightarrow> u32 \<Rightarrow> CAmount" where
  "GetFee nSatoshisPerK num_bytes =
     (let nSize = uint num_bytes;
          nFee = - ((- (nSatoshisPerK * nSize)) div 1000)
      in if nFee = 0 \<and> nSize \<noteq> 0 then (if nSatoshisPerK > 0 then 1 else if nSatoshisPerK < 0 then - 1 else nFee) else nFee)"

subsection \<open>Block subsidy\<close>

text \<open>The shift \<^verbatim>\<open>nSubsidy >>= halvings\<close> of a non-negative amount is a division by a power of two.\<close>

definition GetBlockSubsidyHelper :: "bool \<Rightarrow> int \<Rightarrow> Params \<Rightarrow> bool \<Rightarrow> CAmount \<times> CAmount" where
  "GetBlockSubsidyHelper isDevnet nPrevHeight consensusParams fV20Active =
     (let height = nPrevHeight + 1 in
      if nPremineHeight consensusParams > 0 \<and> height = nPremineHeight consensusParams
      then (nPremineReward consensusParams, 0)
      else let halvings = cdiv height (nSubsidyHalvingInterval consensusParams) in
        if halvings \<ge> 64 then (0, 0)
        else let nSubsidy = drop_bit (nat halvings) (50 * COIN);
                 nSubsidy = (if isDevnet \<and> height \<le> nHighSubsidyBlocks consensusParams
                             then nSubsidy * nHighSubsidyFactor consensusParams else nSubsidy);
                 nSuperblockPart = (if height \<ge> nBudgetPaymentsStartBlock consensusParams
                                    then cdiv nSubsidy (if fV20Active then 5 else 10) else 0)
             in (nSubsidy - nSuperblockPart, nSuperblockPart))"

definition GetSuperblockSubsidyInner :: "bool \<Rightarrow> int \<Rightarrow> Params \<Rightarrow> bool \<Rightarrow> CAmount" where
  "GetSuperblockSubsidyInner isDevnet nPrevHeight consensusParams fV20Active =
     snd (GetBlockSubsidyHelper isDevnet nPrevHeight consensusParams fV20Active)"

definition GetBlockSubsidyInner :: "bool \<Rightarrow> int \<Rightarrow> Params \<Rightarrow> bool \<Rightarrow> CAmount" where
  "GetBlockSubsidyInner isDevnet nPrevHeight consensusParams fV20Active =
     fst (GetBlockSubsidyHelper isDevnet nPrevHeight consensusParams fV20Active)"

text \<open>Buried deployments are active from a fixed height on.\<close>

definition DeploymentActiveAt :: "CBlockIndex \<Rightarrow> Params \<Rightarrow> BuriedDeployment \<Rightarrow> bool" where
  "DeploymentActiveAt index params dep \<longleftrightarrow> int (nHeight index) \<ge> DeploymentHeight params dep"

definition DeploymentActiveAfter :: "CBlockIndex option \<Rightarrow> Params \<Rightarrow> BuriedDeployment \<Rightarrow> bool" where
  "DeploymentActiveAfter pindexPrev params dep \<longleftrightarrow>
     (case pindexPrev of None \<Rightarrow> 0 | Some b \<Rightarrow> int (nHeight b) + 1) \<ge> DeploymentHeight params dep"

text \<open>\<open>genesisValue\<close> is the value of the genesis block's coinbase.\<close>

definition GetBlockSubsidy :: "bool \<Rightarrow> CAmount \<Rightarrow> block_store \<Rightarrow> block_ptr \<Rightarrow> Params \<Rightarrow> fault + CAmount" where
  "GetBlockSubsidy isDevnet genesisValue st p consensusParams =
     (case st p of None \<Rightarrow> Inl BadPointer
      | Some b \<Rightarrow>
        (case pprev b of None \<Rightarrow> Inr genesisValue
         | Some q \<Rightarrow>
           (case st q of None \<Rightarrow> Inl BadPointer
            | Some c \<Rightarrow> Inr (GetBlockSubsidyInner isDevnet (int (nHeight c)) consensusParams
                              (DeploymentActiveAt b consensusParams DEPLOYMENT_V20)))))"

definition GetMasternodePayment :: "CAmount \<Rightarrow> bool \<Rightarrow> CAmount" where
  "GetMasternodePayment blockValue fV20Active =
     (if \<not> fV20Active then cdiv (blockValue * 45) 100 else cdiv (blockValue * 55) 100)"

subsection \<open>Decimal printing\<close>

lemma IsDigit_char_of: "d < 10 \<Longrightarrow> IsDigit (char_of (48 + d :: nat))" "d < 10 \<Longrightarrow> digit_val (char_of (48 + d :: nat)) = d"
  by (simp_all add: IsDigit_def digit_val_def less_eq_char_def of_char_of)

lemma dec_digits_spec:
  "dec_digits n \<noteq> [] \<and> (\<forall>c \<in> set (dec_digits n). IsDigit c) \<and> dec_val (dec_digits n) = n"
proof (induction n rule: dec_digits.induct)
  case (1 n)
  show ?case
  proof (cases "n < 10")
    case True
    then show ?thesis by (simp add: dec_digits.simps [of n] dec_val_def IsDigit_char_of)
  next
    case False
    then show ?thesis using 1 IsDigit_char_of [of "n mod 10"]
      by (auto simp: dec_digits.simps [of n] dec_val_def)
  qed
qed

lemma length_dec_digits: "n < 10 ^ Suc k \<Longrightarrow> length (dec_digits n) \<le> Suc k"
proof (induction k arbitrary: n)
  case (Suc k)
  show ?case
  proof (cases "n < 10")
    case False
    have "n div 10 < 10 ^ Suc k" using Suc.prems by (simp add: less_mult_imp_div_less)
    then show ?thesis using Suc.IH False by (simp add: dec_digits.simps [of n])
  qed (simp add: dec_digits.simps [of n])
next
  case 0
  then show ?case by (simp add: dec_digits.simps [of n])
qed

lemma dec_val_zeros: "dec_val (replicate k (CHR ''0'') @ ds) = dec_val ds"
proof -
  have "foldl (\<lambda>a c. a * 10 + digit_val c) 0 (replicate k (CHR ''0'')) = 0" by (induction k) simp_all
  then show ?thesis by (simp add: dec_val_def)
qed

lemma dec_val_append_zeros: "dec_val (ds @ replicate k (CHR ''0'')) = dec_val ds * 10 ^ k"
  by (induction k) (simp_all add: dec_val_def replicate_append_same [symmetric])

lemma dec_val_Cons: "dec_val (c # ds) = digit_val c * 10 ^ length ds + dec_val ds"
proof (induction ds rule: rev_induct)
  case (snoc d ds)
  have "dec_val ((c # ds) @ [d]) = dec_val (c # ds) * 10 + digit_val d" "dec_val (ds @ [d]) = dec_val ds * 10 + digit_val d"
    by (simp_all only: dec_val_def foldl_append) simp_all
  then show ?case using snoc by simp
qed (simp add: dec_val_def)

lemma parse_frac_digits:
  "\<forall>c \<in> set ds. IsDigit c \<Longrightarrow> length ds \<le> m \<Longrightarrow>
   parse_frac (if m = 0 then 0 else 10 ^ (m - 1)) u ds = (u + int (dec_val ds * 10 ^ (m - length ds)), [])"
proof (induction ds arbitrary: m u)
  case Nil
  then show ?case by (simp add: dec_val_def)
next
  case (Cons c ds)
  then obtain k where m: "m = Suc k" by (cases m) auto
  have div10: "cdiv (10 ^ k) 10 = (if k = 0 then 0 else 10 ^ (k - 1) :: int)" by (cases k) simp_all
  have "(10::nat) ^ k = 10 ^ length ds * 10 ^ (k - length ds)" using Cons.prems(2) m by (simp flip: power_add)
  then have "int (10 ^ k) = int (10 ^ length ds * 10 ^ (k - length ds))" by (rule arg_cong)
  then have p: "(10::int) ^ k = 10 ^ length ds * 10 ^ (k - length ds)" by simp
  have "parse_frac (if m = 0 then 0 else 10 ^ (m - 1)) u (c # ds) = parse_frac (cdiv (10 ^ k) 10) (u + 10 ^ k * int (digit_val c)) ds"
    using Cons.prems(1) m by simp
  also have "\<dots> = (u + 10 ^ k * int (digit_val c) + int (dec_val ds * 10 ^ (k - length ds)), [])"
    unfolding div10 by (rule Cons.IH) (use Cons.prems m in auto)
  also have "\<dots> = (u + int (dec_val (c # ds) * 10 ^ (m - length (c # ds))), [])"
    by (simp add: m dec_val_Cons p algebra_simps)
  finally show ?case .
qed

lemma parse_whole_digits:
  "\<forall>c \<in> set ds. IsDigit c \<Longrightarrow>
   parse_whole acc (ds @ CHR ''.'' # fs) = (case parse_frac (cdiv COIN 10) 0 fs of (u, rest) \<Rightarrow> Some (acc @ ds, u, rest))"
proof (induction ds arbitrary: acc)
  case (Cons c ds)
  have "c \<noteq> CHR ''.''" "\<not> IsSpace c" using Cons.prems by (auto simp: IsDigit_def IsSpace_def less_eq_char_def)
  then show ?case using Cons by simp
qed simp

lemma digits_not_special:
  assumes "IsDigit c"
  shows "\<not> IsSpace c" "c \<noteq> CHR ''+''" "c \<noteq> CHR ''-''" "c \<noteq> CHR ''.''" "c \<noteq> CHR 0x00"
  using assms by (auto simp: IsDigit_def IsSpace_def less_eq_char_def)

lemma TrimStringView_id:
  assumes "str \<noteq> []" "\<not> IsSpace (hd str)" "\<not> IsSpace (last str)"
  shows "TrimStringView str = str"
proof -
  have "dropWhile IsSpace str = str" using assms by (cases str) auto
  moreover have "dropWhile IsSpace (rev str) = rev str" using assms by (cases str rule: rev_cases) auto
  ultimately show ?thesis by (simp add: TrimStringView_def)
qed

lemma LocaleIndependentAtoi_digits:
  assumes "ds \<noteq> []" "\<forall>c \<in> set ds. IsDigit c" "int (dec_val ds) \<le> it_max T" "it_min T \<le> 0"
  shows "LocaleIndependentAtoi T ds = int (dec_val ds)"
proof -
  have d: "IsDigit (hd ds)" "IsDigit (last ds)" using assms(1,2) by simp_all
  have t: "TrimStringView ds = ds" using assms(1) d digits_not_special(1) by (intro TrimStringView_id) auto
  have h: "ds ! 0 = hd ds" using assms(1) by (simp add: hd_conv_nth)
  have tw: "takeWhile IsDigit ds = ds" using assms(2) by simp
  have "from_chars T ds = (dropWhile IsDigit ds, Inr (int (dec_val ds)))"
    using assms d(1) digits_not_special(3) by (auto simp: from_chars_def Let_def tw)
  then show ?thesis
    using digits_not_special(2) [OF d(1)] h t by (simp add: LocaleIndependentAtoi_def Let_def)
qed

lemma money_trim_spec:
  "2 \<le> length G \<Longrightarrow> \<exists>k G'. G = replicate k (CHR ''0'') @ G' \<and> 2 \<le> length G' \<and> money_trim (G @ CHR ''.'' # X) = G' @ CHR ''.'' # X"
proof (induction G)
  case (Cons c G)
  show ?case
  proof (cases "length G = 1")
    case True
    then obtain d where "G = [d]" by (auto simp: length_Suc_conv)
    then show ?thesis by (intro exI [of _ 0] exI [of _ "[c, d]"]) (simp add: IsDigit_def less_eq_char_def)
  next
    case False
    then obtain d e H where G: "G = d # e # H" using Cons.prems by (cases G; cases "tl G") auto
    show ?thesis
    proof (cases "c = CHR ''0'' \<and> IsDigit e")
      case True
      obtain k G' where "G = replicate k (CHR ''0'') @ G'" "2 \<le> length G'" "money_trim (G @ CHR ''.'' # X) = G' @ CHR ''.'' # X"
      proof -
        have "2 \<le> length G" using G by simp
        from Cons.IH [OF this] show thesis using that by blast
      qed
      moreover have "money_trim ((c # G) @ CHR ''.'' # X) = money_trim (G @ CHR ''.'' # X)" using True G by simp
      ultimately show ?thesis using True by (intro exI [of _ "Suc k"] exI [of _ G']) simp
    next
      case no: False
      then show ?thesis using G by (intro exI [of _ 0] exI [of _ "c # G"]) auto
    qed
  qed
qed simp

lemma FormatMoney_nonneg:
  assumes "0 \<le> n"
  obtains fs where "FormatMoney n = dec_digits (nat (n div COIN)) @ CHR ''.'' # fs" "\<forall>c \<in> set fs. IsDigit c" "fs \<noteq> []"
    "length fs \<le> 8" "dec_val fs * 10 ^ (8 - length fs) = nat (n mod COIN)"
proof -
  define r where "r = nat (n mod COIN)"
  define F where "F = replicate (8 - length (dec_digits r)) (CHR ''0'') @ dec_digits r"
  have "r < 10 ^ 8" by (simp add: r_def COIN_def nat_less_iff)
  then have len: "length F = 8" using length_dec_digits [of r 7] by (simp add: F_def)
  have dig: "\<forall>c \<in> set F. IsDigit c" using dec_digits_spec [of r] by (auto simp: F_def IsDigit_def less_eq_char_def)
  have val: "dec_val F = r" using dec_digits_spec [of r] by (simp add: F_def dec_val_zeros)
  obtain k G' where G: "rev F = replicate k (CHR ''0'') @ G'" "2 \<le> length G'"
    "money_trim (rev F @ CHR ''.'' # rev (dec_digits (nat (n div COIN)))) = G' @ CHR ''.'' # rev (dec_digits (nat (n div COIN)))"
  proof -
    have "2 \<le> length (rev F)" using len by simp
    from money_trim_spec [OF this, of "rev (dec_digits (nat (n div COIN)))"] show thesis using that by blast
  qed
  have F: "F = rev G' @ replicate k (CHR ''0'')" using arg_cong [OF G(1), of rev] by simp
  have "FormatMoney n = dec_digits (nat (n div COIN)) @ CHR ''.'' # rev G'"
    using assms G(3) by (simp add: FormatMoney_def format_amount_def COIN_def r_def F_def)
  moreover have "\<forall>c \<in> set (rev G'). IsDigit c" using dig F by auto
  moreover have k: "8 - length (rev G') = k" "length (rev G') \<le> 8" using len F by auto
  moreover have "dec_val (rev G') * 10 ^ k = nat (n mod COIN)" using val unfolding F dec_val_append_zeros r_def .
  moreover have "rev G' \<noteq> []" using G(2) by auto
  ultimately show thesis using that [of "rev G'"] unfolding k(1) by blast
qed

lemma ParseMoney_FormatMoney:
  assumes "MoneyRange n"
  shows "ParseMoney (FormatMoney n) = Some n"
proof -
  have n: "0 \<le> n" "n \<le> MAX_MONEY" using assms by (simp_all add: MoneyRange_def)
  define ds where "ds = dec_digits (nat (n div COIN))"
  obtain fs where fs: "FormatMoney n = ds @ CHR ''.'' # fs" "\<forall>c \<in> set fs. IsDigit c" "fs \<noteq> []"
    "length fs \<le> 8" "dec_val fs * 10 ^ (8 - length fs) = nat (n mod COIN)"
    using FormatMoney_nonneg [OF n(1)] unfolding ds_def by metis
  have ds: "ds \<noteq> []" "\<forall>c \<in> set ds. IsDigit c" "dec_val ds = nat (n div COIN)"
    using dec_digits_spec unfolding ds_def by auto
  have q: "n div COIN \<le> 21000000" "0 \<le> n div COIN" "0 \<le> n mod COIN" "n mod COIN < COIN"
    using n by (simp_all add: COIN_def MAX_MONEY_def)
  have "nat (n div COIN) < 10 ^ Suc 9" using q by simp
  then have len: "length ds \<le> 10" using length_dec_digits [of "nat (n div COIN)" 9] by (simp add: ds_def)
  have trim: "TrimStringView (FormatMoney n) = FormatMoney n"
    using ds fs digits_not_special(1) by (intro TrimStringView_id) (auto simp: hd_append)
  have nul: "ContainsNoNUL (FormatMoney n)"
    using ds(2) fs(1,2) digits_not_special(5) by (auto simp: ContainsNoNUL_def)
  have c10: "cdiv COIN 10 = (if (8::nat) = 0 then 0 else 10 ^ (8 - 1))" by (simp add: COIN_def)
  have fr: "parse_frac (cdiv COIN 10) 0 fs = (n mod COIN, [])"
    unfolding c10 parse_frac_digits [OF fs(2,4)] fs(5) using q(3) by simp
  have w: "parse_whole [] (FormatMoney n) = Some (ds, n mod COIN, [])"
    unfolding fs(1) parse_whole_digits [OF ds(2)] fr by simp
  have "LocaleIndependentAtoi int64_t ds = n div COIN"
    using LocaleIndependentAtoi_digits [OF ds(1,2), of int64_t] ds(3) q(1,2) by (simp add: int64_t_def)
  then have v: "LocaleIndependentAtoi int64_t ds * COIN + n mod COIN = n" by simp
  have g: "FormatMoney n \<noteq> []" "\<not> length ds > 10" "\<not> (n mod COIN < 0 \<or> n mod COIN > COIN)"
    using fs(1) len q(3,4) by auto
  show ?thesis
    unfolding ParseMoney_def Let_def trim w using nul g v assms by (simp only: option.case prod.case if_False not_True_eq_False simp_thms)
qed

subsection \<open>Subsidy\<close>

lemma GetBlockSubsidyHelper_split:
  assumes "0 \<le> h" "0 < nSubsidyHalvingInterval p" "nPremineHeight p \<le> 0 \<or> h + 1 \<noteq> nPremineHeight p"
    "\<not> isDevnet" "GetBlockSubsidyHelper isDevnet h p v20 = (s, sb)"
  shows "s + sb = (if 64 \<le> (h + 1) div nSubsidyHalvingInterval p then 0 else 50 * COIN div 2 ^ nat ((h + 1) div nSubsidyHalvingInterval p)) \<and>
    0 \<le> sb \<and> 4 * sb \<le> s"
proof (cases "64 \<le> (h + 1) div nSubsidyHalvingInterval p")
  case True
  then show ?thesis using assms by (auto simp: GetBlockSubsidyHelper_def Let_def)
next
  case False
  define x where "x = drop_bit (nat ((h + 1) div nSubsidyHalvingInterval p)) (50 * COIN)"
  have x: "x = 50 * COIN div 2 ^ nat ((h + 1) div nSubsidyHalvingInterval p)" by (simp add: x_def drop_bit_eq_div)
  then have x0: "0 \<le> x" by (simp add: COIN_def pos_imp_zdiv_nonneg_iff)
  then have d: "0 \<le> x div 5" "0 \<le> x div 10" "5 * (x div 5) \<le> x" "10 * (x div 10) \<le> x"
    by (simp_all add: pos_imp_zdiv_nonneg_iff)
  have sb: "sb = (if h + 1 \<ge> nBudgetPaymentsStartBlock p then x div (if v20 then 5 else 10) else 0)" "s = x - sb"
    using assms False x0 by (auto simp: GetBlockSubsidyHelper_def Let_def x_def)
  have "0 \<le> sb" "5 * sb \<le> x" unfolding sb(1) using d x0 by auto
  then show ?thesis using x False sb(2) by simp
qed

subsection \<open>Correctness of amounts and subsidy\<close>

text \<open>C31.  Every amount in the valid money range is recovered from its text.\<close>

theorem money_text_round_trip:
  assumes "MoneyRange n"
  shows "ParseMoney (FormatMoney n) = Some n"
  using assms by (rule ParseMoney_FormatMoney)

theorem money_text_round_trip_witness: "ParseMoney (FormatMoney 2099999997690000) = Some 2099999997690000"
  by (rule money_text_round_trip) (simp add: MoneyRange_def MAX_MONEY_def COIN_def)

text \<open>
  Outside the premine and off developer networks a block issues \<open>50 COIN\<close> halved once per interval, and nothing
  from the 64th halving on; the governance part is never negative and at most a fifth of the total.
\<close>

theorem block_subsidy_split:
  assumes "0 \<le> nPrevHeight" "0 < nSubsidyHalvingInterval params"
    "nPremineHeight params \<le> 0 \<or> nPrevHeight + 1 \<noteq> nPremineHeight params"
    "GetBlockSubsidyHelper False nPrevHeight params v20 = (subsidy, superblock)"
  shows "subsidy + superblock =
      (let halvings = (nPrevHeight + 1) div nSubsidyHalvingInterval params
       in if 64 \<le> halvings then 0 else 50 * COIN div 2 ^ nat halvings) \<and>
    0 \<le> superblock \<and> 5 * superblock \<le> subsidy + superblock"
  using GetBlockSubsidyHelper_split [OF assms(1-3) _ assms(4)] by (simp add: Let_def)

theorem block_subsidy_split_witness:
  "GetBlockSubsidyHelper False 2000000 CMainParams True = (1000000000, 250000000) \<and>
   (1000000000 + 250000000 :: int) = 50 * COIN div 2 ^ 2"
proof -
  have e: "GetBlockSubsidyHelper False 2000000 CMainParams True = (1000000000, 250000000)"
    by (simp add: GetBlockSubsidyHelper_def CMainParams_def COIN_def drop_bit_eq_div)
  show ?thesis
    using block_subsidy_split [OF _ _ _ e] e by (simp add: CMainParams_def Let_def)
qed

end
