(* ===== verification/Interpreter_Correct.thy ===== *)
theory Interpreter_Correct
  imports Interpreter Money "HOL-Library.Sublist"
begin

text \<open>
  Correctness of the script interpreter: verification flags only restrict, resource limits hold in
  every reachable state, the multi-signature pass finds a match whenever there is one, the condition
  stack refines a stack of booleans, and no \<^verbatim>\<open>assert\<close> of \<^verbatim>\<open>VerifyScript\<close> can fail.
\<close>

subsection \<open>Adding flags only restricts\<close>

text \<open>\<^verbatim>\<open>acc_le x y\<close>: what \<^verbatim>\<open>y\<close> (under more flags) accepts, \<^verbatim>\<open>x\<close> (under fewer) accepts with the same result.\<close>

definition acc_le :: "'e + 'a \<Rightarrow> 'e + 'a \<Rightarrow> bool" where
  "acc_le x y \<longleftrightarrow> (\<forall>a. y = Inr a \<longrightarrow> x = Inr a)"

named_theorems soft_fork \<open>monotonicity in the verification flags\<close>

lemma sbind_Inl [simp]: "sbind (Inl e) f = Inl e" by (simp add: sbind_def)

lemma sbind_Inr [simp]: "sbind (Inr a) f = f a" by (simp add: sbind_def)

lemma sbind_eq_Inr: "sbind x f = Inr b \<longleftrightarrow> (\<exists>a. x = Inr a \<and> f a = Inr b)"
  by (cases x) auto

lemma acc_le_refl [soft_fork, simp]: "acc_le x x" by (simp add: acc_le_def)

lemma acc_le_Inl [soft_fork]: "acc_le x (Inl e)" by (simp add: acc_le_def)

lemma acc_le_if [soft_fork]:
  "(c \<Longrightarrow> acc_le x y) \<Longrightarrow> (\<not> c \<Longrightarrow> acc_le x' y') \<Longrightarrow> acc_le (if c then x else x') (if c then y else y')"
  by simp

lemma acc_le_guard [soft_fork]:
  "(c \<Longrightarrow> d) \<Longrightarrow> (\<not> d \<Longrightarrow> acc_le x y) \<Longrightarrow> acc_le (if c then Inl e else x) (if d then Inl e' else y)"
  by (auto simp: acc_le_def)

lemma acc_le_sbind [soft_fork]:
  "acc_le x y \<Longrightarrow> (\<And>a. y = Inr a \<Longrightarrow> acc_le (f a) (g a)) \<Longrightarrow> acc_le (sbind x f) (sbind y g)"
  by (auto simp: acc_le_def sbind_eq_Inr)

lemma acc_le_on_stack [soft_fork]: "acc_le (f (stack st)) (g (stack st)) \<Longrightarrow> acc_le (on_stack f st) (on_stack g st)"
  unfolding on_stack_def by (intro soft_fork)

lemma acc_le_list_case [soft_fork]:
  "(s = [] \<Longrightarrow> acc_le x y) \<Longrightarrow> (\<And>a t. s = a # t \<Longrightarrow> acc_le (f a t) (g a t)) \<Longrightarrow>
   acc_le (case s of [] \<Rightarrow> x | a # t \<Rightarrow> f a t) (case s of [] \<Rightarrow> y | a # t \<Rightarrow> g a t)"
  by (cases s) auto

locale flag_order =
  fixes f g :: u32
  assumes le: "flags_le f g"
begin

lemma flag_le: "has_flag f x \<Longrightarrow> has_flag g x"
  using has_flag_mono [OF le] .

lemma read_num_le [soft_fork]: "acc_le (read_num f n v) (read_num g n v)"
  using flag_le by (auto simp: acc_le_def read_num_def CScriptNum_def split: if_splits)

lemma check_encodings_le [soft_fork]: "acc_le (check_encodings cr f sg k) (check_encodings cr g sg k)"
  using CheckSignatureEncoding_mono [OF le] CheckPubKeyEncoding_mono [OF le]
  by (auto simp: acc_le_def check_encodings_def sbind_eq_Inr)

lemma drop_signature_le [soft_fork]: "acc_le (drop_signature f c sg) (drop_signature g c sg)"
  using flag_le by (auto simp: acc_le_def drop_signature_def split: prod.splits if_splits)

lemma drop_signatures_le [soft_fork]: "acc_le (drop_signatures f c sgs) (drop_signatures g c sgs)"
  by (induction sgs arbitrary: c) (auto intro!: soft_fork)

lemma match_signatures_le [soft_fork]:
  "acc_le (match_signatures cr ch f c sgs ks) (match_signatures cr ch g c sgs ks)"
proof (induction ks arbitrary: sgs)
  case Nil
  then show ?case by (cases sgs) simp_all
next
  case (Cons k ks)
  then show ?case by (cases sgs) (auto simp: Let_def intro!: soft_fork)
qed

lemma pop_arguments_le [soft_fork]: "(a \<Longrightarrow> b) \<Longrightarrow> acc_le (pop_arguments a i k s) (pop_arguments b i k s)"
  by (induction i arbitrary: k s) (auto intro!: soft_fork)

lemma EvalChecksig_le [soft_fork]: "acc_le (EvalChecksig cr ch f sg k c) (EvalChecksig cr ch g sg k c)"
  unfolding EvalChecksig_def Let_def using flag_le by (intro soft_fork) auto

lemma finish_multisig_le [soft_fork]: "acc_le (finish_multisig f opc b s) (finish_multisig g opc b s)"
  unfolding finish_multisig_def using flag_le by (intro soft_fork) auto

lemma check_multisig_le [soft_fork]:
  "acc_le (check_multisig cr ch f opc c n m s) (check_multisig cr ch g opc c n m s)"
  unfolding check_multisig_def Let_def using flag_le by (intro soft_fork) auto

lemma op_CHECKMULTISIG_le [soft_fork]:
  "acc_le (op_CHECKMULTISIG cr ch f opc st) (op_CHECKMULTISIG cr ch g opc st)"
  unfolding op_CHECKMULTISIG_def Let_def by (intro soft_fork)

lemma op_locktime_le [soft_fork]:
  "acc_le (op_CHECKLOCKTIMEVERIFY ch f s) (op_CHECKLOCKTIMEVERIFY ch g s)"
  "acc_le (op_CHECKSEQUENCEVERIFY ch f s) (op_CHECKSEQUENCEVERIFY ch g s)"
  using flag_le read_num_le
  by (auto simp: acc_le_def op_CHECKLOCKTIMEVERIFY_def op_CHECKSEQUENCEVERIFY_def sbind_eq_Inr split: if_splits)

lemma op_stack_le [soft_fork]:
  "acc_le (op_NOPn f s) (op_NOPn g s)"
  "acc_le (op_PICK_ROLL f opc s) (op_PICK_ROLL g opc s)"
  "acc_le (op_UNARY f opc s) (op_UNARY g opc s)"
  "acc_le (op_BINARY f opc s) (op_BINARY g opc s)"
  "acc_le (op_WITHIN f s) (op_WITHIN g s)"
  "acc_le (op_CHECKSIG cr ch f opc c s) (op_CHECKSIG cr ch g opc c s)"
  "acc_le (op_CHECKDATASIG cr f opc s) (op_CHECKDATASIG cr g opc s)"
  "acc_le (op_SPLIT f s) (op_SPLIT g s)"
  "acc_le (op_NUM2BIN f s) (op_NUM2BIN g s)"
  "acc_le (push_value f opc v s) (push_value g opc v s)"
  unfolding op_NOPn_def op_PICK_ROLL_def op_UNARY_def op_BINARY_def op_WITHIN_def op_CHECKSIG_def
    op_CHECKDATASIG_def op_SPLIT_def op_NUM2BIN_def push_value_def Let_def
  using flag_le by (intro soft_fork; blast?)+

lemma eval_switch_le [soft_fork]:
  "acc_le (eval_switch cr ch f b opc pc st) (eval_switch cr ch g b opc pc st)"
  unfolding eval_switch_def by (intro soft_fork)

lemma eval_step_le [soft_fork]: "acc_le (eval_step cr ch f opc v pc st) (eval_step cr ch g opc v pc st)"
  unfolding eval_step_def eval_dispatch_def Let_def using flag_le by (intro soft_fork; blast?)

lemma eval_loop_le [soft_fork]: "acc_le (eval_loop cr ch f pc st) (eval_loop cr ch g pc st)"
proof (induction "length pc" arbitrary: pc st rule: less_induct)
  case less
  show ?case
  proof (cases "GetScriptOp pc")
    case None
    then show ?thesis by (simp add: eval_loop.simps [of cr ch _ pc])
  next
    case (Some r)
    obtain opc v pc' where r: "r = (opc, v, pc')" by (cases r)
    have "length pc' < length pc" using Some r GetScriptOp_shorter by blast
    then have IH: "acc_le (eval_loop cr ch f pc' s) (eval_loop cr ch g pc' s)" for s using less by blast
    show ?thesis using Some r IH eval_step_le [of cr ch opc v pc' st]
      by (auto simp: eval_loop.simps [of cr ch _ pc] acc_le_def split: sum.splits)
  qed
qed

lemma EvalScript_le: "acc_le (EvalScript cr ch f s script) (EvalScript cr ch g s script)"
  unfolding EvalScript_def by (intro soft_fork)

lemma check_cleanstack_le:
  assumes "has_flag f SCRIPT_VERIFY_CLEANSTACK \<Longrightarrow> has_flag f SCRIPT_VERIFY_P2SH"
    "check_cleanstack g s = Accepted"
  shows "check_cleanstack f s = Accepted"
  using assms flag_le by (auto simp: check_cleanstack_def split: if_splits)

lemma VerifyScript_le:
  assumes c: "has_flag f SCRIPT_VERIFY_CLEANSTACK \<Longrightarrow> has_flag f SCRIPT_VERIFY_P2SH"
    and a: "VerifyScript cr ch g script_sig script_pubkey = Accepted"
  shows "VerifyScript cr ch f script_sig script_pubkey = Accepted"
proof -
  obtain s1 s2 where e: "EvalScript cr ch g [] script_sig = Inr s1" "EvalScript cr ch g s1 script_pubkey = Inr s2"
      "eval_true s2"
    using a by (auto simp: VerifyScript_def split: if_splits sum.splits)
  have e': "EvalScript cr ch f [] script_sig = Inr s1" "EvalScript cr ch f s1 script_pubkey = Inr s2"
    using EvalScript_le e by (auto simp: acc_le_def)
  have p: "has_flag f SCRIPT_VERIFY_SIGPUSHONLY \<Longrightarrow> IsPushOnly script_sig"
    using a flag_le by (auto simp: VerifyScript_def split: if_splits)
  show ?thesis
  proof (cases "has_flag g SCRIPT_VERIFY_P2SH \<and> IsPayToScriptHash script_pubkey")
    case False
    then have "check_cleanstack g s2 = Accepted" using a e by (auto simp: VerifyScript_def split: if_splits)
    then show ?thesis using False e e' p flag_le check_cleanstack_le [OF c] by (auto simp: VerifyScript_def)
  next
    case True
    then have v: "verify_p2sh cr ch g script_sig s1 = Accepted" using a e by (auto simp: VerifyScript_def split: if_splits)
    then obtain k s s3 where s1: "s1 = k # s" "IsPushOnly script_sig" "EvalScript cr ch g s k = Inr s3" "eval_true s3"
        "check_cleanstack g s3 = Accepted"
      by (auto simp: verify_p2sh_def split: if_splits list.splits sum.splits)
    have "EvalScript cr ch f s k = Inr s3" using EvalScript_le s1(3) by (auto simp: acc_le_def)
    then have "verify_p2sh cr ch f script_sig s1 = Accepted"
      using s1 check_cleanstack_le [OF c s1(5)] by (simp add: verify_p2sh_def)
    moreover have "\<not> has_flag f SCRIPT_VERIFY_P2SH \<Longrightarrow> check_cleanstack f s2 = Accepted"
      using c by (auto simp: check_cleanstack_def)
    ultimately show ?thesis using True e e' p by (auto simp: VerifyScript_def)
  qed
qed

end

subsection \<open>Resource limits\<close>

text \<open>\<^verbatim>\<open>ensures P x\<close>: if the fallible computation \<^verbatim>\<open>x\<close> returns a value, the value satisfies \<^verbatim>\<open>P\<close>.\<close>

definition ensures :: "('a \<Rightarrow> bool) \<Rightarrow> 'e + 'a \<Rightarrow> bool" where
  "ensures P x \<longleftrightarrow> (\<forall>a. x = Inr a \<longrightarrow> P a)"

named_theorems ensure \<open>rules for ensures\<close>

lemma ensures_Inl [ensure, simp]: "ensures P (Inl e)" by (simp add: ensures_def)

lemma ensures_Inr [simp]: "ensures P (Inr a) = P a" by (simp add: ensures_def)

lemma ensures_InrI [ensure]: "P a \<Longrightarrow> ensures P (Inr a)" by simp

lemma ensures_if [ensure]: "(c \<Longrightarrow> ensures P x) \<Longrightarrow> (\<not> c \<Longrightarrow> ensures P y) \<Longrightarrow> ensures P (if c then x else y)"
  by simp

lemma ensures_sbind [ensure]: "(\<And>a. x = Inr a \<Longrightarrow> ensures P (f a)) \<Longrightarrow> ensures P (sbind x f)"
  by (auto simp: ensures_def sbind_eq_Inr)

lemma ensuresD: "ensures P x \<Longrightarrow> x = Inr a \<Longrightarrow> P a" by (simp add: ensures_def)

abbreviation "elem_ok x \<equiv> length x \<le> MAX_SCRIPT_ELEMENT_SIZE"
abbreviation "elems_ok \<equiv> list_all (\<lambda>x :: bytes. elem_ok x)"

text \<open>An operation on the value stack keeps every element within 520 bytes.\<close>

definition keeps :: "(bytes list \<Rightarrow> ScriptError + bytes list) \<Rightarrow> bool" where
  "keeps f \<longleftrightarrow> (\<forall>s. elems_ok s \<longrightarrow> length s \<le> MAX_STACK_SIZE \<longrightarrow> ensures elems_ok (f s))"

lemmas max_defs = MAX_SCRIPT_ELEMENT_SIZE_def MAX_STACK_SIZE_def MAX_OPS_PER_SCRIPT_def nDefaultMaxNumSize_def

lemma serialize_small: "\<bar>n\<bar> < 2 ^ 39 \<Longrightarrow> elem_ok (scriptnum_serialize n)"
  using serialize_length [of n 4] by (simp add: max_defs)

lemma vch_bool_ok [simp]: "elem_ok (vch_bool b)"
  by (simp add: vch_bool_def max_defs)

lemma read_num_bound: "read_num flags nDefaultMaxNumSize v = Inr n \<Longrightarrow> \<bar>n\<bar> < 2 ^ 31"
proof -
  assume "read_num flags nDefaultMaxNumSize v = Inr n"
  then have l: "length v \<le> 4" and n: "n = set_vch v"
    by (auto simp: read_num_def CScriptNum_def nDefaultMaxNumSize_def split: if_splits)
  have "sm_mag v < 128 * 256 ^ (length v - 1)" by (rule sm_mag_bound)
  also have "\<dots> \<le> 128 * 256 ^ 3" using l by (intro mult_le_mono2 power_increasing) simp_all
  finally show ?thesis using n l by (simp add: set_vch_val sm_val_def)
qed

lemma unary_bound: "\<bar>n\<bar> < 2 ^ 31 \<Longrightarrow> \<bar>unary_num opc n\<bar> < 2 ^ 39"
  by (auto simp: unary_num_def)

lemma binary_bound:
  assumes "\<bar>a\<bar> < 2 ^ 31" "\<bar>b\<bar> < 2 ^ 31" "binary_num opc a b = Inr n"
  shows "\<bar>n\<bar> < 2 ^ 39"
proof -
  have "\<bar>a sdiv b\<bar> < 2 ^ 31" using sdiv_int_range [of a b] assms(1) by auto
  moreover have "b \<noteq> 0 \<Longrightarrow> \<bar>a smod b\<bar> < 2 ^ 31" using smod_int_range [of b a] assms(2) by auto
  ultimately show ?thesis using assms by (auto simp: binary_num_def split: if_splits)
qed

lemma of_bool_bound: "\<bar>of_bool b :: int\<bar> < 2 ^ 39" by simp

named_theorems keep \<open>operations that keep the elements small\<close>

lemma keepsI: "(\<And>s. elems_ok s \<Longrightarrow> length s \<le> MAX_STACK_SIZE \<Longrightarrow> ensures elems_ok (f s)) \<Longrightarrow> keeps f"
  by (simp add: keeps_def)

lemmas shuffle_elims = op_VERIFY.elims op_2DROP.elims op_2DUP.elims op_3DUP.elims op_2OVER.elims
  op_2ROT.elims op_2SWAP.elims op_IFDUP.elims op_DROP.elims op_DUP.elims
  op_NIP.elims op_OVER.elims op_ROT.elims op_SWAP.elims op_TUCK.elims

lemma keeps_shuffles [keep]:
  "keeps op_VERIFY" "keeps op_2DROP" "keeps op_2DUP" "keeps op_3DUP" "keeps op_2OVER"
  "keeps op_2ROT" "keeps op_2SWAP" "keeps op_IFDUP" "keeps op_DROP" "keeps op_DUP"
  "keeps op_NIP" "keeps op_OVER" "keeps op_ROT" "keeps op_SWAP" "keeps op_TUCK"
  unfolding keeps_def ensures_def by (auto elim!: shuffle_elims split: if_splits)

lemma keeps_sizes [keep]: "keeps op_DEPTH" "keeps op_SIZE"
proof -
  show "keeps op_DEPTH" by (rule keepsI) (auto simp: op_DEPTH_def max_defs intro!: serialize_small [simplified max_defs])
  show "keeps op_SIZE"
    unfolding keeps_def ensures_def
    by (auto elim!: op_SIZE.elims simp: max_defs intro!: serialize_small [simplified max_defs])
qed

lemma keeps_N [keep]: "keeps (op_N opc)"
proof (rule keepsI)
  have "uint opc < 256" "0 \<le> uint opc" using uint_lt2p [of opc] by simp_all
  moreover have "(256 :: int) < 2 ^ 39" by simp
  ultimately have "\<bar>uint opc - 80\<bar> < 2 ^ 39" by linarith
  from serialize_small [OF this] show "elems_ok s \<Longrightarrow> ensures elems_ok (op_N opc s)" for s by (simp add: op_N_def)
qed

lemma keeps_logic [keep]: "keeps op_RETURN" "keeps (op_EQUAL opc)" "keeps (op_BITWISE opc)" "keeps op_CAT"
  unfolding keeps_def ensures_def
  by (auto simp: op_RETURN_def Let_def elim!: op_EQUAL.elims op_BITWISE.elims op_CAT.elims split: if_splits)

lemma keeps_locktime [keep]:
  "keeps (op_CHECKLOCKTIMEVERIFY ch flags)" "keeps (op_CHECKSEQUENCEVERIFY ch flags)" "keeps (op_NOPn flags)"
  unfolding keeps_def op_CHECKLOCKTIMEVERIFY_def op_CHECKSEQUENCEVERIFY_def op_NOPn_def
  by (auto intro!: ensure)

lemma keeps_PICK_ROLL [keep]: "keeps (op_PICK_ROLL flags opc)"
proof (rule keepsI)
  fix s assume s: "elems_ok s"
  have "elems_ok (tl s)" using s by (cases s) simp_all
  then have "elem_ok (tl s ! nat n)" "elems_ok (take (nat n) (tl s) @ drop (Suc (nat n)) (tl s))"
    if "0 \<le> n" "n < int (length (tl s))" for n
    using that by (auto simp: list_all_iff dest: in_set_takeD in_set_dropD)
  then show "ensures elems_ok (op_PICK_ROLL flags opc s)"
    using \<open>elems_ok (tl s)\<close> unfolding op_PICK_ROLL_def Let_def by (intro ensure) auto
qed

lemma unary_ok: "read_num flags nDefaultMaxNumSize v = Inr n \<Longrightarrow> elem_ok (scriptnum_serialize (unary_num opc n))"
  by (rule serialize_small [OF unary_bound [OF read_num_bound]])

lemma binary_ok:
  assumes "read_num flags nDefaultMaxNumSize v = Inr a" "read_num flags nDefaultMaxNumSize w = Inr b"
    "binary_num opc a b = Inr n"
  shows "elem_ok (scriptnum_serialize n)"
  by (rule serialize_small [OF binary_bound [OF read_num_bound read_num_bound assms(3)]]) (rule assms)+

lemma keeps_numeric [keep]: "keeps (op_UNARY flags opc)" "keeps (op_BINARY flags opc)" "keeps (op_WITHIN flags)"
  unfolding keeps_def op_UNARY_def op_BINARY_def op_WITHIN_def
  by (auto intro!: ensure simp: Let_def unary_ok binary_ok split: list.split)

lemma keeps_HASH [keep]: "crypto_ok cr \<Longrightarrow> keeps (op_HASH cr opc)"
  unfolding keeps_def op_HASH_def
  by (auto simp: crypto_ok_def hash160_def hash256_def Let_def max_defs split: list.split)

lemma keeps_checksig [keep]: "keeps (op_CHECKSIG cr ch flags opc c)" "keeps (op_CHECKDATASIG cr flags opc)"
  unfolding keeps_def op_CHECKSIG_def op_CHECKDATASIG_def
  by (auto intro!: ensure simp: Let_def split: list.split)

lemma length_pad_num: "length v < sz \<Longrightarrow> length (pad_num v sz) = sz"
  by (auto simp: pad_num_def Let_def length_butlast)

lemma keeps_splice [keep]: "keeps (op_SPLIT flags)" "keeps (op_NUM2BIN flags)" "keeps op_BIN2NUM"
proof -
  show "keeps (op_SPLIT flags)"
    unfolding keeps_def op_SPLIT_def by (auto intro!: ensure simp: Let_def split: list.split)
  show "keeps (op_NUM2BIN flags)"
    unfolding keeps_def op_NUM2BIN_def
    by (auto intro!: ensure simp: Let_def length_pad_num split: list.split)
  show "keeps op_BIN2NUM"
    unfolding keeps_def ensures_def
    by (auto elim!: op_BIN2NUM.elims simp: Let_def IsMinimallyEncoded_def max_defs split: if_splits)
qed

lemma keeps_push [keep]: "elem_ok v \<Longrightarrow> keeps (push_value flags opc v)"
  unfolding keeps_def push_value_def by simp

lemma pop_arguments_drop: "pop_arguments b i k s = Inr s' \<Longrightarrow> s' = drop i s"
  by (induction b i k s rule: pop_arguments.induct) (auto simp: drop_Suc split: if_splits)

lemma keeps_multisig: "keeps (check_multisig cr ch flags opc c n m)"
proof (rule keepsI)
  fix s :: "bytes list" assume s: "elems_ok s"
  have f: "ensures elems_ok (finish_multisig flags opc b t)" if "elems_ok t" for b t
    using that unfolding finish_multisig_def by (auto intro!: ensure split: list.split)
  have "elems_ok (drop i s)" for i using s by (auto simp: list_all_iff dest: in_set_dropD)
  then have "elems_ok t" if "pop_arguments b i k s = Inr t" for b i k t
    using pop_arguments_drop [OF that] by simp
  then show "ensures elems_ok (check_multisig cr ch flags opc c n m s)"
    unfolding check_multisig_def Let_def by (intro ensure f) blast
qed

subsubsection \<open>The state invariant\<close>

text \<open>
  \<^verbatim>\<open>eval_inv k st\<close>: elements within 520 bytes, at most 201 counted operations, and a condition stack that
  stands for a stack of booleans not deeper than the operations counted so far, less \<^verbatim>\<open>k\<close>.
\<close>

definition eval_inv :: "nat \<Rightarrow> eval_state \<Rightarrow> bool" where
  "eval_inv k st \<longleftrightarrow> elems_ok (stack st) \<and> elems_ok (altstack st) \<and> nOpCount st \<le> MAX_OPS_PER_SCRIPT
     \<and> (\<exists>v. cs_rel v (vfExec st) \<and> length v + k \<le> nOpCount st)"

definition sizes_ok :: "eval_state \<Rightarrow> bool" where
  "sizes_ok st \<longleftrightarrow> length (stack st) + length (altstack st) \<le> MAX_STACK_SIZE"

lemma eval_inv_weaken [simp]: "eval_inv (Suc 0) st \<Longrightarrow> eval_inv 0 st"
  by (auto simp: eval_inv_def)

lemma inv_on_stack [ensure]: "keeps f \<Longrightarrow> eval_inv 0 st \<Longrightarrow> sizes_ok st \<Longrightarrow> ensures (eval_inv 0) (on_stack f st)"
  unfolding on_stack_def keeps_def eval_inv_def sizes_ok_def
  by (intro ensure) (auto dest: ensuresD)

lemma inv_stack_ops [ensure]:
  assumes "eval_inv 0 st"
  shows "ensures (eval_inv 0) (op_TOALTSTACK st)" "ensures (eval_inv 0) (op_FROMALTSTACK st)"
    "ensures (eval_inv 0) (op_CODESEPARATOR pc st)"
  using assms unfolding op_TOALTSTACK_def op_FROMALTSTACK_def op_CODESEPARATOR_def eval_inv_def
  by (auto split: list.split)

lemma inv_multisig [ensure]:
  assumes "eval_inv 0 st" "sizes_ok st"
  shows "ensures (eval_inv 0) (op_CHECKMULTISIG cr ch flags opc st)"
proof -
  have k: "elems_ok s" if "check_multisig cr ch flags opc c n m (stack st) = Inr s" for c n m s
    using keeps_multisig [of cr ch flags opc c n m] assms that
    by (auto simp: keeps_def eval_inv_def sizes_ok_def dest: ensuresD)
  obtain v where "cs_rel v (vfExec st)" "length v \<le> nOpCount st" using assms by (auto simp: eval_inv_def)
  then have "eval_inv 0 (st\<lparr>stack := s, nOpCount := nOpCount st + n\<rparr>)"
    if "elems_ok s" "nOpCount st + n \<le> MAX_OPS_PER_SCRIPT" for s n
    using assms that by (auto simp: eval_inv_def intro!: exI [of _ v])
  then show ?thesis
    unfolding op_CHECKMULTISIG_def Let_def by (intro ensure) (simp_all add: k)
qed

lemma inv_IF [ensure]:
  assumes "eval_inv 1 st"
  shows "ensures (eval_inv 0) (op_IF b opc st)"
proof -
  obtain v where v: "cs_rel v (vfExec st)" "length v + 1 \<le> nOpCount st" using assms by (auto simp: eval_inv_def)
  then have "length v < 2 ^ 32 - 1" using assms by (simp add: eval_inv_def max_defs)
  then have "\<exists>w. cs_rel w (cs_push_back (vfExec st) x) \<and> length w \<le> nOpCount st" for x
    using v cstack.push_R [of v "vfExec st" x] by (intro exI [of _ "x # v"]) auto
  then show ?thesis using assms unfolding op_IF_def eval_inv_def by (auto simp: Let_def split: list.split)
qed

lemma inv_ELSE_ENDIF [ensure]:
  assumes "eval_inv 1 st"
  shows "ensures (eval_inv 0) (op_ELSE st)" "ensures (eval_inv 0) (op_ENDIF st)"
proof -
  obtain v where v: "cs_rel v (vfExec st)" "length v + 1 \<le> nOpCount st" using assms by (auto simp: eval_inv_def)
  have "\<exists>w. cs_rel w (cs_toggle_top (vfExec st)) \<and> length w \<le> nOpCount st"
      "\<exists>w. cs_rel w (cs_pop_back (vfExec st)) \<and> length w \<le> nOpCount st" if "\<not> cs_empty (vfExec st)"
  proof -
    have "v \<noteq> []" using that cstack.empty_R [OF v(1)] by blast
    then obtain b w where w: "v = b # w" by (cases v) simp_all
    have "cs_rel ((\<not> b) # w) (cs_toggle_top (vfExec st))" "cs_rel w (cs_pop_back (vfExec st))"
      using v(1) unfolding w by (rule cstack.toggle_R, rule cstack.pop_R)
    moreover have "length ((\<not> b) # w) \<le> nOpCount st" "length w \<le> nOpCount st" using v(2) w by auto
    ultimately show "\<exists>w. cs_rel w (cs_toggle_top (vfExec st)) \<and> length w \<le> nOpCount st"
      "\<exists>w. cs_rel w (cs_pop_back (vfExec st)) \<and> length w \<le> nOpCount st" by blast+
  qed
  then show "ensures (eval_inv 0) (op_ELSE st)" "ensures (eval_inv 0) (op_ENDIF st)"
    using assms unfolding op_ELSE_def op_ENDIF_def eval_inv_def by auto
qed

lemma inv_switch:
  assumes "crypto_ok cr" "opc > OP_16 \<Longrightarrow> eval_inv 1 st" "eval_inv 0 st" "sizes_ok st"
  shows "ensures (eval_inv 0) (eval_switch cr ch flags b opc pc st)"
  unfolding eval_switch_def
  by (intro ensure keep assms) (auto simp: assms)

lemma inv_dispatch:
  assumes "crypto_ok cr" "opc > OP_16 \<Longrightarrow> eval_inv 1 st" "eval_inv 0 st" "sizes_ok st" "elem_ok v"
  shows "ensures (eval_inv 0) (eval_dispatch cr ch flags opc v pc st)"
  unfolding eval_dispatch_def Let_def
  by (intro ensure keep inv_switch assms) (simp_all add: assms)

lemma inv_step:
  assumes "crypto_ok cr" "eval_inv 0 st" "sizes_ok st" "eval_step cr ch flags opc v pc st = Inr st'"
  shows "eval_inv 0 st' \<and> sizes_ok st'"
proof -
  let ?n = "if opc > OP_16 then nOpCount st + 1 else nOpCount st"
  let ?st = "st\<lparr>nOpCount := ?n\<rparr>"
  have e: "elem_ok v" "opc > OP_16 \<longrightarrow> ?n \<le> MAX_OPS_PER_SCRIPT"
      "sbind (eval_dispatch cr ch flags opc v pc ?st) check_stack_size = Inr st'"
    using assms(4) by (auto simp: eval_step_def Let_def not_less split: if_splits)
  then obtain st1 where d: "eval_dispatch cr ch flags opc v pc ?st = Inr st1" "check_stack_size st1 = Inr st'"
    by (auto simp: sbind_eq_Inr)
  have "opc > OP_16 \<Longrightarrow> eval_inv 1 ?st" "eval_inv 0 ?st" "sizes_ok ?st"
    using assms(2,3) e(2) by (auto simp: eval_inv_def sizes_ok_def)
  from ensuresD [OF inv_dispatch [OF assms(1) this e(1)] d(1)] d(2) show ?thesis
    by (auto simp: check_stack_size_def sizes_ok_def split: if_splits)
qed

text \<open>The interpreter as a transition system: the program counter and state at the top of the loop.\<close>

inductive eval_reach ::
  "crypto \<Rightarrow> BaseSignatureChecker \<Rightarrow> u32 \<Rightarrow> bytes list \<Rightarrow> CScript \<Rightarrow> bytes \<Rightarrow> eval_state \<Rightarrow> bool"
  for cr ch flags s script where
  start: "eval_reach cr ch flags s script script (eval_init s script)"
| step: "eval_reach cr ch flags s script pc st \<Longrightarrow> GetScriptOp pc = Some (opc, v, pc') \<Longrightarrow>
    eval_step cr ch flags opc v pc' st = Inr st' \<Longrightarrow> eval_reach cr ch flags s script pc' st'"

inductive_cases eval_reachE: "eval_reach cr ch flags s script pc st"

lemma eval_init_inv: "elems_ok s \<Longrightarrow> length s \<le> MAX_STACK_SIZE \<Longrightarrow>
  eval_inv 0 (eval_init s script) \<and> sizes_ok (eval_init s script)"
  using cstack.new_R by (auto simp: eval_inv_def sizes_ok_def eval_init_def)

lemma reach_inv:
  assumes "eval_reach cr ch flags s script pc st" "crypto_ok cr" "elems_ok s" "length s \<le> MAX_STACK_SIZE"
  shows "eval_inv 0 st \<and> sizes_ok st"
  using assms(1) by (induction rule: eval_reach.induct) (use eval_init_inv inv_step assms in blast)+

lemma eval_loop_reach:
  "eval_reach cr ch flags s script pc st \<Longrightarrow> eval_loop cr ch flags pc st = Inr st' \<Longrightarrow>
   eval_reach cr ch flags s script [] st'"
proof (induction "length pc" arbitrary: pc st rule: less_induct)
  case less
  show ?case
  proof (cases "pc = []")
    case True
    then show ?thesis using less.prems by (simp add: eval_loop.simps [of cr ch flags "[]"])
  next
    case False
    with less.prems(2) obtain opc v pc' st1 where *: "GetScriptOp pc = Some (opc, v, pc')"
        "eval_step cr ch flags opc v pc' st = Inr st1" "eval_loop cr ch flags pc' st1 = Inr st'"
      by (auto simp: eval_loop.simps [of cr ch flags pc] split: option.splits sum.splits)
    show ?thesis
      by (rule less.hyps [OF GetScriptOp_shorter [OF *(1)] eval_reach.step [OF less.prems(1) *(1,2)] *(3)])
  qed
qed

lemma EvalScript_reach:
  assumes "EvalScript cr ch flags s script = Inr s'"
  obtains st where "eval_reach cr ch flags s script [] st" "s' = stack st" "cs_empty (vfExec st)"
proof -
  obtain st where st: "eval_loop cr ch flags script (eval_init s script) = Inr st" "s' = stack st" "cs_empty (vfExec st)"
    using assms by (auto simp: EvalScript_def sbind_eq_Inr split: if_splits)
  show ?thesis by (rule that [OF eval_loop_reach [OF eval_reach.start st(1)] st(2,3)])
qed

subsection \<open>Multi-signature matching\<close>

text \<open>
  The greedy loop accepts exactly when the signatures match some subsequence of the keys in order.
\<close>

definition multisig_ok :: "('a \<Rightarrow> 'b \<Rightarrow> bool) \<Rightarrow> 'a list \<Rightarrow> 'b list \<Rightarrow> bool" where
  "multisig_ok P sigs keys \<longleftrightarrow> (\<exists>ks. subseq ks keys \<and> list_all2 P sigs ks)"

lemma multisig_ok_Nil [simp]: "multisig_ok P [] keys" "multisig_ok P (s # sigs) [] = False"
  by (auto simp: multisig_ok_def list_all2_Cons1 list_emb_Nil2)

lemma multisig_ok_take: "P s k \<Longrightarrow> multisig_ok P (s # sigs) (k # keys) \<longleftrightarrow> multisig_ok P sigs keys"
proof
  assume "multisig_ok P (s # sigs) (k # keys)"
  then obtain k' ks where "subseq (k' # ks) (k # keys)" "list_all2 P sigs ks"
    by (auto simp: multisig_ok_def list_all2_Cons1)
  then show "multisig_ok P sigs keys" by (auto simp: multisig_ok_def split: if_splits dest: subseq_Cons')
next
  assume "P s k" "multisig_ok P sigs keys"
  then show "multisig_ok P (s # sigs) (k # keys)"
    unfolding multisig_ok_def by (metis list_all2_Cons subseq_Cons2)
qed

lemma multisig_ok_skip: "\<not> P s k \<Longrightarrow> multisig_ok P (s # sigs) (k # keys) \<longleftrightarrow> multisig_ok P (s # sigs) keys"
  unfolding multisig_ok_def by (auto simp: list_all2_Cons1 dest: subseq_Cons2_neq intro: list_emb_Cons)

lemma multisig_ok_length: "multisig_ok P sigs keys \<Longrightarrow> length sigs \<le> length keys"
  by (auto simp: multisig_ok_def dest!: list_all2_lengthD list_emb_length)

lemma match_signatures_correct:
  assumes "\<And>sg k. sg \<in> set sigs \<Longrightarrow> k \<in> set keys \<Longrightarrow> check_encodings cr flags sg k = Inr ()"
  shows "match_signatures cr ch flags c sigs keys = Inr (multisig_ok (\<lambda>sg k. CheckSig ch sg k c) sigs keys)"
  using assms
proof (induction keys arbitrary: sigs)
  case Nil
  then show ?case by (cases sigs) simp_all
next
  case (Cons k keys)
  show ?case
  proof (cases sigs)
    case (Cons sg sgs)
    let ?P = "\<lambda>sg k. CheckSig ch sg k c"
    let ?r = "if ?P sg k then sgs else sg # sgs"
    have "match_signatures cr ch flags c ?r keys = Inr (multisig_ok ?P ?r keys)"
      by (rule Cons.IH) (use Cons.prems Cons in \<open>auto split: if_splits\<close>)
    moreover have "multisig_ok ?P sigs (k # keys) = multisig_ok ?P ?r keys"
      using multisig_ok_take [of ?P sg k] multisig_ok_skip [of ?P sg k] Cons by simp
    moreover have "check_encodings cr flags sg k = Inr ()" using Cons.prems Cons by simp
    ultimately show ?thesis using multisig_ok_length [of ?P ?r keys] Cons by (auto simp: Let_def)
  qed simp
qed

subsection \<open>Flag sets in use\<close>

definition MANDATORY_SCRIPT_VERIFY_FLAGS :: u32 where
  "MANDATORY_SCRIPT_VERIFY_FLAGS = SCRIPT_VERIFY_P2SH"

definition STANDARD_SCRIPT_VERIFY_FLAGS :: u32 where
  "STANDARD_SCRIPT_VERIFY_FLAGS = MANDATORY_SCRIPT_VERIFY_FLAGS OR SCRIPT_VERIFY_DERSIG
     OR SCRIPT_VERIFY_STRICTENC OR SCRIPT_VERIFY_MINIMALDATA OR SCRIPT_VERIFY_NULLDUMMY
     OR SCRIPT_VERIFY_DISCOURAGE_UPGRADABLE_NOPS OR SCRIPT_VERIFY_CLEANSTACK OR SCRIPT_VERIFY_NULLFAIL
     OR SCRIPT_VERIFY_CHECKLOCKTIMEVERIFY OR SCRIPT_VERIFY_CHECKSEQUENCEVERIFY OR SCRIPT_VERIFY_LOW_S
     OR SCRIPT_VERIFY_CONST_SCRIPTCODE"

definition GetBlockScriptFlags :: "CBlockIndex \<Rightarrow> Params \<Rightarrow> u32" where
  "GetBlockScriptFlags pindex consensusparams =
    (let flags = 0;
         flags = flags OR SCRIPT_VERIFY_P2SH;
         flags = (if DeploymentActiveAt pindex consensusparams DEPLOYMENT_DERSIG
                  then flags OR SCRIPT_VERIFY_DERSIG else flags);
         flags = (if DeploymentActiveAt pindex consensusparams DEPLOYMENT_CLTV
                  then flags OR SCRIPT_VERIFY_CHECKLOCKTIMEVERIFY else flags);
         flags = (if DeploymentActiveAt pindex consensusparams DEPLOYMENT_CSV
                  then flags OR SCRIPT_VERIFY_CHECKSEQUENCEVERIFY else flags);
         flags = (if DeploymentActiveAt pindex consensusparams DEPLOYMENT_BIP147
                  then flags OR SCRIPT_VERIFY_NULLDUMMY else flags)
     in flags)"

lemmas flag_defs = SCRIPT_VERIFY_P2SH_def SCRIPT_VERIFY_STRICTENC_def SCRIPT_VERIFY_DERSIG_def
  SCRIPT_VERIFY_LOW_S_def SCRIPT_VERIFY_NULLDUMMY_def SCRIPT_VERIFY_SIGPUSHONLY_def
  SCRIPT_VERIFY_MINIMALDATA_def SCRIPT_VERIFY_DISCOURAGE_UPGRADABLE_NOPS_def
  SCRIPT_VERIFY_CLEANSTACK_def SCRIPT_VERIFY_CHECKLOCKTIMEVERIFY_def
  SCRIPT_VERIFY_CHECKSEQUENCEVERIFY_def SCRIPT_VERIFY_NULLFAIL_def SCRIPT_VERIFY_CONST_SCRIPTCODE_def

lemma standard_flags_value: "STANDARD_SCRIPT_VERIFY_FLAGS = 0x147DF"
  by (simp add: STANDARD_SCRIPT_VERIFY_FLAGS_def MANDATORY_SCRIPT_VERIFY_FLAGS_def flag_defs)

interpretation mandatory: flag_order MANDATORY_SCRIPT_VERIFY_FLAGS STANDARD_SCRIPT_VERIFY_FLAGS
  by unfold_locales (simp add: flags_le_def standard_flags_value MANDATORY_SCRIPT_VERIFY_FLAGS_def flag_defs)

interpretation block_flags: flag_order "GetBlockScriptFlags pindex params" STANDARD_SCRIPT_VERIFY_FLAGS
  for pindex params
  by unfold_locales (simp add: flags_le_def standard_flags_value GetBlockScriptFlags_def flag_defs)

lemma block_flags_clean:
  "has_flag (GetBlockScriptFlags pindex params) SCRIPT_VERIFY_CLEANSTACK \<Longrightarrow>
   has_flag (GetBlockScriptFlags pindex params) SCRIPT_VERIFY_P2SH"
  by (simp add: has_flag_def GetBlockScriptFlags_def flag_defs split: if_splits)

subsection \<open>Single steps\<close>

lemma eval_loop_Nil [simp]: "eval_loop cr ch flags [] st = Inr st"
  by (simp add: eval_loop.simps)

lemma eval_loop_op:
  "GetScriptOp pc = Some (opc, v, pc') \<Longrightarrow>
   eval_loop cr ch flags pc st = sbind (eval_step cr ch flags opc v pc' st) (eval_loop cr ch flags pc')"
  by (subst eval_loop.simps) (auto simp: sbind_def split: sum.splits)

lemma serialize_one [simp]: "scriptnum_serialize 1 = [1]"
proof -
  have "le_digits 1 = [1]" by (subst le_digits.simps) simp
  then show ?thesis by (simp add: scriptnum_serialize_def)
qed

lemma P2SH_empty_stack:
  assumes "IsPayToScriptHash script"
  shows "\<exists>e. EvalScript cr ch flags [] script = Inl e"
proof -
  have "script \<noteq> []" "script ! 0 = OP_HASH160" using assms by (auto simp: IsPayToScriptHash_def)
  then obtain rest where r: "script = OP_HASH160 # rest" by (cases script) auto
  have "GetScriptOp script = Some (OP_HASH160, [], rest)" by (simp add: r)
  moreover have "eval_step cr ch flags OP_HASH160 [] rest (eval_init [] script) = bad_stack"
    by (simp add: eval_step_def max_defs eval_init_def is_disabled_def eval_dispatch_def cs_all_true_def
        cs_new_def eval_switch_def op_HASH_def on_stack_def)
  ultimately show ?thesis by (simp add: EvalScript_def eval_loop_op)
qed

lemma pop_arguments_sigs:
  "pop_arguments b (length sigs) 0 (sigs @ s)
    = (if b \<and> (\<exists>sg\<in>set sigs. sg \<noteq> []) then Inl SCRIPT_ERR_SIG_NULLFAIL else Inr s)"
  by (induction sigs) auto

lemma pop_arguments_all:
  "pop_arguments b (length pre + length sigs) (length pre) (pre @ sigs @ s)
    = (if b \<and> (\<exists>sg\<in>set sigs. sg \<noteq> []) then Inl SCRIPT_ERR_SIG_NULLFAIL else Inr s)"
  by (induction pre) (simp_all add: pop_arguments_sigs)

subsection \<open>Sequences of conditionals\<close>

text \<open>\<^verbatim>\<open>OP_IF\<close>, \<^verbatim>\<open>OP_ELSE\<close> and \<^verbatim>\<open>OP_ENDIF\<close> seen from the condition stack, and the same on a stack of booleans.\<close>

datatype cond_op = PushCond bool | ToggleCond | PopCond

fun run_conds :: "cond_op list \<Rightarrow> ConditionStack \<Rightarrow> ConditionStack option" where
  "run_conds [] c = Some c"
| "run_conds (PushCond b # ops) c = run_conds ops (cs_push_back c b)"
| "run_conds (ToggleCond # ops) c = (if cs_empty c then None else run_conds ops (cs_toggle_top c))"
| "run_conds (PopCond # ops) c = (if cs_empty c then None else run_conds ops (cs_pop_back c))"

fun run_bools :: "cond_op list \<Rightarrow> bool list \<Rightarrow> bool list option" where
  "run_bools [] v = Some v"
| "run_bools (PushCond b # ops) v = run_bools ops (b # v)"
| "run_bools (ToggleCond # ops) v = (case v of [] \<Rightarrow> None | b # v \<Rightarrow> run_bools ops ((\<not> b) # v))"
| "run_bools (PopCond # ops) v = (case v of [] \<Rightarrow> None | b # v \<Rightarrow> run_bools ops v)"

lemma run_conds_refines:
  "cs_rel v c \<Longrightarrow> length v + length ops < 2 ^ 32 \<Longrightarrow> rel_option cs_rel (run_bools ops v) (run_conds ops c)"
proof (induction ops v arbitrary: c rule: run_bools.induct)
  case (2 b ops v)
  then have "cs_rel (b # v) (cs_push_back c b)" by (intro cstack.push_R) simp_all
  then show ?case using 2 by simp
next
  case (3 ops v)
  then show ?case using cstack.empty_R [of v c] cstack.toggle_R by (cases v) auto
next
  case (4 ops v)
  then show ?case using cstack.empty_R [of v c] cstack.pop_R by (cases v) auto
qed simp

lemma cs_observations:
  "rel_option cs_rel x y \<Longrightarrow>
   map_option (\<lambda>c. (cs_empty c, cs_all_true c)) y = map_option (\<lambda>v. (v = [], list_all (\<lambda>b. b) v)) x"
  by (cases x; cases y) (auto simp: cstack.empty_R cstack.all_true_R)

subsection \<open>Properties\<close>

text \<open>
  C7.  The two-word \<^verbatim>\<open>ConditionStack\<close> implements a stack of booleans: after any sequence of fewer than
  2^32 pushes, toggles and pops, the same sequences fail (on an empty stack) and the same answers
  are given to "is it empty" and "are all values true".
\<close>

theorem condition_stack_refines_bool_stack:
  assumes "length ops < 2 ^ 32"
  shows "map_option (\<lambda>c. (cs_empty c, cs_all_true c)) (run_conds ops cs_new)
    = map_option (\<lambda>v. (v = [], list_all (\<lambda>b. b) v)) (run_bools ops [])"
  by (rule cs_observations [OF run_conds_refines [OF cstack.new_R]]) (use assms in simp)

theorem condition_stack_refines_bool_stack_witness:
  "map_option (\<lambda>c. (cs_empty c, cs_all_true c))
     (run_conds [PushCond True, PushCond False, ToggleCond, PopCond, PopCond] cs_new) = Some (True, True)
   \<and> map_option (\<lambda>c. (cs_empty c, cs_all_true c))
     (run_conds [PushCond False, PushCond True, PopCond] cs_new) = Some (False, False)"
  using condition_stack_refines_bool_stack [of "[PushCond True, PushCond False, ToggleCond, PopCond, PopCond]"]
    condition_stack_refines_bool_stack [of "[PushCond False, PushCond True, PopCond]"]
  by (simp del: run_conds.simps)

text \<open>Concrete parameters for the examples below.\<close>

definition demo_crypto :: crypto where
  "demo_crypto = \<lparr>ripemd160 = \<lambda>_. replicate 20 7, sha1 = \<lambda>_. replicate 20 8, sha256 = \<lambda>_. replicate 32 9,
     CheckLowS = \<lambda>_. True, PubKey_IsValid = \<lambda>_. True, PubKey_Verify = \<lambda>k h sg. sg = k\<rparr>"

definition demo_checker :: BaseSignatureChecker where
  "demo_checker = \<lparr>CheckSig = \<lambda>sg k c. sg = k, CheckLockTime = \<lambda>_. True, CheckSequence = \<lambda>_. True\<rparr>"

lemma demo_crypto_ok: "crypto_ok demo_crypto"
  by (simp add: crypto_ok_def demo_crypto_def)

lemmas eval_defs = eval_step_def max_defs eval_init_def is_disabled_def eval_dispatch_def cs_all_true_def
  cs_new_def eval_switch_def on_stack_def check_stack_size_def Let_def

text \<open>
  C4.  Resource limits hold in every state the interpreter reaches: at most 1000 values on the two
  stacks together, no value above 520 bytes, at most 201 counted operations, and conditionals nested
  no deeper than that.  The hash functions are only assumed to have their documented output sizes.
\<close>

theorem EvalScript_resource_limits:
  assumes "eval_reach cr ch flags s script pc st" "crypto_ok cr"
    "\<forall>x\<in>set s. length x \<le> 520" "length s \<le> 1000"
  shows "length (stack st) + length (altstack st) \<le> 1000
    \<and> (\<forall>x\<in>set (stack st) \<union> set (altstack st). length x \<le> 520)
    \<and> nOpCount st \<le> 201 \<and> unat (m_stack_size (vfExec st)) \<le> nOpCount st"
proof -
  have "elems_ok s" "length s \<le> MAX_STACK_SIZE" using assms(3,4) by (simp_all add: list_all_iff max_defs)
  from reach_inv [OF assms(1,2) this] show ?thesis
    by (auto simp: eval_inv_def sizes_ok_def max_defs list_all_iff cs_rel_def)
qed

theorem EvalScript_resource_limits_witness:
  "\<exists>st. eval_reach demo_crypto demo_checker 0 [[1]] [OP_HASH160] [] st
     \<and> (\<forall>x\<in>set (stack st) \<union> set (altstack st). length x \<le> 520)"
proof -
  let ?st = "\<lparr>stack = [replicate 20 7], altstack = [], vfExec = cs_new, pbegincodehash = [OP_HASH160], nOpCount = 1\<rparr>"
  have s: "eval_step demo_crypto demo_checker 0 OP_HASH160 [] [] (eval_init [[1]] [OP_HASH160]) = Inr ?st"
    by (simp add: eval_defs op_HASH_def hash160_def demo_crypto_def)
  have "GetScriptOp [OP_HASH160] = Some (OP_HASH160, [], [])" by simp
  then have r: "eval_reach demo_crypto demo_checker 0 [[1]] [OP_HASH160] [] ?st"
    using eval_reach.step [OF eval_reach.start _ s] by simp
  show ?thesis using EvalScript_resource_limits [OF r demo_crypto_ok] r by (intro exI [of _ ?st]) simp
qed

text \<open>
  C3.  Verification flags are soft forks: what \<^verbatim>\<open>VerifyScript\<close> accepts under a set of flags it accepts under
  every subset, provided the subset does not ask for a clean stack without P2SH (which the code
  refuses with an \<^verbatim>\<open>assert\<close>).  Under the same proviso no \<^verbatim>\<open>assert\<close> of \<^verbatim>\<open>VerifyScript\<close> is ever reached.
\<close>

theorem VerifyScript_soft_fork:
  assumes "has_flag f SCRIPT_VERIFY_CLEANSTACK \<Longrightarrow> has_flag f SCRIPT_VERIFY_P2SH"
  shows "(flags_le f g \<and> VerifyScript cr ch g script_sig script_pubkey = Accepted \<longrightarrow>
      VerifyScript cr ch f script_sig script_pubkey = Accepted)
    \<and> VerifyScript cr ch f script_sig script_pubkey \<noteq> AssertionFailed"
proof -
  have "check_cleanstack f s \<noteq> AssertionFailed" for s using assms by (auto simp: check_cleanstack_def)
  moreover have "EvalScript cr ch f [] script_pubkey \<noteq> Inr s" if "IsPayToScriptHash script_pubkey" for s
    using P2SH_empty_stack [OF that, of cr ch f] by auto
  ultimately have "VerifyScript cr ch f script_sig script_pubkey \<noteq> AssertionFailed"
    by (auto simp: VerifyScript_def verify_p2sh_def split: sum.split list.split)
  then show ?thesis using flag_order.VerifyScript_le [OF flag_order.intro] assms by blast
qed

theorem VerifyScript_soft_fork_witness:
  "VerifyScript demo_crypto demo_checker 0 [OP_1] [OP_1] = Accepted"
proof -
  have "VerifyScript demo_crypto demo_checker SCRIPT_VERIFY_P2SH [OP_1] [OP_1] = Accepted"
    by (simp add: VerifyScript_def EvalScript_def eval_loop_op eval_defs MAX_SCRIPT_SIZE_def op_N_def
        cs_empty_def eval_true_def IsPayToScriptHash_def check_cleanstack_def flag_defs has_flag_def)
  then show ?thesis using VerifyScript_soft_fork [of 0 SCRIPT_VERIFY_P2SH] by (simp add: has_flag_def flags_le_def)
qed

text \<open>
  C6.  Relay policy is at least as strict as consensus: an input accepted under the standard flags is
  accepted under the flags of any block, whichever deployments are active at its height.
\<close>

theorem standard_scripts_valid_in_blocks:
  assumes "VerifyScript cr ch STANDARD_SCRIPT_VERIFY_FLAGS script_sig script_pubkey = Accepted"
  shows "VerifyScript cr ch (GetBlockScriptFlags pindex params) script_sig script_pubkey = Accepted"
  using block_flags.VerifyScript_le [OF block_flags_clean assms] .

theorem standard_scripts_valid_in_blocks_witness:
  "\<forall>pindex. VerifyScript demo_crypto demo_checker (GetBlockScriptFlags pindex CMainParams) [] [OP_1] = Accepted"
proof -
  have "VerifyScript demo_crypto demo_checker STANDARD_SCRIPT_VERIFY_FLAGS [] [OP_1] = Accepted"
    by (simp add: VerifyScript_def EvalScript_def eval_loop_op eval_defs MAX_SCRIPT_SIZE_def op_N_def IsPushOnly.simps
        cs_empty_def eval_true_def IsPayToScriptHash_def check_cleanstack_def standard_flags_value flag_defs has_flag_def)
  from standard_scripts_valid_in_blocks [OF this] show ?thesis by blast
qed

text \<open>
  C5.  \<^verbatim>\<open>OP_CHECKMULTISIG\<close> with well-encoded operands: the single greedy pass succeeds exactly when the
  signatures match some subsequence of the keys in order, however the signature check behaves.  A
  failure with a non-empty signature is an error under \<^verbatim>\<open>NULLFAIL\<close>, a non-empty dummy element is one under
  \<^verbatim>\<open>NULLDUMMY\<close>, and otherwise one truth value replaces the n + m + 3 operands.
\<close>

theorem check_multisig_matches_subsequence:
  assumes "\<And>sg k. sg \<in> set sigs \<Longrightarrow> k \<in> set keys \<Longrightarrow> check_encodings cr flags sg k = Inr ()"
    and "drop_signatures flags codehash sigs = Inr c"
  shows "check_multisig cr ch flags OP_CHECKMULTISIG codehash (length keys) (length sigs)
      (n # keys @ m # sigs @ dummy # s)
    = (let fSuccess = multisig_ok (\<lambda>sg k. CheckSig ch sg k c) sigs keys in
       if \<not> fSuccess \<and> has_flag flags SCRIPT_VERIFY_NULLFAIL \<and> (\<exists>sg\<in>set sigs. sg \<noteq> [])
         then Inl SCRIPT_ERR_SIG_NULLFAIL
       else if has_flag flags SCRIPT_VERIFY_NULLDUMMY \<and> dummy \<noteq> [] then Inl SCRIPT_ERR_SIG_NULLDUMMY
       else Inr (vch_bool fSuccess # s))"
proof -
  let ?t = "n # keys @ m # sigs @ dummy # s"
  have k: "take (length keys) (drop 1 ?t) = keys"
    "take (length sigs) (drop (length keys + 2) ?t) = sigs" by simp_all
  have "pop_arguments b (length keys + length sigs + 2) (length keys + 2) ?t
      = (if b \<and> (\<exists>sg\<in>set sigs. sg \<noteq> []) then Inl SCRIPT_ERR_SIG_NULLFAIL else Inr (dummy # s))" for b
    using pop_arguments_all [of b "n # keys @ [m]" sigs "dummy # s"] by (simp add: add.commute add.left_commute)
  then show ?thesis
    unfolding check_multisig_def Let_def k assms(2) sbind_Inr
    by (simp add: match_signatures_correct [OF assms(1)] finish_multisig_def)
qed

text \<open>A two-of-three check; the demonstration checker accepts a signature equal to its key.\<close>

theorem check_multisig_matches_subsequence_witness:
  "check_multisig demo_crypto demo_checker 0 OP_CHECKMULTISIG [] 3 2
     [[3], [10], [11], [12], [2], [10], [12], []] = Inr [[1]]"
proof -
  have e: "check_encodings demo_crypto 0 sg k = Inr ()" for sg k
    by (simp add: check_encodings_def CheckSignatureEncoding_def CheckPubKeyEncoding_def has_flag_def)
  have d: "drop_signatures 0 [] [[10], [12]] = Inr []"
    by (simp add: drop_signature_def FindAndDelete_def delete_matches.simps skip_matches.simps)
  have "multisig_ok (\<lambda>sg k. CheckSig demo_checker sg k []) [[10], [12 :: u8]] [[10], [11], [12]]"
    unfolding multisig_ok_def
    by (rule exI [of _ "[[10], [12]]"]) (simp add: demo_checker_def)
  then show ?thesis
    using check_multisig_matches_subsequence [of "[[10], [12]]" "[[10], [11], [12]]" demo_crypto 0 "[]" "[]"
        demo_checker "[3]" "[2]" "[]" "[]", OF e d]
    by (simp add: has_flag_def vch_bool_def eval_nat_numeral)
qed

end
