(* ===== verification/Sighash.thy ===== *)
theory Sighash
  imports Interpreter_Correct
begin

text \<open>
  Signature hashing and the transaction-bound signature checker: \<^verbatim>\<open>CTransactionSignatureSerializer\<close>,
  \<^verbatim>\<open>SignatureHash\<close> and \<^verbatim>\<open>GenericTransactionSignatureChecker\<close> of \<^verbatim>\<open>script/interpreter.cpp\<close>, with the older
  copy-and-blank definition that the tests keep as a reference (\<^verbatim>\<open>test/sighash_tests.cpp\<close>).  The double
  hash is a parameter.
\<close>

subsection \<open>Serialization of what is signed\<close>

definition fAnyoneCanPay :: "int \<Rightarrow> bool" where
  "fAnyoneCanPay nHashType \<longleftrightarrow> nHashType AND SIGHASH_ANYONECANPAY \<noteq> 0"

definition fHashSingle :: "int \<Rightarrow> bool" where
  "fHashSingle nHashType \<longleftrightarrow> nHashType AND 0x1f = SIGHASH_SINGLE"

definition fHashNone :: "int \<Rightarrow> bool" where
  "fHashNone nHashType \<longleftrightarrow> nHashType AND 0x1f = SIGHASH_NONE"

text \<open>Where the cursor of \<^verbatim>\<open>GetOp\<close> stands after a failed read.\<close>

fun failed_pc :: "bytes \<Rightarrow> bytes" where
  "failed_pc [] = []"
| "failed_pc (opcode # pc) = (case operand_size opcode pc of None \<Rightarrow> pc | Some (_, pc') \<Rightarrow> pc')"

function count_separators :: "bytes \<Rightarrow> nat" where
  "count_separators it = (case GetScriptOp it of None \<Rightarrow> 0
     | Some (opcode, _, it') \<Rightarrow> (if opcode = OP_CODESEPARATOR then 1 else 0) + count_separators it')"
  by auto
termination by (relation "measure length") (auto dest: GetScriptOp_shorter)

function write_without_separators :: "bytes \<Rightarrow> bytes \<Rightarrow> bytes" where
  "write_without_separators itBegin it = (case GetScriptOp it of
      Some (opcode, _, it') \<Rightarrow>
        if opcode = OP_CODESEPARATOR
        then take (length itBegin - length it' - 1) itBegin @ write_without_separators it' it'
        else write_without_separators itBegin it'
    | None \<Rightarrow> if itBegin \<noteq> [] then take (length itBegin - length (failed_pc it)) itBegin else [])"
  by auto
termination by (relation "measure (\<lambda>(_, it). length it)") (auto dest: GetScriptOp_shorter)

declare count_separators.simps [simp del] write_without_separators.simps [simp del]

definition SerializeScriptCode :: "CScript \<Rightarrow> bytes" where
  "SerializeScriptCode scriptCode =
    WriteCompactSize (word_of_nat (length scriptCode - count_separators scriptCode))
    @ write_without_separators scriptCode scriptCode"

definition SerializeInput :: "CTransaction \<Rightarrow> CScript \<Rightarrow> nat \<Rightarrow> int \<Rightarrow> nat \<Rightarrow> bytes" where
  "SerializeInput txTo scriptCode nIn nHashType nInput =
    (let nInput = (if fAnyoneCanPay nHashType then nIn else nInput); txin = vin txTo ! nInput in
     ser_COutPoint (prevout txin)
     @ (if nInput \<noteq> nIn then ser_byte_vector [] else SerializeScriptCode scriptCode)
     @ (if nInput \<noteq> nIn \<and> (fHashSingle nHashType \<or> fHashNone nHashType) then ser_int32 0
        else ser_writedata32 (nSequence txin)))"

definition SerializeOutput :: "CTransaction \<Rightarrow> nat \<Rightarrow> int \<Rightarrow> nat \<Rightarrow> bytes" where
  "SerializeOutput txTo nIn nHashType nOutput =
    (if fHashSingle nHashType \<and> nOutput \<noteq> nIn then ser_CTxOut CTxOut_SetNull
     else ser_CTxOut (vout txTo ! nOutput))"

definition ser_signed :: "CTransaction \<Rightarrow> CScript \<Rightarrow> nat \<Rightarrow> int \<Rightarrow> bytes" where
  "ser_signed txTo scriptCode nIn nHashType =
    (let nInputs = (if fAnyoneCanPay nHashType then 1 else length (vin txTo));
         nOutputs = (if fHashNone nHashType then 0
                     else if fHashSingle nHashType then nIn + 1 else length (vout txTo))
     in ser_writedata32 (n32bitVersion txTo)
        @ WriteCompactSize (word_of_nat nInputs)
        @ concat (map (SerializeInput txTo scriptCode nIn nHashType) [0..<nInputs])
        @ WriteCompactSize (word_of_nat nOutputs)
        @ concat (map (SerializeOutput txTo nIn nHashType) [0..<nOutputs])
        @ ser_writedata32 (nLockTime txTo)
        @ (if HasExtraPayloadField txTo then ser_byte_vector (vExtraPayload txTo) else []))"

definition uint256_ONE :: uint256 where
  "uint256_ONE = 1 # replicate 31 0"

text \<open>The leading \<^verbatim>\<open>assert(nIn < txTo.vin.size())\<close> is the error branch.\<close>

datatype sighash_error = InputOutOfRange

definition SignatureHash ::
  "(bytes \<Rightarrow> uint256) \<Rightarrow> CScript \<Rightarrow> CTransaction \<Rightarrow> nat \<Rightarrow> int \<Rightarrow> sighash_error + uint256" where
  "SignatureHash hash256d scriptCode txTo nIn nHashType =
    (if \<not> nIn < length (vin txTo) then Inl InputOutOfRange
     else if fHashSingle nHashType \<and> nIn \<ge> length (vout txTo) then Inr uint256_ONE
     else Inr (hash256d (ser_signed txTo scriptCode nIn nHashType @ ser_int32 nHashType)))"

subsection \<open>The reference: blank a copy of the transaction\<close>

definition zero_other_sequences :: "nat \<Rightarrow> CTxIn list \<Rightarrow> CTxIn list" where
  "zero_other_sequences nIn ins =
    map (\<lambda>i. if i \<noteq> nIn then (ins ! i)\<lparr>nSequence := 0\<rparr> else ins ! i) [0..<length ins]"

definition SignatureHashOld ::
  "(bytes \<Rightarrow> uint256) \<Rightarrow> CScript \<Rightarrow> CTransaction \<Rightarrow> nat \<Rightarrow> int \<Rightarrow> uint256" where
  "SignatureHashOld hash256d scriptCode txTo nIn nHashType =
    (if nIn \<ge> length (vin txTo) then uint256_ONE
     else
       let scriptCode = fst (FindAndDelete scriptCode [OP_CODESEPARATOR]);
           ins = map (\<lambda>txin. txin\<lparr>scriptSig := []\<rparr>) (vin txTo);
           ins = ins[nIn := (ins ! nIn)\<lparr>scriptSig := scriptCode\<rparr>];
           txTmp = txTo\<lparr>vin := ins\<rparr>
       in if fHashSingle nHashType \<and> nIn \<ge> length (vout txTmp) then uint256_ONE
       else
         let txTmp =
               (if fHashNone nHashType
                then txTmp\<lparr>vout := [], vin := zero_other_sequences nIn (vin txTmp)\<rparr>
                else if fHashSingle nHashType
                then txTmp\<lparr>vout := map (\<lambda>i. if i < nIn then CTxOut_SetNull else vout txTmp ! i) [0..<nIn + 1],
                           vin := zero_other_sequences nIn (vin txTmp)\<rparr>
                else txTmp);
             txTmp = (if fAnyoneCanPay nHashType then txTmp\<lparr>vin := [vin txTmp ! nIn]\<rparr> else txTmp)
         in hash256d (ser_CTransaction txTmp @ ser_int32 nHashType))"

subsection \<open>The transaction-bound checker\<close>

text \<open>
  The checker is made for an existing input, where the assertion of \<^verbatim>\<open>SignatureHash\<close> holds; without one the model
  refuses the signature.
\<close>

definition tx_CheckSig ::
  "crypto \<Rightarrow> CTransaction \<Rightarrow> nat \<Rightarrow> bytes \<Rightarrow> bytes \<Rightarrow> CScript \<Rightarrow> bool" where
  "tx_CheckSig cr txTo nIn vchSigIn vchPubKey scriptCode =
    (if \<not> PubKey_IsValid cr vchPubKey then False
     else if vchSigIn = [] then False
     else let nHashType = uint (last vchSigIn); vchSig = butlast vchSigIn in
       case SignatureHash (hash256 cr) scriptCode txTo nIn nHashType of
         Inl _ \<Rightarrow> False
       | Inr sighash \<Rightarrow> PubKey_Verify cr vchPubKey sighash vchSig)"

definition tx_CheckLockTime :: "CTransaction \<Rightarrow> nat \<Rightarrow> int \<Rightarrow> bool" where
  "tx_CheckLockTime txTo nIn nLock =
    (if \<not> (uint (nLockTime txTo) < LOCKTIME_THRESHOLD \<and> nLock < LOCKTIME_THRESHOLD
         \<or> uint (nLockTime txTo) \<ge> LOCKTIME_THRESHOLD \<and> nLock \<ge> LOCKTIME_THRESHOLD) then False
     else if nLock > uint (nLockTime txTo) then False
     else if SEQUENCE_FINAL = nSequence (vin txTo ! nIn) then False
     else True)"

definition tx_CheckSequence :: "CTransaction \<Rightarrow> nat \<Rightarrow> int \<Rightarrow> bool" where
  "tx_CheckSequence txTo nIn nSeq =
    (let txToSequence = uint (nSequence (vin txTo ! nIn));
         nLockTimeMask = uint (SEQUENCE_LOCKTIME_TYPE_FLAG OR SEQUENCE_LOCKTIME_MASK);
         txToSequenceMasked = txToSequence AND nLockTimeMask;
         nSequenceMasked = nSeq AND nLockTimeMask;
         type_flag = uint SEQUENCE_LOCKTIME_TYPE_FLAG
     in if (scast (tx_nVersion txTo) :: u32) < 2 then False
        else if txToSequence AND uint SEQUENCE_LOCKTIME_DISABLE_FLAG \<noteq> 0 then False
        else if \<not> (txToSequenceMasked < type_flag \<and> nSequenceMasked < type_flag
                  \<or> txToSequenceMasked \<ge> type_flag \<and> nSequenceMasked \<ge> type_flag) then False
        else if nSequenceMasked > txToSequenceMasked then False
        else True)"

definition TransactionSignatureChecker :: "crypto \<Rightarrow> CTransaction \<Rightarrow> nat \<Rightarrow> BaseSignatureChecker" where
  "TransactionSignatureChecker cr txTo nIn =
    \<lparr>CheckSig = tx_CheckSig cr txTo nIn, CheckLockTime = tx_CheckLockTime txTo nIn,
     CheckSequence = tx_CheckSequence txTo nIn\<rparr>"

subsection \<open>Well-formed scripts\<close>

text \<open>The instructions of a script as byte strings, if it can be decoded to its end.\<close>

function script_ops :: "bytes \<Rightarrow> bytes list option" where
  "script_ops s = (if s = [] then Some [] else
     case GetScriptOp s of None \<Rightarrow> None
     | Some (_, _, s') \<Rightarrow> map_option ((#) (take (length s - length s') s)) (script_ops s'))"
  by auto
termination by (relation "measure length") (auto dest: GetScriptOp_shorter)

declare script_ops.simps [simp del]

definition strip_separators :: "bytes list \<Rightarrow> bytes" where
  "strip_separators ops = concat (filter (\<lambda>chunk. hd chunk \<noteq> OP_CODESEPARATOR) ops)"

lemma GetScriptOp_split:
  assumes "GetScriptOp s = Some (opc, v, s')"
  obtains chunk where "s = chunk @ s'" "chunk \<noteq> []" "hd chunk = opc"
    "opc = OP_CODESEPARATOR \<Longrightarrow> chunk = [OP_CODESEPARATOR]"
proof (cases s)
  case (Cons b t)
  have t: "operand_size b t = Some (n, t') \<Longrightarrow> \<exists>u. t = u @ t'" for n t'
  proof -
    assume "operand_size b t = Some (n, t')"
    then have "\<exists>k. t' = drop k t" 
      by (auto simp: operand_size_def split: if_splits intro: exI [of _ "0 :: nat"] exI [of _ "Suc 0"] simp: drop_Suc)
    then show ?thesis by (metis append_take_drop_id)
  qed
  have "b = opc" "\<exists>u. t = u @ s'" "opc = OP_CODESEPARATOR \<Longrightarrow> s' = t"
    using assms Cons t by (auto split: if_splits option.splits) (metis append.assoc append_take_drop_id)+
  then show ?thesis using Cons that by (metis append_Cons append_Nil append_same_eq hd_append list.sel(1) list.distinct(1) append_self_conv2)
qed (use assms in simp)

lemma script_ops_Nil [simp]: "script_ops [] = Some []"
  by (simp add: script_ops.simps)

lemma script_ops_cases [consumes 1, case_names Nil Cons]:
  assumes "script_ops s = Some ops"
  obtains "s = []" "ops = []"
  | opc v s' chunk ops' where "GetScriptOp s = Some (opc, v, s')" "s = chunk @ s'" "chunk \<noteq> []" "hd chunk = opc"
      "opc = OP_CODESEPARATOR \<Longrightarrow> chunk = [OP_CODESEPARATOR]" "script_ops s' = Some ops'" "ops = chunk # ops'"
proof (cases "s = []")
  case True
  then show ?thesis using assms that(1) by simp
next
  case False
  then obtain opc v s' ops' where g: "GetScriptOp s = Some (opc, v, s')" "script_ops s' = Some ops'"
      "ops = take (length s - length s') s # ops'"
    using assms by (subst (asm) script_ops.simps) (auto split: option.splits)
  from g(1) obtain chunk where c: "s = chunk @ s'" "chunk \<noteq> []" "hd chunk = opc"
    "opc = OP_CODESEPARATOR \<Longrightarrow> chunk = [OP_CODESEPARATOR]" by (rule GetScriptOp_split) blast
  have "ops = chunk # ops'" using g(3) c(1) by simp
  then show ?thesis using that(2) [OF g(1) c g(2)] by blast
qed

lemma strip_separators_Cons [simp]:
  "strip_separators (c # ops) = (if hd c = OP_CODESEPARATOR then strip_separators ops else c @ strip_separators ops)"
  by (simp add: strip_separators_def)

lemma strip_separators_Nil [simp]: "strip_separators [] = []"
  by (simp add: strip_separators_def)

lemma write_without_separators_ops:
  "script_ops it = Some ops \<Longrightarrow> write_without_separators (pre @ it) it = pre @ strip_separators ops"
proof (induction "length it" arbitrary: pre it ops rule: less_induct)
  case less
  from less.prems show ?case
  proof (cases rule: script_ops_cases)
    case Nil
    then show ?thesis by (simp add: write_without_separators.simps [of pre])
  next
    case (Cons opc v s' chunk ops')
    have IH: "write_without_separators (p @ s') s' = p @ strip_separators ops'" for p
      by (rule less.hyps [OF GetScriptOp_shorter [OF Cons(1)] Cons(6)])
    show ?thesis
    proof (cases "opc = OP_CODESEPARATOR")
      case True
      then show ?thesis using Cons IH [of "[]"]
        by (subst write_without_separators.simps) simp
    next
      case False
      then show ?thesis using Cons IH [of "pre @ chunk"]
        by (subst write_without_separators.simps) simp
    qed
  qed
qed

lemma count_separators_ops:
  "script_ops s = Some ops \<Longrightarrow> length (strip_separators ops) + count_separators s = length s"
proof (induction "length s" arbitrary: s ops rule: less_induct)
  case less
  from less.prems show ?case
  proof (cases rule: script_ops_cases)
    case Nil
    then show ?thesis by (simp add: count_separators.simps)
  next
    case (Cons opc v s' chunk ops')
    have "length (strip_separators ops') + count_separators s' = length s'"
      by (rule less.hyps [OF GetScriptOp_shorter [OF Cons(1)] Cons(6)])
    then show ?thesis using Cons by (subst count_separators.simps) auto
  qed
qed

lemma SerializeScriptCode_ops:
  assumes "script_ops scriptCode = Some ops"
  shows "SerializeScriptCode scriptCode = ser_byte_vector (strip_separators ops)"
proof -
  have "length scriptCode - count_separators scriptCode = length (strip_separators ops)"
    using count_separators_ops [OF assms] by linarith
  then show ?thesis
    using write_without_separators_ops [OF assms, of "[]"]
    by (simp add: SerializeScriptCode_def ser_byte_vector_def)
qed

text \<open>Deleting the separators with \<^verbatim>\<open>FindAndDelete\<close> gives the same bytes.\<close>

lemma skip_separator: "skip_matches [b] (b # pc) = (fst (skip_matches [b] pc), Suc (snd (skip_matches [b] pc)))"
  by (subst skip_matches.simps) (simp add: case_prod_beta)

lemma skip_no_match: "pc = [] \<or> hd pc \<noteq> b \<Longrightarrow> skip_matches [b] pc = (pc, 0)"
  by (subst skip_matches.simps) (cases pc, auto)

lemma delete_separators_ops:
  "script_ops s = Some ops \<Longrightarrow> fst (delete_matches [OP_CODESEPARATOR] s) = strip_separators ops
     \<and> (snd (delete_matches [OP_CODESEPARATOR] s) = 0 \<longrightarrow> strip_separators ops = s)"
proof (induction "length s" arbitrary: s ops rule: less_induct)
  case less
  let ?b = "[OP_CODESEPARATOR]"
  from less.prems show ?case
  proof (cases rule: script_ops_cases)
    case Nil
    then show ?thesis by (simp add: delete_matches.simps skip_no_match)
  next
    case (Cons opc v s' chunk ops')
    have IH: "fst (delete_matches ?b s') = strip_separators ops'
        \<and> (snd (delete_matches ?b s') = 0 \<longrightarrow> strip_separators ops' = s')"
      by (rule less.hyps [OF GetScriptOp_shorter [OF Cons(1)] Cons(6)])
    show ?thesis
    proof (cases "opc = OP_CODESEPARATOR")
      case True
      then have s: "s = OP_CODESEPARATOR # s'" using Cons by simp
      have "fst (delete_matches ?b s) = fst (delete_matches ?b s')" "snd (delete_matches ?b s) \<noteq> 0"
        unfolding s
        by (subst (1 2) delete_matches.simps, simp add: skip_separator case_prod_beta split: option.split)
          (subst delete_matches.simps, simp add: skip_separator case_prod_beta split: option.split)
      then show ?thesis using IH Cons True by simp
    next
      case False
      then have "skip_matches ?b s = (s, 0)" using Cons by (intro skip_no_match) simp
      then show ?thesis using IH Cons False
        by (subst (1 2) delete_matches.simps) (simp add: case_prod_beta)
    qed
  qed
qed

lemma FindAndDelete_separators:
  "script_ops s = Some ops \<Longrightarrow> fst (FindAndDelete s [OP_CODESEPARATOR]) = strip_separators ops"
  using delete_separators_ops [of s ops] by (auto simp: FindAndDelete_def case_prod_beta)

subsection \<open>The two signature hashes agree\<close>

text \<open>The blanked transaction in one step, with the script code already stripped.\<close>

definition blank_input :: "CScript \<Rightarrow> nat \<Rightarrow> int \<Rightarrow> nat \<Rightarrow> CTxIn \<Rightarrow> CTxIn" where
  "blank_input c nIn h i txin = txin\<lparr>scriptSig := if i = nIn then c else [],
     nSequence := if i \<noteq> nIn \<and> (fHashSingle h \<or> fHashNone h) then 0 else nSequence txin\<rparr>"

definition blank_inputs :: "CScript \<Rightarrow> nat \<Rightarrow> int \<Rightarrow> CTxIn list \<Rightarrow> CTxIn list" where
  "blank_inputs c nIn h ins = map (\<lambda>i. blank_input c nIn h i (ins ! i)) [0..<length ins]"

definition blank_tx :: "CScript \<Rightarrow> nat \<Rightarrow> int \<Rightarrow> CTransaction \<Rightarrow> CTransaction" where
  "blank_tx c nIn h tx = tx\<lparr>
     vin := if fAnyoneCanPay h then [blank_input c nIn h nIn (vin tx ! nIn)] else blank_inputs c nIn h (vin tx),
     vout := if fHashNone h then []
       else if fHashSingle h then map (\<lambda>i. if i < nIn then CTxOut_SetNull else vout tx ! i) [0..<nIn + 1]
       else vout tx\<rparr>"

lemma single_not_none: "fHashSingle h \<Longrightarrow> \<not> fHashNone h"
  by (simp add: fHashSingle_def fHashNone_def SIGHASH_SINGLE_def SIGHASH_NONE_def)

lemma SerializeInput_blank:
  assumes "script_ops scriptCode = Some ops" "j = (if fAnyoneCanPay h then nIn else i)"
  shows "SerializeInput tx scriptCode nIn h i = ser_CTxIn (blank_input (strip_separators ops) nIn h j (vin tx ! j))"
  using assms
  by (simp add: SerializeInput_def blank_input_def ser_CTxIn_def SerializeScriptCode_ops ser_int32_def Let_def)

lemma ser_signed_blank:
  assumes "script_ops scriptCode = Some ops" "nIn < length (vin tx)" "fHashSingle h \<Longrightarrow> nIn < length (vout tx)"
  shows "ser_signed tx scriptCode nIn h = ser_CTransaction (blank_tx (strip_separators ops) nIn h tx)"
proof -
  let ?t = "blank_tx (strip_separators ops) nIn h tx"
  let ?n = "if fAnyoneCanPay h then 1 else length (vin tx)"
  let ?m = "if fHashNone h then 0 else if fHashSingle h then nIn + 1 else length (vout tx)"
  have i: "map (SerializeInput tx scriptCode nIn h) [0..<?n] = map ser_CTxIn (vin ?t)" "length (vin ?t) = ?n"
    using SerializeInput_blank [OF assms(1), of _ h nIn _ tx] by (auto simp: blank_tx_def blank_inputs_def)
  have o: "map (SerializeOutput tx nIn h) [0..<?m] = map ser_CTxOut (vout ?t)" "length (vout ?t) = ?m"
    by (auto simp: blank_tx_def SerializeOutput_def single_not_none intro: nth_equalityI)
  have "ser_writedata32 (n32bitVersion tx) = ser_writedata32 (n32bitVersion ?t)" "nLockTime ?t = nLockTime tx"
      "HasExtraPayloadField ?t = HasExtraPayloadField tx" "vExtraPayload ?t = vExtraPayload tx"
    by (simp_all add: n32bitVersion_def HasExtraPayloadField_def IsSpecialTxVersion_def blank_tx_def)
  then show ?thesis
    unfolding ser_signed_def ser_CTransaction_def ser_vector_def Let_def i(1) o(1) i(2) o(2)
    by (simp only: append_assoc)
qed

lemma zero_other_sequences_blank:
  assumes "nIn < length ins" "fHashSingle h \<or> fHashNone h"
  shows "zero_other_sequences nIn
      ((map (\<lambda>txin. txin\<lparr>scriptSig := []\<rparr>) ins)[nIn := (map (\<lambda>txin. txin\<lparr>scriptSig := []\<rparr>) ins ! nIn)\<lparr>scriptSig := c\<rparr>])
    = blank_inputs c nIn h ins"
  using assms
  by (intro nth_equalityI) (auto simp: zero_other_sequences_def blank_inputs_def blank_input_def nth_list_update)

lemma blank_inputs_plain:
  assumes "nIn < length ins" "\<not> fHashSingle h" "\<not> fHashNone h"
  shows "(map (\<lambda>txin. txin\<lparr>scriptSig := []\<rparr>) ins)[nIn := (map (\<lambda>txin. txin\<lparr>scriptSig := []\<rparr>) ins ! nIn)\<lparr>scriptSig := c\<rparr>]
    = blank_inputs c nIn h ins"
  using assms
  by (intro nth_equalityI) (auto simp: blank_inputs_def blank_input_def nth_list_update)

lemma vin_vout_swap: "vin_update f (vout_update g tx) = vout_update g (vin_update f tx)"
  by simp

lemma SignatureHashOld_blank:
  assumes "script_ops scriptCode = Some ops" "nIn < length (vin tx)" "fHashSingle h \<Longrightarrow> nIn < length (vout tx)"
  shows "SignatureHashOld H scriptCode tx nIn h
    = H (ser_CTransaction (blank_tx (strip_separators ops) nIn h tx) @ ser_int32 h)"
proof -
  have n: "blank_inputs c nIn h (vin tx) ! nIn = blank_input c nIn h nIn (vin tx ! nIn)" for c
    using assms(2) by (simp add: blank_inputs_def)
  note z = zero_other_sequences_blank [OF assms(2)] and p = blank_inputs_plain [OF assms(2)]
  consider "fHashSingle h" "\<not> fHashNone h" | "fHashNone h" "\<not> fHashSingle h" | "\<not> fHashSingle h" "\<not> fHashNone h"
    using single_not_none by blast
  then show ?thesis
  proof cases
    case 1
    then show ?thesis using assms z [of h] n
      by (simp add: SignatureHashOld_def FindAndDelete_separators Let_def blank_tx_def vin_vout_swap del: upt_Suc cong: if_cong)
  next
    case 2
    then show ?thesis using assms z [of h] n
      by (simp add: SignatureHashOld_def FindAndDelete_separators Let_def blank_tx_def vin_vout_swap)
  next
    case 3
    then show ?thesis using assms p [of h] n
      by (simp add: SignatureHashOld_def FindAndDelete_separators Let_def blank_tx_def)
  qed
qed

subsection \<open>Properties\<close>

text \<open>
  C10.  For a script code that decodes to its end, the in-place signature hash equals the reference that
  copies and blanks the transaction: same bytes are hashed for every hash type, separators are
  skipped either way, and an out-of-range \<^verbatim>\<open>SIGHASH_SINGLE\<close> gives the constant one in both.
\<close>

theorem SignatureHash_equals_reference:
  assumes "script_ops scriptCode = Some ops" "nIn < length (vin tx)"
  shows "SignatureHash hash256d scriptCode tx nIn nHashType = Inr (SignatureHashOld hash256d scriptCode tx nIn nHashType)"
proof (cases "fHashSingle nHashType \<and> nIn \<ge> length (vout tx)")
  case True
  then show ?thesis using assms by (simp add: SignatureHash_def SignatureHashOld_def Let_def)
next
  case False
  then have s: "fHashSingle nHashType \<Longrightarrow> nIn < length (vout tx)" by simp
  have "SignatureHash hash256d scriptCode tx nIn nHashType
      = Inr (hash256d (ser_signed tx scriptCode nIn nHashType @ ser_int32 nHashType))"
    using assms(2) False by (auto simp: SignatureHash_def)
  then show ?thesis
    unfolding ser_signed_blank [where h = nHashType, OF assms s, simplified]
      SignatureHashOld_blank [where h = nHashType and H = hash256d, OF assms s, simplified] by simp
qed

theorem SignatureHash_equals_reference_witness:
  "SignatureHash (\<lambda>b. b) [OP_CODESEPARATOR, OP_CHECKSIG] sample_tx 0 1
     = Inr (SignatureHashOld (\<lambda>b. b) [OP_CODESEPARATOR, OP_CHECKSIG] sample_tx 0 1)"
proof -
  have "script_ops [OP_CODESEPARATOR, OP_CHECKSIG] = Some [[OP_CODESEPARATOR], [OP_CHECKSIG]]"
    by (simp add: script_ops.simps)
  from SignatureHash_equals_reference [OF this, of 0 sample_tx] show ?thesis by (simp add: sample_tx_def)
qed

end
