(* ===== verification/Compressor.thy ===== *)
theory Compressor
  imports Sighash
begin

text \<open>
  Compact encoding of transaction outputs and the coins that hold them: \<^verbatim>\<open>compressor.{h,cpp}\<close> and the
  \<^verbatim>\<open>Coin\<close> class of \<^verbatim>\<open>coins.h\<close>.  Amounts are 64-bit unsigned, as naturals with the wrap-around written
  out.  Validity and decompression of public keys are parameters.
\<close>

subsection \<open>Amounts\<close>

function strip_tens :: "nat \<Rightarrow> nat \<Rightarrow> nat \<times> nat" where
  "strip_tens n e = (if n mod 10 = 0 \<and> e < 9 then strip_tens (n div 10) (e + 1) else (n, e))"
  by auto
termination by (relation "measure (\<lambda>(_, e). 9 - e)") auto

declare strip_tens.simps [simp del]

definition CompressAmount :: "nat \<Rightarrow> nat" where
  "CompressAmount n =
    (if n = 0 then 0
     else let (n, e) = strip_tens n 0 in
       if e < 9 then let d = n mod 10; n = n div 10 in (1 + (n * 9 + d - 1) * 10 + e) mod 2 ^ 64
       else (1 + (n - 1) * 10 + 9) mod 2 ^ 64)"

fun mul_tens :: "nat \<Rightarrow> nat \<Rightarrow> nat" where
  "mul_tens n 0 = n"
| "mul_tens n (Suc e) = mul_tens (n * 10 mod 2 ^ 64) e"

definition DecompressAmount :: "nat \<Rightarrow> nat" where
  "DecompressAmount x =
    (if x = 0 then 0
     else let x = x - 1; e = x mod 10; x = x div 10;
              n = (if e < 9 then (x div 9) * 10 + (x mod 9 + 1) else x + 1)
          in mul_tens n e)"

lemma strip_tens_spec:
  "n > 0 \<Longrightarrow> e \<le> 9 \<Longrightarrow> strip_tens n e = (m, k) \<Longrightarrow>
    e \<le> k \<and> k \<le> 9 \<and> m > 0 \<and> n = m * 10 ^ (k - e) \<and> (k < 9 \<longrightarrow> m mod 10 \<noteq> 0)"
proof (induction n e rule: strip_tens.induct)
  case (1 n e)
  show ?case
  proof (cases "n mod 10 = 0 \<and> e < 9")
    case True
    then have "strip_tens (n div 10) (e + 1) = (m, k)" using 1(4) strip_tens.simps [of n e] by simp
    moreover have "0 < n div 10" "n = n div 10 * 10" using True 1(2) by auto
    ultimately have ih: "e + 1 \<le> k" "k \<le> 9" "m > 0" "n div 10 = m * 10 ^ (k - (e + 1))" "k < 9 \<longrightarrow> m mod 10 \<noteq> 0"
      using 1(1) [OF True] True by auto
    have "n = m * 10 ^ (k - (e + 1)) * 10" using \<open>n = n div 10 * 10\<close> ih(4) by simp
    also have "\<dots> = m * 10 ^ (k - e)" using ih(1) by (simp add: Suc_diff_Suc flip: power_Suc2 mult.assoc)
    finally show ?thesis using ih by simp
  next
    case False
    then have "m = n" "k = e" using 1(4) strip_tens.simps [of n e] by auto
    then show ?thesis using 1(2,3) False by auto
  qed
qed

lemma mul_tens_exact: "n * 10 ^ e < 2 ^ 64 \<Longrightarrow> mul_tens n e = n * 10 ^ e"
proof (induction e arbitrary: n)
  case (Suc e)
  have "n * 10 \<le> n * 10 * 10 ^ e" by simp
  also have "\<dots> < 2 ^ 64" using Suc.prems by (simp add: mult.assoc)
  finally have "n * 10 mod 2 ^ 64 = n * 10" by simp
  then show ?case using Suc by (simp add: mult.assoc)
qed simp

text \<open>The value that a compressed amount encodes, without wrap-around.\<close>

definition amount_code :: "nat \<Rightarrow> nat \<Rightarrow> nat" where
  "amount_code m e = (if e < 9 then 1 + (m div 10 * 9 + m mod 10 - 1) * 10 + e else 1 + (m - 1) * 10 + 9)"

lemma digit_10: "e < 10 \<Longrightarrow> (k * 10 + e) mod 10 = e" "e < 10 \<Longrightarrow> (k * 10 + e) div 10 = (k :: nat)"
  by simp_all

lemma digit_9: "r < 9 \<Longrightarrow> (k * 9 + r) div 9 = (k :: nat)" "r < 9 \<Longrightarrow> (k * 9 + r) mod 9 = r"
  by simp_all

lemma Decompress_step:
  "x \<noteq> 0 \<Longrightarrow> (x - 1) mod 10 = e \<Longrightarrow> (x - 1) div 10 = y \<Longrightarrow>
   DecompressAmount x = mul_tens (if e < 9 then y div 9 * 10 + (y mod 9 + 1) else y + 1) e"
  by (simp add: DecompressAmount_def Let_def)

lemma Decompress_code:
  assumes "m > 0" "e \<le> 9" "e < 9 \<Longrightarrow> m mod 10 \<noteq> 0" "m * 10 ^ e < 2 ^ 64"
  shows "DecompressAmount (amount_code m e) = m * 10 ^ e"
proof -
  have "DecompressAmount (amount_code m e) = mul_tens m e"
  proof (cases "e < 9")
    case True
    let ?q = "m div 10" and ?d = "m mod 10"
    have d: "?d \<noteq> 0" "?d \<le> 9" using assms(3) True by auto
    have c: "amount_code m e - 1 = (?q * 9 + (?d - 1)) * 10 + e" using True d by (simp add: amount_code_def)
    have x: "(amount_code m e - 1) mod 10 = e" "(amount_code m e - 1) div 10 = ?q * 9 + (?d - 1)"
      unfolding c using True by (intro digit_10, linarith)+
    have y: "(?q * 9 + (?d - 1)) div 9 = ?q" "(?q * 9 + (?d - 1)) mod 9 = ?d - 1"
      using d by (intro digit_9, linarith)+
    have "amount_code m e \<noteq> 0" using True by (simp add: amount_code_def)
    from Decompress_step [OF this x] have "DecompressAmount (amount_code m e) = mul_tens (?q * 10 + (?d - 1 + 1)) e"
      using True y by simp
    moreover have "?q * 10 + (?d - 1 + 1) = m" using d by simp
    ultimately show ?thesis by simp
  next
    case False
    then have "e = 9" using assms(2) by simp
    then have c: "amount_code m e - 1 = (m - 1) * 10 + 9" by (simp add: amount_code_def)
    have "(amount_code m e - 1) mod 10 = 9" "(amount_code m e - 1) div 10 = m - 1" unfolding c by simp_all
    then show ?thesis using \<open>e = 9\<close> assms(1) by (simp add: DecompressAmount_def Let_def amount_code_def)
  qed
  then show ?thesis using mul_tens_exact [OF assms(4)] by simp
qed

lemma Compress_code:
  assumes "n > 0" "strip_tens n 0 = (m, e)"
  shows "CompressAmount n = amount_code m e mod 2 ^ 64"
  using assms by (simp add: CompressAmount_def amount_code_def Let_def)

lemma amount_code_bound: "m > 0 \<Longrightarrow> amount_code m e \<le> 10 * m + 10"
proof -
  assume "m > 0"
  have "m div 10 * 9 + m mod 10 - 1 \<le> m" using div_mult_mod_eq [of m 10] by linarith
  then show ?thesis by (auto simp: amount_code_def)
qed

lemma amount_round_trip:
  assumes "n < 2 ^ 60"
  shows "DecompressAmount (CompressAmount n) = n" "CompressAmount n \<le> 2 ^ 64 - 1"
proof -
  show "CompressAmount n \<le> 2 ^ 64 - 1"
    by (auto simp: CompressAmount_def Let_def split: prod.split intro: order_less_imp_le)
  show "DecompressAmount (CompressAmount n) = n"
  proof (cases "n = 0")
    case False
    obtain m e where s: "strip_tens n 0 = (m, e)" by fastforce
    have p: "e \<le> 9" "m > 0" "n = m * 10 ^ e" "e < 9 \<longrightarrow> m mod 10 \<noteq> 0"
      using strip_tens_spec [OF _ _ s] False by auto
    have "m \<le> n" using p by simp
    then have "amount_code m e < 2 ^ 64" using amount_code_bound [OF p(2), of e] assms by simp
    then have "CompressAmount n = amount_code m e" using Compress_code [OF _ s] False by simp
    then show ?thesis using Decompress_code [of m e] p assms by simp
  qed (simp add: CompressAmount_def DecompressAmount_def)
qed

subsection \<open>Scripts\<close>

definition IsToKeyID :: "CScript \<Rightarrow> bytes option" where
  "IsToKeyID script =
    (if length script = 25 \<and> script ! 0 = OP_DUP \<and> script ! 1 = OP_HASH160 \<and> script ! 2 = 20
        \<and> script ! 23 = OP_EQUALVERIFY \<and> script ! 24 = OP_CHECKSIG
     then Some (take 20 (drop 3 script)) else None)"

definition IsToScriptID :: "CScript \<Rightarrow> bytes option" where
  "IsToScriptID script =
    (if length script = 23 \<and> script ! 0 = OP_HASH160 \<and> script ! 1 = 20 \<and> script ! 22 = OP_EQUAL
     then Some (take 20 (drop 2 script)) else None)"

definition IsToPubKey :: "(bytes \<Rightarrow> bool) \<Rightarrow> CScript \<Rightarrow> bytes option" where
  "IsToPubKey IsFullyValid script =
    (if length script = 35 \<and> script ! 0 = 33 \<and> script ! 34 = OP_CHECKSIG
        \<and> (script ! 1 = 0x02 \<or> script ! 1 = 0x03)
     then Some (take 33 (drop 1 script))
     else if length script = 67 \<and> script ! 0 = 65 \<and> script ! 66 = OP_CHECKSIG \<and> script ! 1 = 0x04
     then (let pubkey = take 65 (drop 1 script) in if IsFullyValid pubkey then Some pubkey else None)
     else None)"

definition CompressScript :: "(bytes \<Rightarrow> bool) \<Rightarrow> CScript \<Rightarrow> bytes option" where
  "CompressScript IsFullyValid script =
    (case IsToKeyID script of Some keyID \<Rightarrow> Some (0x00 # keyID)
     | None \<Rightarrow> (case IsToScriptID script of Some scriptID \<Rightarrow> Some (0x01 # scriptID)
     | None \<Rightarrow> (case IsToPubKey IsFullyValid script of
         Some pubkey \<Rightarrow>
           if pubkey ! 0 = 0x02 \<or> pubkey ! 0 = 0x03 then Some (pubkey ! 0 # take 32 (drop 1 pubkey))
           else if pubkey ! 0 = 0x04
           then Some ((0x04 OR (pubkey ! 64 AND 0x01)) # take 32 (drop 1 pubkey))
           else None
       | None \<Rightarrow> None)))"

definition GetSpecialScriptSize :: "nat \<Rightarrow> nat" where
  "GetSpecialScriptSize nSize =
    (if nSize = 0 \<or> nSize = 1 then 20
     else if nSize = 2 \<or> nSize = 3 \<or> nSize = 4 \<or> nSize = 5 then 32
     else 0)"

definition DecompressScript :: "(bytes \<Rightarrow> bytes option) \<Rightarrow> nat \<Rightarrow> bytes \<Rightarrow> CScript option" where
  "DecompressScript Decompress nSize inp =
    (if nSize = 0 then Some ([OP_DUP, OP_HASH160, 20] @ take 20 inp @ [OP_EQUALVERIFY, OP_CHECKSIG])
     else if nSize = 1 then Some ([OP_HASH160, 20] @ take 20 inp @ [OP_EQUAL])
     else if nSize = 2 \<or> nSize = 3 then Some ([33, word_of_nat nSize] @ take 32 inp @ [OP_CHECKSIG])
     else if nSize = 4 \<or> nSize = 5 then
       (case Decompress (word_of_nat (nSize - 2) # take 32 inp) of None \<Rightarrow> None
        | Some pubkey \<Rightarrow> Some (65 # take 65 pubkey @ [OP_CHECKSIG]))
     else None)"

definition nSpecialScripts :: nat where "nSpecialScripts = 6"

definition ScriptCompression_Ser :: "(bytes \<Rightarrow> bool) \<Rightarrow> CScript \<Rightarrow> bytes" where
  "ScriptCompression_Ser IsFullyValid script =
    (case CompressScript IsFullyValid script of Some compr \<Rightarrow> compr
     | None \<Rightarrow> WriteVarInt (length script + nSpecialScripts) @ script)"

text \<open>The reader updates the script object it is given, which keeps its value if decompression fails.\<close>

definition ScriptCompression_Unser :: "(bytes \<Rightarrow> bytes option) \<Rightarrow> CScript \<Rightarrow> CScript reader" where
  "ScriptCompression_Unser Decompress script = rbind (ReadVarInt (2 ^ 32 - 1)) (\<lambda>nSize.
     if nSize < nSpecialScripts then
       rbind (read_bytes (GetSpecialScriptSize nSize)) (\<lambda>vch.
         rret (case DecompressScript Decompress nSize vch of Some script' \<Rightarrow> script' | None \<Rightarrow> script))
     else let nSize = nSize - nSpecialScripts in
       if nSize > MAX_SCRIPT_SIZE then rbind (read_bytes nSize) (\<lambda>_. rret (script @ [OP_RETURN]))
       else read_bytes nSize)"

text \<open>
  What the key library promises: a fully valid uncompressed key is recovered from its abscissa and the
  parity of its ordinate.
\<close>

definition pubkeys_ok :: "(bytes \<Rightarrow> bool) \<Rightarrow> (bytes \<Rightarrow> bytes option) \<Rightarrow> bool" where
  "pubkeys_ok IsFullyValid Decompress \<longleftrightarrow>
    (\<forall>k. length k = 65 \<and> k ! 0 = 0x04 \<and> IsFullyValid k \<longrightarrow>
       Decompress ((0x02 OR (k ! 64 AND 0x01)) # take 32 (drop 1 k)) = Some k)"

lemma split_around:
  "length s = a + n + b \<Longrightarrow> s = take a s @ take n (drop a s) @ drop (a + n) s"
  by (metis append_take_drop_id drop_drop add.commute)

lemma list_of_nth2: "length s = 2 \<Longrightarrow> s = [s ! 0, s ! 1]"
  by (cases s; cases "tl s") auto

lemma list_of_nth3: "length s = 3 \<Longrightarrow> s = [s ! 0, s ! 1, s ! 2]"
  by (cases s; cases "tl s"; cases "tl (tl s)") auto

lemma list_of_nth1: "length s = 1 \<Longrightarrow> s = [s ! 0]"
  by (cases s) auto

lemma IsToKeyID_shape: "IsToKeyID s = Some k \<Longrightarrow>
  length k = 20 \<and> s = [OP_DUP, OP_HASH160, 20] @ k @ [OP_EQUALVERIFY, OP_CHECKSIG]"
proof -
  assume a: "IsToKeyID s = Some k"
  then have l: "length s = 25" "s ! 0 = OP_DUP" "s ! 1 = OP_HASH160" "s ! 2 = 20" "s ! 23 = OP_EQUALVERIFY"
      "s ! 24 = OP_CHECKSIG" "k = take 20 (drop 3 s)"
    by (auto simp: IsToKeyID_def split: if_splits)
  have "take 3 s = [OP_DUP, OP_HASH160, 20]" "drop 23 s = [OP_EQUALVERIFY, OP_CHECKSIG]"
    using list_of_nth3 [of "take 3 s"] list_of_nth2 [of "drop 23 s"] l by simp_all
  then show ?thesis using split_around [of s 3 20 2] l by simp
qed

lemma IsToScriptID_shape: "IsToScriptID s = Some k \<Longrightarrow>
  length k = 20 \<and> s = [OP_HASH160, 20] @ k @ [OP_EQUAL]"
proof -
  assume a: "IsToScriptID s = Some k"
  then have l: "length s = 23" "s ! 0 = OP_HASH160" "s ! 1 = 20" "s ! 22 = OP_EQUAL" "k = take 20 (drop 2 s)"
    by (auto simp: IsToScriptID_def split: if_splits)
  have "take 2 s = [OP_HASH160, 20]" "drop 22 s = [OP_EQUAL]"
    using list_of_nth2 [of "take 2 s"] list_of_nth1 [of "drop 22 s"] l by simp_all
  then show ?thesis using split_around [of s 2 20 1] l by simp
qed

lemma IsToPubKey_shape: "IsToPubKey V s = Some k \<Longrightarrow>
  length k = 33 \<and> (k ! 0 = 0x02 \<or> k ! 0 = 0x03) \<and> s = 33 # k @ [OP_CHECKSIG]
  \<or> length k = 65 \<and> k ! 0 = 0x04 \<and> V k \<and> s = 65 # k @ [OP_CHECKSIG]"
proof -
  assume a: "IsToPubKey V s = Some k"
  then consider
    (c) "length s = 35" "s ! 0 = 33" "s ! 34 = OP_CHECKSIG" "s ! 1 = 0x02 \<or> s ! 1 = 0x03" "k = take 33 (drop 1 s)"
  | (u) "length s = 67" "s ! 0 = 65" "s ! 66 = OP_CHECKSIG" "s ! 1 = 0x04" "k = take 65 (drop 1 s)" "V k"
    by (auto simp: IsToPubKey_def Let_def split: if_splits)
  then show ?thesis
  proof cases
    case c
    have "take 1 s = [33]" "drop 34 s = [OP_CHECKSIG]"
      using list_of_nth1 [of "take 1 s"] list_of_nth1 [of "drop 34 s"] c by simp_all
    then show ?thesis using split_around [of s 1 33 1] c by simp
  next
    case u
    have "take 1 s = [65]" "drop 66 s = [OP_CHECKSIG]"
      using list_of_nth1 [of "take 1 s"] list_of_nth1 [of "drop 66 s"] u by simp_all
    then show ?thesis using split_around [of s 1 65 1] u by simp
  qed
qed

lemma varint_small: "n < 128 \<Longrightarrow> WriteVarInt n = [word_of_nat n]"
proof -
  assume n: "n < 128"
  have "(word_of_nat n :: u8) AND 0x7f = word_of_nat n"
    by (rule unat_eqI) (use n in \<open>simp add: byte_low7 unsigned_of_nat take_bit_nat_eq_self\<close>)
  then show ?thesis using n by (simp add: WriteVarInt_def varint_tmp.simps Let_def)
qed

lemma special_read:
  assumes "n < nSpecialScripts" "length body = GetSpecialScriptSize n" "DecompressScript D n body = Some s"
  shows "ScriptCompression_Unser D old (word_of_nat n # body @ rest) = Inr (s, rest)"
proof -
  have "ReadVarInt (2 ^ 32 - 1) ([word_of_nat n] @ (body @ rest)) = Inr (n, body @ rest)"
    using varint32.round_trip [of n "body @ rest"] varint_small [of n] assms(1) by (simp add: nSpecialScripts_def)
  then show ?thesis
    using assms by (simp add: ScriptCompression_Unser_def rbind_Inr read_bytes_append)
qed

text \<open>The byte that a compressed key starts with.\<close>

lemma parity_byte:
  "\<exists>n. 0x04 OR (b AND 0x01 :: u8) = word_of_nat n \<and> 0x02 OR (b AND 0x01) = (word_of_nat (n - 2) :: u8)
     \<and> (n = 4 \<or> n = 5)"
proof -
  have "b AND 0x01 = 0 \<or> b AND 0x01 = 1" by (simp add: and_one_eq odd_iff_mod_2_eq_one) auto
  then show ?thesis by (auto intro: exI [of _ "4 :: nat"] exI [of _ "5 :: nat"])
qed

lemma CompressScript_rt:
  assumes "pubkeys_ok V D" "CompressScript V s = Some c"
  shows "ScriptCompression_Unser D old (c @ rest) = Inr (s, rest)"
proof (cases "IsToKeyID s")
  case (Some k)
  then have c: "c = 0 # k" using assms(2) by (simp add: CompressScript_def)
  show ?thesis
    using special_read [of 0 k D s old rest] IsToKeyID_shape [OF Some] c
    by (simp add: nSpecialScripts_def GetSpecialScriptSize_def DecompressScript_def)
next
  case k: None
  show ?thesis
  proof (cases "IsToScriptID s")
    case (Some h)
    then have c: "c = 1 # h" using assms(2) k by (simp add: CompressScript_def)
    show ?thesis
      using special_read [of 1 h D s old rest] IsToScriptID_shape [OF Some] c
      by (simp add: nSpecialScripts_def GetSpecialScriptSize_def DecompressScript_def)
  next
    case h: None
    then obtain p where p: "IsToPubKey V s = Some p" using assms(2) k
      by (auto simp: CompressScript_def split: option.splits)
    from IsToPubKey_shape [OF p] show ?thesis
    proof
      assume a: "length p = 33 \<and> (p ! 0 = 0x02 \<or> p ! 0 = 0x03) \<and> s = 33 # p @ [OP_CHECKSIG]"
      then obtain q where q: "p = p ! 0 # q" "length q = 32" by (cases p) auto
      then have c: "c = p ! 0 # q" using assms(2) k h p a by (auto simp: CompressScript_def drop_Suc)
      from a have "p ! 0 = word_of_nat 2 \<or> p ! 0 = word_of_nat 3" by simp
      then obtain n where n: "p ! 0 = word_of_nat n" "n = 2 \<or> n = 3" by blast
      have "DecompressScript D n q = Some s" using a q n
        by (auto simp: DecompressScript_def) 
      then show ?thesis using special_read [of n q D s old rest] n q(2) c
        by (auto simp: nSpecialScripts_def GetSpecialScriptSize_def)
    next
      assume a: "length p = 65 \<and> p ! 0 = 0x04 \<and> V p \<and> s = 65 # p @ [OP_CHECKSIG]"
      let ?q = "take 32 (drop 1 p)"
      have q: "length ?q = 32" using a by simp
      have c: "c = (0x04 OR (p ! 64 AND 0x01)) # ?q" using assms(2) k h p a by (simp add: CompressScript_def)
      have d: "D ((0x02 OR (p ! 64 AND 0x01)) # ?q) = Some p" using assms(1) a by (simp add: pubkeys_ok_def)
      obtain n where n: "0x04 OR (p ! 64 AND 0x01) = (word_of_nat n :: u8)"
          "0x02 OR (p ! 64 AND 0x01) = (word_of_nat (n - 2) :: u8)" "n = 4 \<or> n = 5"
        using parity_byte [of "p ! 64"] by blast
      have "DecompressScript D n ?q = Some s"
        using d a n q by (auto simp: DecompressScript_def)
      then show ?thesis using special_read [of n ?q D s old rest] n q unfolding c n(1)
        by (auto simp: nSpecialScripts_def GetSpecialScriptSize_def)
    qed
  qed
qed

lemma script_compression_rt:
  assumes "pubkeys_ok V D" "length s \<le> MAX_SCRIPT_SIZE"
  shows "ScriptCompression_Unser D old (ScriptCompression_Ser V s @ rest) = Inr (s, rest)"
proof (cases "CompressScript V s")
  case None
  let ?n = "length s + nSpecialScripts"
  have "?n \<le> 2 ^ 32 - 1" using assms(2) by (simp add: MAX_SCRIPT_SIZE_def nSpecialScripts_def)
  from varint32.round_trip [OF this, of "s @ rest"] show ?thesis
    using None assms(2)
    by (simp add: ScriptCompression_Ser_def ScriptCompression_Unser_def rbind_Inr read_bytes_append)
next
  case (Some c)
  then show ?thesis using CompressScript_rt [OF assms(1) Some] by (simp add: ScriptCompression_Ser_def)
qed

subsection \<open>Outputs and coins\<close>

definition to_int64 :: "nat \<Rightarrow> int" where
  "to_int64 n = sint (word_of_nat n :: u64)"

definition AmountCompression_Ser :: "CAmount \<Rightarrow> bytes" where
  "AmountCompression_Ser val = WriteVarInt (CompressAmount (unat (word_of_int val :: u64)))"

definition AmountCompression_Unser :: "CAmount reader" where
  "AmountCompression_Unser = rbind (ReadVarInt (2 ^ 64 - 1)) (\<lambda>v. rret (to_int64 (DecompressAmount v)))"

definition TxOutCompression_Ser :: "(bytes \<Rightarrow> bool) \<Rightarrow> CTxOut \<Rightarrow> bytes" where
  "TxOutCompression_Ser V txout = AmountCompression_Ser (nValue txout) @ ScriptCompression_Ser V (scriptPubKey txout)"

definition TxOutCompression_Unser :: "(bytes \<Rightarrow> bytes option) \<Rightarrow> CTxOut \<Rightarrow> CTxOut reader" where
  "TxOutCompression_Unser D txout = rbind AmountCompression_Unser (\<lambda>v.
     rbind (ScriptCompression_Unser D (scriptPubKey txout)) (\<lambda>s. rret \<lparr>nValue = v, scriptPubKey = s\<rparr>))"

record Coin =
  coin_out :: CTxOut
  fCoinBase :: bool
  coin_nHeight :: u32

text \<open>\<^verbatim>\<open>nHeight\<close> is a field of 31 bits.\<close>

definition make_Coin :: "CTxOut \<Rightarrow> int \<Rightarrow> bool \<Rightarrow> Coin" where
  "make_Coin outIn nHeightIn fCoinBaseIn =
    \<lparr>coin_out = outIn, fCoinBase = fCoinBaseIn, coin_nHeight = take_bit 31 (word_of_int nHeightIn)\<rparr>"

definition Coin_Clear :: Coin where
  "Coin_Clear = \<lparr>coin_out = CTxOut_SetNull, fCoinBase = False, coin_nHeight = 0\<rparr>"

definition Coin_IsSpent :: "Coin \<Rightarrow> bool" where
  "Coin_IsSpent c \<longleftrightarrow> CTxOut_IsNull (coin_out c)"

datatype coin_error = SpentCoinSerialized

definition Coin_Serialize :: "(bytes \<Rightarrow> bool) \<Rightarrow> Coin \<Rightarrow> coin_error + bytes" where
  "Coin_Serialize V c =
    (if Coin_IsSpent c then Inl SpentCoinSerialized
     else let code = coin_nHeight c * 2 + (if fCoinBase c then 1 else 0)
          in Inr (WriteVarInt (unat code) @ TxOutCompression_Ser V (coin_out c)))"

definition Coin_Unserialize :: "(bytes \<Rightarrow> bytes option) \<Rightarrow> Coin \<Rightarrow> Coin reader" where
  "Coin_Unserialize D c = rbind (ReadVarInt (2 ^ 32 - 1)) (\<lambda>code.
     let w = word_of_nat code :: u32 in
     rbind (TxOutCompression_Unser D (coin_out c)) (\<lambda>txout.
       rret \<lparr>coin_out = txout, fCoinBase = (w AND 1 \<noteq> 0), coin_nHeight = drop_bit 1 w\<rparr>))"

definition Coin_ok :: "Coin \<Rightarrow> bool" where
  "Coin_ok c \<longleftrightarrow> 0 \<le> nValue (coin_out c) \<and> nValue (coin_out c) < 2 ^ 60
     \<and> length (scriptPubKey (coin_out c)) \<le> MAX_SCRIPT_SIZE \<and> unat (coin_nHeight c) < 2 ^ 31"

lemma to_int64_nat: "n < 2 ^ 63 \<Longrightarrow> to_int64 n = int n"
  by (simp add: to_int64_def signed_of_nat signed_take_bit_int_eq_self)

lemma amount_rt:
  assumes "0 \<le> v" "v < 2 ^ 60"
  shows "AmountCompression_Unser (AmountCompression_Ser v @ rest) = Inr (v, rest)"
proof -
  define n where "n = unat (word_of_int v :: u64)"
  have "int n = v" using assms unfolding n_def by (simp add: unsigned_of_int take_bit_int_eq_self)
  then have v: "v = int n" and "int n < 2 ^ 60" using assms(2) by simp_all
  have "n < 2 ^ 60" using \<open>int n < 2 ^ 60\<close> by simp
  note n = n_def [symmetric] v this
  have "ReadVarInt (2 ^ 64 - 1) (WriteVarInt (CompressAmount n) @ rest) = Inr (CompressAmount n, rest)"
    by (rule varint64.round_trip) (rule amount_round_trip(2) [OF n(3)])
  moreover have "to_int64 n = int n" using n(3) by (intro to_int64_nat) simp
  ultimately show ?thesis using n amount_round_trip(1) [OF n(3)]
    by (simp add: AmountCompression_Unser_def AmountCompression_Ser_def)
qed

interpretation amountc: codec "\<lambda>v. 0 \<le> v \<and> v < 2 ^ 60" AmountCompression_Ser AmountCompression_Unser
  by unfold_locales (use amount_rt in blast)

lemma txout_compression_rt:
  assumes "pubkeys_ok V D" "0 \<le> nValue t" "nValue t < 2 ^ 60" "length (scriptPubKey t) \<le> MAX_SCRIPT_SIZE"
  shows "TxOutCompression_Unser D old (TxOutCompression_Ser V t @ rest) = Inr (t, rest)"
  using amountc.round_trip [of "nValue t"] script_compression_rt [OF assms(1,4)] assms(2,3)
  by (simp add: TxOutCompression_Unser_def TxOutCompression_Ser_def)

lemma coin_code:
  fixes h w :: u32
  assumes "unat h < 2 ^ 31" and w_def: "w = h * 2 + (if b then 1 else 0)"
  shows "w AND 1 \<noteq> 0 \<longleftrightarrow> b" "drop_bit 1 w = h"
proof -
  have u: "unat w = 2 * unat h + (if b then 1 else 0)"
    using assms by (simp add: w_def unat_word_ariths)
  have "unat (drop_bit 1 w) = unat w div 2" using unat_drop_bit_div [of 1 w] by simp
  then show "drop_bit 1 w = h" using u by (intro unat_eqI) simp
  have "w AND 1 = take_bit 1 w" by (simp add: take_bit_eq_mask)
  then have "unat (w AND 1) = unat w mod 2" using unat_take_bit_mod [of 1 w] by simp
  then have "unat (w AND 1) = (if b then 1 else 0)" unfolding u by simp
  then show "w AND 1 \<noteq> 0 \<longleftrightarrow> b" by (cases b) (auto simp: unat_eq_zero)
qed

text \<open>
  C18.  The coin database format: with a key library that recovers valid keys, every unspent coin of an
  amount below 2^60 and a script of at most 10000 bytes is read back exactly from its compressed form,
  whatever follows it and whatever object it is read into.
\<close>

theorem Coin_round_trip:
  assumes "pubkeys_ok V D" "Coin_ok c"
  shows "\<exists>b. Coin_Serialize V c = Inr b \<and> Coin_Unserialize D old (b @ rest) = Inr (c, rest)"
proof -
  let ?w = "coin_nHeight c * 2 + (if fCoinBase c then 1 else 0)"
  have "\<not> Coin_IsSpent c" using assms(2) by (auto simp: Coin_ok_def Coin_IsSpent_def CTxOut_IsNull_def)
  moreover have "TxOutCompression_Unser D o1 (TxOutCompression_Ser V (coin_out c) @ rest) = Inr (coin_out c, rest)" for o1
    using txout_compression_rt [OF assms(1)] assms(2) by (simp add: Coin_ok_def)
  moreover have "ReadVarInt (2 ^ 32 - 1) (WriteVarInt (unat ?w) @ s) = Inr (unat ?w, s)" for s
    by (rule varint32.round_trip) (use unat_u32_less [of ?w] in simp)
  moreover have "?w AND 1 \<noteq> 0 \<longleftrightarrow> fCoinBase c" "drop_bit 1 ?w = coin_nHeight c"
    using coin_code [of "coin_nHeight c" ?w "fCoinBase c", OF _ refl] assms(2) by (simp_all only: Coin_ok_def)
  ultimately show ?thesis
    by (simp add: Coin_Serialize_def Coin_Unserialize_def Let_def del: One_nat_def)
qed

definition demo_pubkey :: bytes where
  "demo_pubkey = 4 # replicate 63 5 @ [6]"

theorem Coin_round_trip_witness:
  "\<exists>b. Coin_Serialize (\<lambda>k. k = demo_pubkey)
      \<lparr>coin_out = \<lparr>nValue = 5000000000, scriptPubKey = 65 # demo_pubkey @ [OP_CHECKSIG]\<rparr>, fCoinBase = True, coin_nHeight = 7\<rparr>
      = Inr b"
proof -
  have "pubkeys_ok (\<lambda>k. k = demo_pubkey) (\<lambda>c. Some demo_pubkey)" by (simp add: pubkeys_ok_def)
  from Coin_round_trip [OF this, of "\<lparr>coin_out = \<lparr>nValue = 5000000000, scriptPubKey = 65 # demo_pubkey @ [OP_CHECKSIG]\<rparr>,
      fCoinBase = True, coin_nHeight = 7\<rparr>"]
  show ?thesis by (auto simp: Coin_ok_def demo_pubkey_def MAX_SCRIPT_SIZE_def)
qed

end
