(* ===== verification/Coins.thy ===== *)
theory Coins
  imports Compressor "HOL-Library.AList"
begin

text \<open>
  The unspent-output cache: \<^verbatim>\<open>coins.{h,cpp}\<close>.  A view answers for an outpoint with an unspent coin or not at
  all; a cache holds entries flagged DIRTY and FRESH over a base view and writes them back in one batch.
  The map is an association list in iteration order.  A base is seen through its answers: that a base
  which is itself a cache may fetch while it answers does not change them.  The memory use of a coin
  is a parameter; accounting is modulo 2^64.
\<close>

subsection \<open>State\<close>

record CCoinsCacheEntry =
  ce_coin :: Coin
  ce_dirty :: bool
  ce_fresh :: bool

type_synonym CCoinsMap = "(COutPoint \<times> CCoinsCacheEntry) list"
type_synonym coins_view = "COutPoint \<Rightarrow> Coin option"

record CCoinsViewCache =
  hashBlock :: uint256
  cacheCoins :: CCoinsMap
  cachedCoinsUsage :: u64

datatype coins_error = SpentCoinAdded | OverwriteUnspent | FreshMisapplied | NotAllErased

definition coinEmpty :: Coin where
  "coinEmpty = \<lparr>coin_out = CTxOut_SetNull, fCoinBase = False, coin_nHeight = 0\<rparr>"

definition make_CCoinsViewCache :: CCoinsViewCache where
  "make_CCoinsViewCache = \<lparr>hashBlock = replicate 32 0, cacheCoins = [], cachedCoinsUsage = 0\<rparr>"

subsection \<open>Reading\<close>

definition FetchCoin ::
  "(Coin \<Rightarrow> u64) \<Rightarrow> coins_view \<Rightarrow> CCoinsViewCache \<Rightarrow> COutPoint \<Rightarrow> CCoinsCacheEntry option \<times> CCoinsViewCache" where
  "FetchCoin usage base c outpoint =
    (case map_of (cacheCoins c) outpoint of Some e \<Rightarrow> (Some e, c)
     | None \<Rightarrow> (case base outpoint of None \<Rightarrow> (None, c)
       | Some tmp \<Rightarrow>
         let e = \<lparr>ce_coin = tmp, ce_dirty = False, ce_fresh = Coin_IsSpent tmp\<rparr>
         in (Some e, c\<lparr>cacheCoins := AList.update outpoint e (cacheCoins c),
                       cachedCoinsUsage := cachedCoinsUsage c + usage tmp\<rparr>)))"

definition GetCoin ::
  "(Coin \<Rightarrow> u64) \<Rightarrow> coins_view \<Rightarrow> CCoinsViewCache \<Rightarrow> COutPoint \<Rightarrow> Coin option \<times> CCoinsViewCache" where
  "GetCoin usage base c outpoint =
    (let (it, c) = FetchCoin usage base c outpoint in
     (case it of Some e \<Rightarrow> if \<not> Coin_IsSpent (ce_coin e) then Some (ce_coin e) else None | None \<Rightarrow> None, c))"

definition AccessCoin ::
  "(Coin \<Rightarrow> u64) \<Rightarrow> coins_view \<Rightarrow> CCoinsViewCache \<Rightarrow> COutPoint \<Rightarrow> Coin \<times> CCoinsViewCache" where
  "AccessCoin usage base c outpoint =
    (let (it, c) = FetchCoin usage base c outpoint in
     (case it of None \<Rightarrow> coinEmpty | Some e \<Rightarrow> ce_coin e, c))"

definition HaveCoin ::
  "(Coin \<Rightarrow> u64) \<Rightarrow> coins_view \<Rightarrow> CCoinsViewCache \<Rightarrow> COutPoint \<Rightarrow> bool \<times> CCoinsViewCache" where
  "HaveCoin usage base c outpoint =
    (let (it, c) = FetchCoin usage base c outpoint in
     (case it of None \<Rightarrow> False | Some e \<Rightarrow> \<not> Coin_IsSpent (ce_coin e), c))"

definition HaveCoinInCache :: "CCoinsViewCache \<Rightarrow> COutPoint \<Rightarrow> bool" where
  "HaveCoinInCache c outpoint =
    (case map_of (cacheCoins c) outpoint of None \<Rightarrow> False | Some e \<Rightarrow> \<not> Coin_IsSpent (ce_coin e))"

definition GetBestBlock :: "uint256 \<Rightarrow> CCoinsViewCache \<Rightarrow> uint256 \<times> CCoinsViewCache" where
  "GetBestBlock base_best c =
    (let c = (if blob_IsNull (hashBlock c) then c\<lparr>hashBlock := base_best\<rparr> else c) in (hashBlock c, c))"

definition SetBestBlock :: "uint256 \<Rightarrow> CCoinsViewCache \<Rightarrow> CCoinsViewCache" where
  "SetBestBlock h c = c\<lparr>hashBlock := h\<rparr>"

definition GetCacheSize :: "CCoinsViewCache \<Rightarrow> nat" where
  "GetCacheSize c = length (cacheCoins c)"

fun have_inputs ::
  "(Coin \<Rightarrow> u64) \<Rightarrow> coins_view \<Rightarrow> CCoinsViewCache \<Rightarrow> CTxIn list \<Rightarrow> bool \<times> CCoinsViewCache" where
  "have_inputs usage base c [] = (True, c)"
| "have_inputs usage base c (txin # ins) =
    (let (b, c) = HaveCoin usage base c (prevout txin) in
     if \<not> b then (False, c) else have_inputs usage base c ins)"

definition HaveInputs ::
  "(Coin \<Rightarrow> u64) \<Rightarrow> coins_view \<Rightarrow> CCoinsViewCache \<Rightarrow> CTransaction \<Rightarrow> bool \<times> CCoinsViewCache" where
  "HaveInputs usage base c tx = (if \<not> IsCoinBase tx then have_inputs usage base c (vin tx) else (True, c))"

subsection \<open>Changing\<close>

text \<open>An exception leaves the changes made before it, so every result carries the state.\<close>

definition AddCoin ::
  "(Coin \<Rightarrow> u64) \<Rightarrow> CCoinsViewCache \<Rightarrow> COutPoint \<Rightarrow> Coin \<Rightarrow> bool \<Rightarrow> coins_error option \<times> CCoinsViewCache" where
  "AddCoin usage c outpoint coin possible_overwrite =
    (if Coin_IsSpent coin then (Some SpentCoinAdded, c)
     else if IsUnspendable (scriptPubKey (coin_out coin)) then (None, c)
     else
       let inserted = (map_of (cacheCoins c) outpoint = None);
           it = (case map_of (cacheCoins c) outpoint of Some e \<Rightarrow> e
                 | None \<Rightarrow> \<lparr>ce_coin = coinEmpty, ce_dirty = False, ce_fresh = False\<rparr>);
           c = c\<lparr>cacheCoins := AList.update outpoint it (cacheCoins c)\<rparr>;
           c = (if \<not> inserted then c\<lparr>cachedCoinsUsage := cachedCoinsUsage c - usage (ce_coin it)\<rparr> else c)
       in if \<not> possible_overwrite \<and> \<not> Coin_IsSpent (ce_coin it) then (Some OverwriteUnspent, c)
       else
         let fresh = (\<not> possible_overwrite \<and> \<not> ce_dirty it);
             it = \<lparr>ce_coin = coin, ce_dirty = True, ce_fresh = ce_fresh it \<or> fresh\<rparr>
         in (None, c\<lparr>cacheCoins := AList.update outpoint it (cacheCoins c),
                     cachedCoinsUsage := cachedCoinsUsage c + usage coin\<rparr>))"

definition EmplaceCoinInternalDANGER ::
  "(Coin \<Rightarrow> u64) \<Rightarrow> CCoinsViewCache \<Rightarrow> COutPoint \<Rightarrow> Coin \<Rightarrow> CCoinsViewCache" where
  "EmplaceCoinInternalDANGER usage c outpoint coin =
    (let c = c\<lparr>cachedCoinsUsage := cachedCoinsUsage c + usage coin\<rparr> in
     case map_of (cacheCoins c) outpoint of Some _ \<Rightarrow> c
     | None \<Rightarrow> c\<lparr>cacheCoins := AList.update outpoint \<lparr>ce_coin = coin, ce_dirty = True, ce_fresh = False\<rparr> (cacheCoins c)\<rparr>)"

fun add_outputs ::
  "(Coin \<Rightarrow> u64) \<Rightarrow> coins_view \<Rightarrow> uint256 \<Rightarrow> bool \<Rightarrow> int \<Rightarrow> bool \<Rightarrow> nat \<Rightarrow> CTxOut list \<Rightarrow> CCoinsViewCache
     \<Rightarrow> coins_error option \<times> CCoinsViewCache" where
  "add_outputs usage base txid fCoinbase height check i [] c = (None, c)"
| "add_outputs usage base txid fCoinbase height check i (txout # outs) c =
    (let op = \<lparr>op_hash = txid, op_n = word_of_nat i\<rparr>;
         (overwrite, c) = (if check then HaveCoin usage base c op else (fCoinbase, c))
     in case AddCoin usage c op (make_Coin txout height fCoinbase) overwrite of
          (Some e, c) \<Rightarrow> (Some e, c)
        | (None, c) \<Rightarrow> add_outputs usage base txid fCoinbase height check (i + 1) outs c)"

definition AddCoins ::
  "(Coin \<Rightarrow> u64) \<Rightarrow> coins_view \<Rightarrow> (bytes \<Rightarrow> uint256) \<Rightarrow> CCoinsViewCache \<Rightarrow> CTransaction \<Rightarrow> int \<Rightarrow> bool
     \<Rightarrow> coins_error option \<times> CCoinsViewCache" where
  "AddCoins usage base hash256d c tx height check_for_overwrite =
    add_outputs usage base (GetHash hash256d tx) (IsCoinBase tx) height check_for_overwrite 0 (vout tx) c"

definition SpendCoin ::
  "(Coin \<Rightarrow> u64) \<Rightarrow> coins_view \<Rightarrow> CCoinsViewCache \<Rightarrow> COutPoint \<Rightarrow> Coin option \<times> CCoinsViewCache" where
  "SpendCoin usage base c outpoint =
    (let (it, c) = FetchCoin usage base c outpoint in
     case it of None \<Rightarrow> (None, c)
     | Some e \<Rightarrow>
       let c = c\<lparr>cachedCoinsUsage := cachedCoinsUsage c - usage (ce_coin e)\<rparr>
       in if ce_fresh e then (Some (ce_coin e), c\<lparr>cacheCoins := AList.delete outpoint (cacheCoins c)\<rparr>)
          else (Some (ce_coin e),
                c\<lparr>cacheCoins := AList.update outpoint (e\<lparr>ce_coin := Coin_Clear, ce_dirty := True\<rparr>) (cacheCoins c)\<rparr>))"

definition Uncache :: "(Coin \<Rightarrow> u64) \<Rightarrow> CCoinsViewCache \<Rightarrow> COutPoint \<Rightarrow> CCoinsViewCache" where
  "Uncache usage c outpoint =
    (case map_of (cacheCoins c) outpoint of None \<Rightarrow> c
     | Some e \<Rightarrow>
       if \<not> ce_dirty e \<and> \<not> ce_fresh e
       then c\<lparr>cachedCoinsUsage := cachedCoinsUsage c - usage (ce_coin e),
              cacheCoins := AList.delete outpoint (cacheCoins c)\<rparr>
       else c)"

subsection \<open>Writing back\<close>

definition write_entry ::
  "(Coin \<Rightarrow> u64) \<Rightarrow> CCoinsViewCache \<Rightarrow> COutPoint \<Rightarrow> CCoinsCacheEntry \<Rightarrow> coins_error + CCoinsViewCache" where
  "write_entry usage c k e =
    (if \<not> ce_dirty e then Inr c
     else case map_of (cacheCoins c) k of
       None \<Rightarrow>
         if \<not> (ce_fresh e \<and> Coin_IsSpent (ce_coin e))
         then Inr (c\<lparr>cacheCoins := AList.update k \<lparr>ce_coin = ce_coin e, ce_dirty = True, ce_fresh = ce_fresh e\<rparr> (cacheCoins c),
                     cachedCoinsUsage := cachedCoinsUsage c + usage (ce_coin e)\<rparr>)
         else Inr c
     | Some us \<Rightarrow>
         if ce_fresh e \<and> \<not> Coin_IsSpent (ce_coin us) then Inl FreshMisapplied
         else if ce_fresh us \<and> Coin_IsSpent (ce_coin e)
         then Inr (c\<lparr>cachedCoinsUsage := cachedCoinsUsage c - usage (ce_coin us),
                     cacheCoins := AList.delete k (cacheCoins c)\<rparr>)
         else Inr (c\<lparr>cachedCoinsUsage := cachedCoinsUsage c - usage (ce_coin us) + usage (ce_coin e),
                     cacheCoins := AList.update k (us\<lparr>ce_coin := ce_coin e, ce_dirty := True\<rparr>) (cacheCoins c)\<rparr>))"

fun write_entries ::
  "(Coin \<Rightarrow> u64) \<Rightarrow> bool \<Rightarrow> CCoinsViewCache \<Rightarrow> CCoinsMap \<Rightarrow> coins_error option \<times> CCoinsMap \<times> CCoinsViewCache" where
  "write_entries usage erase c [] = (None, [], c)"
| "write_entries usage erase c ((k, e) # m) =
    (case write_entry usage c k e of Inl err \<Rightarrow> (Some err, (k, e) # m, c)
     | Inr c \<Rightarrow>
        let (r, m', c) = write_entries usage erase c m in (r, if erase then m' else (k, e) # m', c))"

definition BatchWrite ::
  "(Coin \<Rightarrow> u64) \<Rightarrow> CCoinsViewCache \<Rightarrow> CCoinsMap \<Rightarrow> uint256 \<Rightarrow> bool
     \<Rightarrow> (coins_error + bool) \<times> CCoinsMap \<times> CCoinsViewCache" where
  "BatchWrite usage c mapCoins hashBlockIn erase =
    (case write_entries usage erase c mapCoins of
       (Some err, m, c) \<Rightarrow> (Inl err, m, c)
     | (None, m, c) \<Rightarrow> (Inr True, m, c\<lparr>hashBlock := hashBlockIn\<rparr>))"

text \<open>The base is reached through its \<^verbatim>\<open>BatchWrite\<close>.\<close>

type_synonym 's batch_write =
  "'s \<Rightarrow> CCoinsMap \<Rightarrow> uint256 \<Rightarrow> bool \<Rightarrow> (coins_error + bool) \<times> CCoinsMap \<times> 's"

definition Flush :: "'s batch_write \<Rightarrow> 's \<Rightarrow> CCoinsViewCache \<Rightarrow> (coins_error + bool) \<times> 's \<times> CCoinsViewCache" where
  "Flush base_BatchWrite s c =
    (let (r, m, s) = base_BatchWrite s (cacheCoins c) (hashBlock c) True; c = c\<lparr>cacheCoins := m\<rparr> in
     case r of Inl e \<Rightarrow> (Inl e, s, c)
     | Inr fOk \<Rightarrow>
        if fOk \<and> cacheCoins c \<noteq> [] then (Inl NotAllErased, s, c)
        else (Inr fOk, s, c\<lparr>cachedCoinsUsage := 0\<rparr>))"

fun sync_entries :: "(Coin \<Rightarrow> u64) \<Rightarrow> CCoinsMap \<Rightarrow> u64 \<Rightarrow> CCoinsMap \<times> u64" where
  "sync_entries usage [] u = ([], u)"
| "sync_entries usage ((k, e) # m) u =
    (if Coin_IsSpent (ce_coin e) then sync_entries usage m (u - usage (ce_coin e))
     else let (m, u) = sync_entries usage m u in ((k, e\<lparr>ce_dirty := False, ce_fresh := False\<rparr>) # m, u))"

definition Sync ::
  "(Coin \<Rightarrow> u64) \<Rightarrow> 's batch_write \<Rightarrow> 's \<Rightarrow> CCoinsViewCache \<Rightarrow> (coins_error + bool) \<times> 's \<times> CCoinsViewCache" where
  "Sync usage base_BatchWrite s c =
    (let (r, m, s) = base_BatchWrite s (cacheCoins c) (hashBlock c) False; c = c\<lparr>cacheCoins := m\<rparr> in
     case r of Inl e \<Rightarrow> (Inl e, s, c)
     | Inr fOk \<Rightarrow>
        let (m, u) = sync_entries usage (cacheCoins c) (cachedCoinsUsage c)
        in (Inr fOk, s, c\<lparr>cacheCoins := m, cachedCoinsUsage := u\<rparr>))"

definition entry_attr :: "CCoinsCacheEntry \<Rightarrow> nat" where
  "entry_attr e = (if ce_dirty e then 1 else 0) + (if ce_fresh e then 2 else 0)
     + (if Coin_IsSpent (ce_coin e) then 4 else 0)"

definition SanityCheck :: "(Coin \<Rightarrow> u64) \<Rightarrow> CCoinsViewCache \<Rightarrow> bool" where
  "SanityCheck usage c \<longleftrightarrow>
    list_all (\<lambda>(_, e). entry_attr e \<noteq> 2 \<and> entry_attr e \<noteq> 4 \<and> entry_attr e \<noteq> 7) (cacheCoins c)
    \<and> sum_list (map (\<lambda>(_, e). usage (ce_coin e)) (cacheCoins c)) = cachedCoinsUsage c"

subsection \<open>What a cache stands for\<close>

definition entry_view :: "CCoinsCacheEntry \<Rightarrow> Coin option" where
  "entry_view e = (if Coin_IsSpent (ce_coin e) then None else Some (ce_coin e))"

definition coins :: "coins_view \<Rightarrow> CCoinsMap \<Rightarrow> coins_view" where
  "coins base m outpoint = (case map_of m outpoint of None \<Rightarrow> base outpoint | Some e \<Rightarrow> entry_view e)"

definition view_ok :: "coins_view \<Rightarrow> bool" where
  "view_ok base \<longleftrightarrow> (\<forall>outpoint coin. base outpoint = Some coin \<longrightarrow> \<not> Coin_IsSpent coin)"

text \<open>FRESH: the base has no such coin.  Not DIRTY: the entry agrees with the base.\<close>

definition entry_ok :: "coins_view \<Rightarrow> COutPoint \<Rightarrow> CCoinsCacheEntry \<Rightarrow> bool" where
  "entry_ok base outpoint e \<longleftrightarrow> entry_attr e \<noteq> 2 \<and> entry_attr e \<noteq> 4 \<and> entry_attr e \<noteq> 7
     \<and> (ce_fresh e \<longrightarrow> base outpoint = None) \<and> (\<not> ce_dirty e \<longrightarrow> base outpoint = entry_view e)"

definition entries_ok :: "coins_view \<Rightarrow> CCoinsMap \<Rightarrow> bool" where
  "entries_ok base m \<longleftrightarrow> distinct (map fst m)
     \<and> (\<forall>outpoint e. map_of m outpoint = Some e \<longrightarrow> entry_ok base outpoint e)"

definition usage_sum :: "(Coin \<Rightarrow> u64) \<Rightarrow> CCoinsMap \<Rightarrow> u64" where
  "usage_sum usage m = sum_list (map (\<lambda>(_, e). usage (ce_coin e)) m)"

definition cache_inv :: "(Coin \<Rightarrow> u64) \<Rightarrow> coins_view \<Rightarrow> CCoinsViewCache \<Rightarrow> bool" where
  "cache_inv usage base c \<longleftrightarrow> view_ok base \<and> entries_ok base (cacheCoins c)
     \<and> usage_sum usage (cacheCoins c) = cachedCoinsUsage c"

lemmas alist_simps = update_conv' delete_conv' distinct_update distinct_delete

lemma spent_empty [simp]: "Coin_IsSpent coinEmpty" "Coin_IsSpent Coin_Clear"
  by (simp_all add: coinEmpty_def Coin_Clear_def Coin_IsSpent_def CTxOut_IsNull_def CTxOut_SetNull_def)

lemma usage_sum_simps [simp]:
  "usage_sum u [] = 0" "usage_sum u ((k, e) # m) = u (ce_coin e) + usage_sum u m"
  by (simp_all add: usage_sum_def)

lemma usage_sum_update:
  "usage_sum u (AList.update k e m) =
     usage_sum u m - (case map_of m k of None \<Rightarrow> 0 | Some e' \<Rightarrow> u (ce_coin e')) + u (ce_coin e)"
  by (induction m) (auto simp: algebra_simps)

lemma usage_sum_delete:
  "distinct (map fst m) \<Longrightarrow>
   usage_sum u (AList.delete k m) = usage_sum u m - (case map_of m k of None \<Rightarrow> 0 | Some e' \<Rightarrow> u (ce_coin e'))"
proof (induction m)
  case (Cons p m)
  obtain a e where p: "p = (a, e)" by (cases p)
  show ?case
  proof (cases "a = k")
    case True
    then have "k \<notin> fst ` set m" using Cons.prems p by (simp add: image_def)
    then show ?thesis using True p by (simp add: delete_id)
  next
    case False
    then show ?thesis using Cons p by (simp add: algebra_simps)
  qed
qed simp

lemma entries_ok_update:
  "entries_ok base m \<Longrightarrow> entry_ok base k e \<Longrightarrow> entries_ok base (AList.update k e m)"
  by (simp add: entries_ok_def alist_simps)

lemma entries_ok_delete: "entries_ok base m \<Longrightarrow> entries_ok base (AList.delete k m)"
  by (simp add: entries_ok_def alist_simps)

lemma coins_update: "coins base (AList.update k e m) = (coins base m)(k := entry_view e)"
  by (auto simp: coins_def update_conv' fun_eq_iff)

lemma coins_delete: "coins base (AList.delete k m) = (coins base m)(k := base k)"
  by (auto simp: coins_def delete_conv' fun_eq_iff)

lemma coins_in: "map_of m k = Some e \<Longrightarrow> coins base m k = entry_view e"
  by (simp add: coins_def)

lemma coins_notin: "map_of m k = None \<Longrightarrow> coins base m k = base k"
  by (simp add: coins_def)

lemma coins_ok: "view_ok base \<Longrightarrow> view_ok (coins base m)"
  by (auto simp: view_ok_def coins_def entry_view_def split: option.splits if_splits)

lemma entries_okD: "entries_ok base m \<Longrightarrow> map_of m k = Some e \<Longrightarrow> entry_ok base k e"
  by (simp add: entries_ok_def)

lemma cache_inv_SanityCheck: "cache_inv usage base c \<Longrightarrow> SanityCheck usage c"
proof -
  assume i: "cache_inv usage base c"
  have "entry_attr e \<noteq> 2 \<and> entry_attr e \<noteq> 4 \<and> entry_attr e \<noteq> 7" if "(k, e) \<in> set (cacheCoins c)" for k e
    using i that by (simp add: cache_inv_def entries_ok_def entry_ok_def map_of_is_SomeI)
  then show ?thesis using i by (auto simp: SanityCheck_def list_all_iff cache_inv_def usage_sum_def)
qed

subsection \<open>Every operation\<close>

lemma FetchCoin_correct:
  assumes "cache_inv usage base c" "FetchCoin usage base c k = (it, c')"
  shows "cache_inv usage base c'" "coins base (cacheCoins c') = coins base (cacheCoins c)"
    "it = map_of (cacheCoins c') k" "coins base (cacheCoins c) k = (case it of None \<Rightarrow> None | Some e \<Rightarrow> entry_view e)"
    "it = None \<Longrightarrow> c' = c"
proof -
  have "cache_inv usage base c' \<and> coins base (cacheCoins c') = coins base (cacheCoins c) \<and>
    it = map_of (cacheCoins c') k \<and> coins base (cacheCoins c) k = (case it of None \<Rightarrow> None | Some e \<Rightarrow> entry_view e)
    \<and> (it = None \<longrightarrow> c' = c)"
  proof (cases "map_of (cacheCoins c) k")
    case None
    show ?thesis
    proof (cases "base k")
      case (Some tmp)
      let ?e = "\<lparr>ce_coin = tmp, ce_dirty = False, ce_fresh = Coin_IsSpent tmp\<rparr>"
      have "\<not> Coin_IsSpent tmp" using assms(1) Some by (auto simp: cache_inv_def view_ok_def)
      then have e: "entry_view ?e = Some tmp" "entry_ok base k ?e"
        using Some by (simp_all add: entry_view_def entry_ok_def entry_attr_def)
      have c: "it = Some ?e" "c' = c\<lparr>cacheCoins := AList.update k ?e (cacheCoins c),
          cachedCoinsUsage := cachedCoinsUsage c + usage tmp\<rparr>"
        using assms(2) None Some by (simp_all add: FetchCoin_def Let_def)
      show ?thesis using assms(1) e None Some unfolding c
        by (auto simp: cache_inv_def entries_ok_update usage_sum_update coins_update coins_notin update_conv')
    qed (use assms None in \<open>auto simp: FetchCoin_def coins_def\<close>)
  next
    case (Some e)
    then have "it = Some e" "c' = c" using assms(2) by (simp_all add: FetchCoin_def)
    then show ?thesis using assms(1) Some by (simp add: coins_def)
  qed
  then show "cache_inv usage base c'" "coins base (cacheCoins c') = coins base (cacheCoins c)"
    "it = map_of (cacheCoins c') k" "coins base (cacheCoins c) k = (case it of None \<Rightarrow> None | Some e \<Rightarrow> entry_view e)"
    "it = None \<Longrightarrow> c' = c" by blast+
qed

lemma AddCoin_correct:
  assumes "cache_inv usage base c" "\<not> Coin_IsSpent coin" "\<not> IsUnspendable (scriptPubKey (coin_out coin))"
    "overwrite \<or> coins base (cacheCoins c) k = None"
  obtains c' where "AddCoin usage c k coin overwrite = (None, c')" "cache_inv usage base c'"
    "coins base (cacheCoins c') = (coins base (cacheCoins c))(k \<mapsto> coin)"
proof -
  let ?it = "case map_of (cacheCoins c) k of Some e \<Rightarrow> e
      | None \<Rightarrow> \<lparr>ce_coin = coinEmpty, ce_dirty = False, ce_fresh = False\<rparr>"
  let ?e = "\<lparr>ce_coin = coin, ce_dirty = True, ce_fresh = ce_fresh ?it \<or> \<not> overwrite \<and> \<not> ce_dirty ?it\<rparr>"
  let ?u = "cachedCoinsUsage c - (case map_of (cacheCoins c) k of None \<Rightarrow> 0 | Some e \<Rightarrow> usage (ce_coin e)) + usage coin"
  have s: "overwrite \<or> Coin_IsSpent (ce_coin ?it)"
    using assms(4) by (auto simp: coins_def entry_view_def split: option.splits if_splits)
  have a: "AddCoin usage c k coin overwrite =
      (None, c\<lparr>cacheCoins := AList.update k ?e (cacheCoins c), cachedCoinsUsage := ?u\<rparr>)"
    using assms(2,3) s by (auto simp: AddCoin_def Let_def split: option.splits)
  have e: "entry_ok base k ?e"
  proof -
    have "ce_fresh ?it \<Longrightarrow> base k = None"
      using assms(1) by (auto simp: cache_inv_def entries_ok_def entry_ok_def split: option.splits)
    moreover have "base k = None" if "\<not> overwrite" "\<not> ce_dirty ?it"
    proof (cases "map_of (cacheCoins c) k")
      case None
      then show ?thesis using assms(4) that by (simp add: coins_def)
    next
      case (Some e)
      then have "entry_ok base k e" using assms(1) entries_okD by (auto simp: cache_inv_def)
      then show ?thesis using Some that s by (simp add: entry_ok_def entry_view_def)
    qed
    ultimately show ?thesis using assms(2) by (auto simp: entry_ok_def entry_attr_def)
  qed
  have v: "entry_view ?e = Some coin" using assms(2) by (simp add: entry_view_def)
  show ?thesis
  proof (rule that [OF a])
    show "cache_inv usage base (c\<lparr>cacheCoins := AList.update k ?e (cacheCoins c), cachedCoinsUsage := ?u\<rparr>)"
      using assms(1) entries_ok_update [OF _ e] by (simp add: cache_inv_def usage_sum_update)
    show "coins base (cacheCoins (c\<lparr>cacheCoins := AList.update k ?e (cacheCoins c), cachedCoinsUsage := ?u\<rparr>))
        = (coins base (cacheCoins c))(k \<mapsto> coin)"
      using v by (simp add: coins_update)
  qed
qed

lemma SpendCoin_correct:
  assumes "cache_inv usage base c" "SpendCoin usage base c k = (r, c')" "usage Coin_Clear = 0"
  shows "cache_inv usage base c'" "coins base (cacheCoins c') = (coins base (cacheCoins c))(k := None)"
    "coins base (cacheCoins c) k = Some coin \<Longrightarrow> r = Some coin" "r = None \<Longrightarrow> c' = c"
proof -
  define it c1 where "it = fst (FetchCoin usage base c k)" and "c1 = snd (FetchCoin usage base c k)"
  then have f: "FetchCoin usage base c k = (it, c1)" by simp
  note fc = FetchCoin_correct [OF assms(1) f]
  have "cache_inv usage base c' \<and> coins base (cacheCoins c') = (coins base (cacheCoins c))(k := None)
    \<and> (coins base (cacheCoins c) k = Some coin \<longrightarrow> r = Some coin) \<and> (r = None \<longrightarrow> c' = c)"
  proof (cases it)
    case None
    then have "r = None" "c' = c" using assms(2) f fc(5) by (simp_all add: SpendCoin_def)
    moreover have "coins base (cacheCoins c) k = None" using fc(4) None by simp
    ultimately show ?thesis using assms(1) by (simp add: fun_upd_idem)
  next
    case (Some e)
    then have e: "map_of (cacheCoins c1) k = Some e" "entry_ok base k e"
      using fc(1,3) entries_okD by (auto simp: cache_inv_def)
    have "ce_fresh e \<Longrightarrow> base k = None" using e(2) by (simp add: entry_ok_def)
    moreover have "\<not> ce_fresh e \<Longrightarrow> entry_ok base k (e\<lparr>ce_coin := Coin_Clear, ce_dirty := True\<rparr>)"
      by (simp add: entry_ok_def entry_attr_def)
    moreover have "entry_view (e\<lparr>ce_coin := Coin_Clear, ce_dirty := True\<rparr>) = None" by (simp add: entry_view_def)
    moreover have "distinct (map fst (cacheCoins c1))" using fc(1) by (simp add: cache_inv_def entries_ok_def)
    moreover have "r = Some (ce_coin e)"
      using assms(2) f Some by (simp add: SpendCoin_def Let_def split: if_splits)
    moreover have "cacheCoins c' = (if ce_fresh e then AList.delete k (cacheCoins c1)
          else AList.update k (e\<lparr>ce_coin := Coin_Clear, ce_dirty := True\<rparr>) (cacheCoins c1))"
        "cachedCoinsUsage c' = cachedCoinsUsage c1 - usage (ce_coin e)"
      using assms(2) f Some by (auto simp: SpendCoin_def Let_def split: if_splits)
    ultimately show ?thesis using fc(1,4) Some e assms(3) unfolding fc(2) [symmetric]
      by (cases "ce_fresh e")
        (simp_all add: cache_inv_def entries_ok_delete entries_ok_update coins_update coins_delete
          usage_sum_update usage_sum_delete entry_view_def)
  qed
  then show "cache_inv usage base c'" "coins base (cacheCoins c') = (coins base (cacheCoins c))(k := None)"
    "coins base (cacheCoins c) k = Some coin \<Longrightarrow> r = Some coin" "r = None \<Longrightarrow> c' = c" by blast+
qed

lemma Uncache_correct:
  assumes "cache_inv usage base c"
  shows "cache_inv usage base (Uncache usage c k)"
    "coins base (cacheCoins (Uncache usage c k)) = coins base (cacheCoins c)"
proof -
  have "cache_inv usage base (Uncache usage c k) \<and> coins base (cacheCoins (Uncache usage c k)) = coins base (cacheCoins c)"
  proof (cases "map_of (cacheCoins c) k")
    case (Some e)
    then have "entry_ok base k e" using assms entries_okD by (auto simp: cache_inv_def)
    then have "\<not> ce_dirty e \<Longrightarrow> base k = coins base (cacheCoins c) k" using Some by (simp add: entry_ok_def coins_def)
    moreover have "distinct (map fst (cacheCoins c))" using assms by (simp add: cache_inv_def entries_ok_def)
    ultimately show ?thesis using assms Some
      by (auto simp: Uncache_def cache_inv_def entries_ok_delete coins_delete usage_sum_delete fun_upd_idem)
  qed (use assms in \<open>simp add: Uncache_def\<close>)
  then show "cache_inv usage base (Uncache usage c k)"
    "coins base (cacheCoins (Uncache usage c k)) = coins base (cacheCoins c)" by blast+
qed

subsection \<open>Writing a batch into a cache\<close>

text \<open>One entry of a child whose base is this cache.\<close>

lemma write_entry_correct:
  assumes "cache_inv usage base c" "entry_ok (coins base (cacheCoins c)) k e"
  obtains c' where "write_entry usage c k e = Inr c'" "cache_inv usage base c'"
    "coins base (cacheCoins c') = (coins base (cacheCoins c))(k := entry_view e)"
proof (cases "ce_dirty e")
  case False
  then have "coins base (cacheCoins c) k = entry_view e" using assms(2) by (simp add: entry_ok_def)
  then show ?thesis using False assms(1) by (intro that [of c]) (simp_all add: write_entry_def fun_upd_idem)
next
  case d: True
  have fresh: "ce_fresh e \<Longrightarrow> coins base (cacheCoins c) k = None" using assms(2) by (simp add: entry_ok_def)
  have nfs: "\<not> (ce_fresh e \<and> Coin_IsSpent (ce_coin e))" using assms(2) d by (auto simp: entry_ok_def entry_attr_def)
  have dist: "distinct (map fst (cacheCoins c))" using assms(1) by (simp add: cache_inv_def entries_ok_def)
  show ?thesis
  proof (cases "map_of (cacheCoins c) k")
    case None
    let ?e = "\<lparr>ce_coin = ce_coin e, ce_dirty = True, ce_fresh = ce_fresh e\<rparr>"
    have e: "entry_ok base k ?e" "entry_view ?e = entry_view e"
      using fresh None nfs by (auto simp: entry_ok_def entry_attr_def coins_notin entry_view_def)
    show ?thesis
      by (rule that [of "c\<lparr>cacheCoins := AList.update k ?e (cacheCoins c),
          cachedCoinsUsage := cachedCoinsUsage c + usage (ce_coin e)\<rparr>"])
        (use None d nfs e assms(1) in \<open>simp_all add: write_entry_def cache_inv_def entries_ok_update
          usage_sum_update coins_update\<close>)
  next
    case (Some us)
    then have us: "entry_ok base k us" using assms(1) entries_okD by (auto simp: cache_inv_def)
    have f: "\<not> (ce_fresh e \<and> \<not> Coin_IsSpent (ce_coin us))"
      using fresh Some by (auto simp: coins_in entry_view_def split: if_splits)
    show ?thesis
    proof (cases "ce_fresh us \<and> Coin_IsSpent (ce_coin e)")
      case True
      then have "base k = entry_view e" using us by (simp add: entry_ok_def entry_view_def)
      then show ?thesis
        by (intro that [of "c\<lparr>cachedCoinsUsage := cachedCoinsUsage c - usage (ce_coin us),
            cacheCoins := AList.delete k (cacheCoins c)\<rparr>"])
          (use Some d f True assms(1) dist in \<open>simp_all add: write_entry_def cache_inv_def entries_ok_delete
            usage_sum_delete coins_delete\<close>)
    next
      case False
      let ?e = "us\<lparr>ce_coin := ce_coin e, ce_dirty := True\<rparr>"
      have e: "entry_ok base k ?e" "entry_view ?e = entry_view e"
        using us False by (auto simp: entry_ok_def entry_attr_def entry_view_def)
      show ?thesis
        by (rule that [of "c\<lparr>cachedCoinsUsage := cachedCoinsUsage c - usage (ce_coin us) + usage (ce_coin e),
            cacheCoins := AList.update k ?e (cacheCoins c)\<rparr>"])
          (use Some d f False e assms(1) in \<open>auto simp: write_entry_def cache_inv_def entries_ok_update
            usage_sum_update coins_update\<close>)
    qed
  qed
qed

lemma write_entries_correct:
  assumes "cache_inv usage base c" "entries_ok (coins base (cacheCoins c)) m"
  shows "\<exists>c'. write_entries usage erase c m = (None, if erase then [] else m, c') \<and> cache_inv usage base c'
    \<and> coins base (cacheCoins c') = coins (coins base (cacheCoins c)) m"
  using assms
proof (induction m arbitrary: c)
  case Nil
  then show ?case by (simp add: coins_def fun_eq_iff)
next
  case (Cons p m)
  obtain k e where p: "p = (k, e)" by (cases p)
  have ke: "entry_ok (coins base (cacheCoins c)) k e" "k \<notin> fst ` set m"
    using Cons.prems(2) p by (auto simp: entries_ok_def)
  obtain c1 where c1: "write_entry usage c k e = Inr c1" "cache_inv usage base c1"
    "coins base (cacheCoins c1) = (coins base (cacheCoins c))(k := entry_view e)"
    using write_entry_correct [OF Cons.prems(1) ke(1)] .
  have "entries_ok (coins base (cacheCoins c1)) m"
  proof -
    have "distinct (map fst m)" using Cons.prems(2) p by (simp add: entries_ok_def)
    moreover have "entry_ok (coins base (cacheCoins c1)) k' e'" if "map_of m k' = Some e'" for k' e'
    proof -
      have "k' \<noteq> k" using that ke(2) by (metis map_of_SomeD image_eqI fst_conv)
      moreover from this have "entry_ok (coins base (cacheCoins c)) k' e'"
        using Cons.prems(2) that p by (simp add: entries_ok_def)
      ultimately show ?thesis unfolding c1(3) by (simp add: entry_ok_def)
    qed
    ultimately show ?thesis by (simp add: entries_ok_def)
  qed
  from Cons.IH [OF c1(2) this] obtain c' where c': "write_entries usage erase c1 m = (None, if erase then [] else m, c')"
    "cache_inv usage base c'" "coins base (cacheCoins c') = coins (coins base (cacheCoins c1)) m" by blast
  have "map_of m k = None" using ke(2) by (simp add: map_of_eq_None_iff)
  then have "coins (coins base (cacheCoins c1)) m = coins (coins base (cacheCoins c)) (p # m)"
    unfolding c1(3) p by (auto simp: coins_def fun_eq_iff split: option.splits)
  then show ?case using c1(1) c' p by auto
qed

subsection \<open>What a base promises\<close>

lemma sync_entries_fst:
  "fst (sync_entries usage m u) = map (\<lambda>(k, e). (k, e\<lparr>ce_dirty := False, ce_fresh := False\<rparr>))
     (filter (\<lambda>(k, e). \<not> Coin_IsSpent (ce_coin e)) m)"
  by (induction usage m u rule: sync_entries.induct) (auto simp: case_prod_beta)

lemma sync_entries_usage:
  "usage_sum usage (fst (sync_entries usage m u)) + u = usage_sum usage m + snd (sync_entries usage m u)"
  by (induction usage m u rule: sync_entries.induct) (auto simp: case_prod_beta algebra_simps)

lemma map_of_sync:
  "distinct (map fst m) \<Longrightarrow> map_of (fst (sync_entries usage m u)) k =
    (case map_of m k of None \<Rightarrow> None
     | Some e \<Rightarrow> if Coin_IsSpent (ce_coin e) then None else Some (e\<lparr>ce_dirty := False, ce_fresh := False\<rparr>))"
proof (induction m)
  case (Cons p m)
  obtain a e where p: "p = (a, e)" by (cases p) simp
  have "map_of m a = None" using Cons.prems p by (simp add: map_of_eq_None_iff)
  then show ?case using Cons p unfolding sync_entries_fst by auto
qed (simp add: sync_entries_fst)

lemma sync_entries_ok:
  assumes "entries_ok base m"
  shows "entries_ok (coins base m) (fst (sync_entries usage m u))
    \<and> coins (coins base m) (fst (sync_entries usage m u)) = coins base m"
proof -
  let ?m = "fst (sync_entries usage m u)"
  have d: "distinct (map fst m)" using assms by (simp add: entries_ok_def)
  have "distinct (map fst ?m)"
    using d by (simp add: sync_entries_fst comp_def case_prod_beta distinct_map_filter)
  moreover have "entry_ok (coins base m) k e" if "map_of ?m k = Some e" for k e
    using that map_of_sync [OF d, of usage u k]
    by (auto simp: entry_ok_def entry_attr_def coins_def entry_view_def split: option.splits if_splits)
  moreover have "coins (coins base m) ?m k = coins base m k" for k
    using map_of_sync [OF d, of usage u k] by (auto simp: coins_def entry_view_def split: option.splits)
  ultimately show ?thesis by (auto simp: entries_ok_def)
qed

text \<open>
  A base view accepts a batch of well-flagged entries, erases them from the map it was given if asked
  to, and afterwards answers as the batch laid over its former answers.
\<close>

locale coins_backend =
  fixes view :: "'s \<Rightarrow> coins_view" and ok :: "'s \<Rightarrow> bool" and batch_write :: "'s batch_write"
  assumes view_ok: "ok s \<Longrightarrow> view_ok (view s)"
    and write_law: "ok s \<Longrightarrow> entries_ok (view s) m \<Longrightarrow>
      \<exists>s'. batch_write s m h erase = (Inr True, if erase then [] else m, s') \<and> ok s' \<and> view s' = coins (view s) m"
begin

lemma flush:
  assumes "ok s" "cache_inv usage (view s) c"
  shows "\<exists>s' c'. Flush batch_write s c = (Inr True, s', c') \<and> ok s' \<and> view s' = coins (view s) (cacheCoins c)
    \<and> cacheCoins c' = [] \<and> cache_inv usage (view s') c'"
proof -
  have "entries_ok (view s) (cacheCoins c)" using assms(2) by (simp add: cache_inv_def)
  from write_law [OF assms(1) this, of "hashBlock c" True] obtain s' where
    s': "batch_write s (cacheCoins c) (hashBlock c) True = (Inr True, [], s')" "ok s'" "view s' = coins (view s) (cacheCoins c)"
    by auto
  let ?c = "c\<lparr>cacheCoins := [], cachedCoinsUsage := 0\<rparr>"
  have "Flush batch_write s c = (Inr True, s', ?c)" using s'(1) by (simp add: Flush_def)
  moreover have "cache_inv usage (view s') ?c" using view_ok [OF s'(2)] by (simp add: cache_inv_def entries_ok_def)
  ultimately show ?thesis using s'(2,3) by (intro exI [of _ s'] exI [of _ ?c]) simp
qed

lemma sync:
  assumes "ok s" "cache_inv usage (view s) c"
  shows "\<exists>s' c'. Sync usage batch_write s c = (Inr True, s', c') \<and> ok s' \<and> view s' = coins (view s) (cacheCoins c)
    \<and> coins (view s') (cacheCoins c') = view s' \<and> cache_inv usage (view s') c'"
proof -
  let ?m = "cacheCoins c"
  have m: "entries_ok (view s) ?m" "usage_sum usage ?m = cachedCoinsUsage c" using assms(2) by (simp_all add: cache_inv_def)
  from write_law [OF assms(1) m(1), of "hashBlock c" False] obtain s' where
    s': "batch_write s ?m (hashBlock c) False = (Inr True, ?m, s')" "ok s'" "view s' = coins (view s) ?m" by auto
  define m' u where "m' = fst (sync_entries usage ?m (cachedCoinsUsage c))"
    and "u = snd (sync_entries usage ?m (cachedCoinsUsage c))"
  let ?c = "c\<lparr>cacheCoins := m', cachedCoinsUsage := u\<rparr>"
  have "Sync usage batch_write s c = (Inr True, s', ?c)"
    using s'(1) by (simp add: Sync_def m'_def u_def case_prod_beta)
  moreover have "entries_ok (view s') m' \<and> coins (view s') m' = view s'"
    unfolding s'(3) m'_def using sync_entries_ok [OF m(1)] .
  moreover have "usage_sum usage m' = u"
    using sync_entries_usage [of usage ?m "cachedCoinsUsage c"] m(2) by (simp add: m'_def u_def)
  ultimately show ?thesis using s'(2,3) view_ok [OF s'(2)]
    by (intro exI [of _ s'] exI [of _ ?c]) (simp add: cache_inv_def)
qed

end

interpretation cache_parent: coins_backend "\<lambda>(base, c). coins base (cacheCoins c)"
    "\<lambda>(base, c). cache_inv usage base c"
    "\<lambda>(base, c) m h erase. case BatchWrite usage c m h erase of (r, m', c') \<Rightarrow> (r, m', (base, c'))" for usage
proof unfold_locales
  show "case s of (base, c) \<Rightarrow> cache_inv usage base c \<Longrightarrow> view_ok (case s of (base, c) \<Rightarrow> coins base (cacheCoins c))" for s
    by (cases s) (simp add: cache_inv_def coins_ok)
  fix s :: "coins_view \<times> CCoinsViewCache" and m h erase
  obtain base c where s: "s = (base, c)" by (cases s)
  assume "case s of (base, c) \<Rightarrow> cache_inv usage base c" "entries_ok (case s of (base, c) \<Rightarrow> coins base (cacheCoins c)) m"
  then obtain c' where c': "write_entries usage erase c m = (None, if erase then [] else m, c')" "cache_inv usage base c'"
    "coins base (cacheCoins c') = coins (coins base (cacheCoins c)) m"
    using write_entries_correct [of usage base c m erase] s by auto
  let ?c = "c'\<lparr>hashBlock := h\<rparr>"
  have "BatchWrite usage c m h erase = (Inr True, if erase then [] else m, ?c)" using c'(1) by (simp add: BatchWrite_def)
  then show "\<exists>s'. (case s of (base, c) \<Rightarrow> \<lambda>m h erase. case BatchWrite usage c m h erase of (r, m', c') \<Rightarrow> (r, m', (base, c'))) m h erase
      = (Inr True, if erase then [] else m, s')
      \<and> (case s' of (base, c) \<Rightarrow> cache_inv usage base c)
      \<and> (case s' of (base, c) \<Rightarrow> coins base (cacheCoins c)) = coins (case s of (base, c) \<Rightarrow> coins base (cacheCoins c)) m"
    using c'(2,3) s by (intro exI [of _ "(base, ?c)"]) (simp add: cache_inv_def)
qed

subsection \<open>Sequences of operations\<close>

datatype coin_op = OpAdd COutPoint Coin bool | OpSpend COutPoint | OpGet COutPoint | OpUncache COutPoint

fun run_cache :: "(Coin \<Rightarrow> u64) \<Rightarrow> coins_view \<Rightarrow> coin_op list \<Rightarrow> CCoinsViewCache \<Rightarrow> coins_error option \<times> CCoinsViewCache" where
  "run_cache usage base [] c = (None, c)"
| "run_cache usage base (OpAdd k coin overwrite # ops) c =
    (case AddCoin usage c k coin overwrite of (Some e, c) \<Rightarrow> (Some e, c) | (None, c) \<Rightarrow> run_cache usage base ops c)"
| "run_cache usage base (OpSpend k # ops) c = run_cache usage base ops (snd (SpendCoin usage base c k))"
| "run_cache usage base (OpGet k # ops) c = run_cache usage base ops (snd (GetCoin usage base c k))"
| "run_cache usage base (OpUncache k # ops) c = run_cache usage base ops (Uncache usage c k)"

text \<open>
  The same on a plain map of unspent outputs.  The result is \<^verbatim>\<open>None\<close> if an addition breaks the contract of
  \<^verbatim>\<open>AddCoin\<close>: the coin is unspent, and \<^verbatim>\<open>possible_overwrite\<close> is set if an unspent version may exist, in the cache or
  below it.  This is a condition on the callers.  \<^verbatim>\<open>AddCoin\<close> itself looks only at the cache, so it does not notice
  every violation.
\<close>

fun run_map :: "coin_op list \<Rightarrow> coins_view \<Rightarrow> coins_view option" where
  "run_map [] m = Some m"
| "run_map (OpAdd k coin overwrite # ops) m =
    (if Coin_IsSpent coin then None
     else if IsUnspendable (scriptPubKey (coin_out coin)) then run_map ops m
     else if \<not> overwrite \<and> m k \<noteq> None then None
     else run_map ops (m(k \<mapsto> coin)))"
| "run_map (OpSpend k # ops) m = run_map ops (m(k := None))"
| "run_map (OpGet k # ops) m = run_map ops m"
| "run_map (OpUncache k # ops) m = run_map ops m"

lemma run_cache_refines:
  "cache_inv usage base c \<Longrightarrow> usage Coin_Clear = 0 \<Longrightarrow> run_map ops (coins base (cacheCoins c)) = Some m \<Longrightarrow>
   \<exists>c'. run_cache usage base ops c = (None, c') \<and> cache_inv usage base c' \<and> coins base (cacheCoins c') = m"
proof (induction ops arbitrary: c)
  case (Cons x ops)
  note p = Cons.prems and IH = Cons.IH
  show ?case
  proof (cases x)
    case (OpAdd k coin overwrite)
    then have ns: "\<not> Coin_IsSpent coin" using p(3) by (auto split: if_splits)
    show ?thesis
    proof (cases "IsUnspendable (scriptPubKey (coin_out coin))")
      case True
      then show ?thesis using IH [OF p(1,2)] p(3) OpAdd ns by (simp add: AddCoin_def)
    next
      case False
      then have ow: "overwrite \<or> coins base (cacheCoins c) k = None" using p(3) OpAdd ns by (auto split: if_splits)
      obtain c1 where c1: "AddCoin usage c k coin overwrite = (None, c1)" "cache_inv usage base c1"
          "coins base (cacheCoins c1) = (coins base (cacheCoins c))(k \<mapsto> coin)"
        using AddCoin_correct [OF p(1) ns False ow] .
      have "run_map ops (coins base (cacheCoins c1)) = Some m"
        unfolding c1(3) using p(3) OpAdd ns False ow by (simp split: if_splits)
      from IH [OF c1(2) p(2) this] show ?thesis using OpAdd c1(1) by simp
    qed
  next
    case (OpSpend k)
    let ?c = "snd (SpendCoin usage base c k)"
    have "SpendCoin usage base c k = (fst (SpendCoin usage base c k), ?c)" by simp
    note s = SpendCoin_correct(1,2) [OF p(1) this p(2)]
    have "run_map ops (coins base (cacheCoins ?c)) = Some m" unfolding s(2) using p(3) OpSpend by simp
    from IH [OF s(1) p(2) this] show ?thesis using OpSpend by simp
  next
    case (OpGet k)
    let ?c = "snd (GetCoin usage base c k)"
    have "FetchCoin usage base c k = (fst (FetchCoin usage base c k), ?c)"
      by (simp add: GetCoin_def case_prod_beta Let_def)
    from FetchCoin_correct(1,2) [OF p(1) this] show ?thesis using IH [OF _ p(2), of ?c] p(3) OpGet by simp
  next
    case (OpUncache k)
    from Uncache_correct [OF p(1), of k] show ?thesis using IH [OF _ p(2), of "Uncache usage c k"] p(3) OpUncache by simp
  qed
qed simp

lemma AddCoin_refuses:
  "\<not> Coin_IsSpent coin \<and> \<not> IsUnspendable (scriptPubKey (coin_out coin)) \<Longrightarrow>
   fst (AddCoin usage c k coin False) = (if HaveCoinInCache c k then Some OverwriteUnspent else None)"
  by (auto simp: AddCoin_def HaveCoinInCache_def Let_def split: option.splits)

subsection \<open>Properties\<close>

text \<open>
  C8.  The cache implements a plain map of unspent outputs: after any sequence of additions, spends,
  look-ups and evictions whose additions keep the contract of \<^verbatim>\<open>AddCoin\<close> (none adds a spent coin, and none without
  \<^verbatim>\<open>possible_overwrite\<close> adds over a coin of the view), no exception was thrown, the cache answers for every
  outpoint as the map does, and its own \<^verbatim>\<open>SanityCheck\<close> passes, memory accounting included.  Whether the contract is
  kept is only partly checked: a further addition without \<^verbatim>\<open>possible_overwrite\<close> throws exactly if the cache itself
  holds the coin unspent, and then the coin is in the view; a coin known only to the view below is not noticed.  A
  cleared coin is assumed to use no memory.
\<close>

theorem coins_cache_refines_map:
  assumes "cache_inv usage base c" "usage Coin_Clear = 0" "run_map ops (coins base (cacheCoins c)) = Some m"
  shows "\<exists>c'. run_cache usage base ops c = (None, c') \<and> SanityCheck usage c'
    \<and> (\<forall>k. fst (GetCoin usage base c' k) = m k)
    \<and> (\<forall>k coin. \<not> Coin_IsSpent coin \<and> \<not> IsUnspendable (scriptPubKey (coin_out coin)) \<longrightarrow>
         fst (AddCoin usage c' k coin False) = (if HaveCoinInCache c' k then Some OverwriteUnspent else None))
    \<and> (\<forall>k. HaveCoinInCache c' k \<longrightarrow> m k \<noteq> None)"
proof -
  obtain c' where c': "run_cache usage base ops c = (None, c')" "cache_inv usage base c'" "coins base (cacheCoins c') = m"
    using run_cache_refines [OF assms] by blast
  have "fst (GetCoin usage base c' k) = m k" for k
  proof -
    have "FetchCoin usage base c' k = (fst (FetchCoin usage base c' k), snd (FetchCoin usage base c' k))" by simp
    from FetchCoin_correct(4) [OF c'(2) this] show ?thesis unfolding c'(3) [symmetric]
      by (simp add: GetCoin_def case_prod_beta Let_def entry_view_def split: option.splits)
  qed
  moreover have "HaveCoinInCache c' k \<Longrightarrow> m k \<noteq> None" for k
    unfolding c'(3) [symmetric] by (auto simp: HaveCoinInCache_def coins_def entry_view_def split: option.splits)
  ultimately show ?thesis using c' cache_inv_SanityCheck AddCoin_refuses by blast
qed

definition demo_coin :: Coin where
  "demo_coin = \<lparr>coin_out = \<lparr>nValue = 5, scriptPubKey = [OP_1]\<rparr>, fCoinBase = False, coin_nHeight = 1\<rparr>"

definition demo_usage :: "Coin \<Rightarrow> u64" where
  "demo_usage c = of_nat (length (scriptPubKey (coin_out c)))"

definition demo_outpoint :: COutPoint where
  "demo_outpoint = \<lparr>op_hash = replicate 32 1, op_n = 0\<rparr>"

lemma demo_coin_facts: "\<not> Coin_IsSpent demo_coin" "\<not> IsUnspendable (scriptPubKey (coin_out demo_coin))"
  by (simp_all add: demo_coin_def Coin_IsSpent_def CTxOut_IsNull_def IsUnspendable_def MAX_SCRIPT_SIZE_def)

lemma empty_cache_inv: "view_ok base \<Longrightarrow> cache_inv usage base make_CCoinsViewCache"
  by (simp add: cache_inv_def make_CCoinsViewCache_def entries_ok_def)

theorem coins_cache_refines_map_witness:
  "\<exists>c'. run_cache demo_usage (\<lambda>_. None) [OpAdd demo_outpoint demo_coin False, OpSpend demo_outpoint,
       OpAdd demo_outpoint demo_coin False] make_CCoinsViewCache = (None, c')
     \<and> SanityCheck demo_usage c' \<and> fst (GetCoin demo_usage (\<lambda>_. None) c' demo_outpoint) = Some demo_coin"
proof -
  have i: "cache_inv demo_usage (\<lambda>_. None) make_CCoinsViewCache" by (rule empty_cache_inv) (simp add: view_ok_def)
  have u: "demo_usage Coin_Clear = 0" by (simp add: demo_usage_def Coin_Clear_def CTxOut_SetNull_def)
  have "run_map [OpAdd demo_outpoint demo_coin False, OpSpend demo_outpoint, OpAdd demo_outpoint demo_coin False]
      (coins (\<lambda>_. None) (cacheCoins make_CCoinsViewCache)) = Some (Map.empty(demo_outpoint \<mapsto> demo_coin))"
    by (simp add: demo_coin_facts make_CCoinsViewCache_def coins_def fun_eq_iff)
  from coins_cache_refines_map [OF i u this] show ?thesis by auto
qed

text \<open>
  C9.  Flushing a cache into the cache below it: no exception is thrown, the lower cache answers as the
  upper one did, the upper one is empty and still answers the same, and both pass \<^verbatim>\<open>SanityCheck\<close>.  Nesting is
  unlimited, since the base of the lower cache is arbitrary.
\<close>

theorem Flush_into_cache:
  assumes "cache_inv usage base p" "cache_inv usage (coins base (cacheCoins p)) c"
  shows "\<exists>p' c'. Flush (\<lambda>s m h erase. BatchWrite usage s m h erase) p c = (Inr True, p', c')
    \<and> coins base (cacheCoins p') = coins (coins base (cacheCoins p)) (cacheCoins c)
    \<and> coins (coins base (cacheCoins p')) (cacheCoins c') = coins (coins base (cacheCoins p)) (cacheCoins c)
    \<and> cacheCoins c' = [] \<and> SanityCheck usage p' \<and> SanityCheck usage c'"
proof -
  let ?bw = "\<lambda>(base, c) m h erase. case BatchWrite usage c m h erase of (r, m', c') \<Rightarrow> (r, m', (base :: coins_view, c'))"
  obtain s' c' where f: "Flush ?bw (base, p) c = (Inr True, s', c')" "case s' of (base, c) \<Rightarrow> cache_inv usage base c"
    "(case s' of (base, c) \<Rightarrow> coins base (cacheCoins c)) = coins (coins base (cacheCoins p)) (cacheCoins c)"
    "cacheCoins c' = []" "cache_inv usage (case s' of (base, c) \<Rightarrow> coins base (cacheCoins c)) c'"
    using cache_parent.flush [where s = "(base, p)" and usage = usage and usagea = usage and c = c] assms by auto
  obtain r m p' where b: "BatchWrite usage p (cacheCoins c) (hashBlock c) True = (r, m, p')"
    by (cases "BatchWrite usage p (cacheCoins c) (hashBlock c) True") simp
  have s': "s' = (base, p')" and "Flush (\<lambda>s m h erase. BatchWrite usage s m h erase) p c = (Inr True, p', c')"
    using f(1) b by (auto simp: Flush_def Let_def split: sum.splits if_splits)
  then show ?thesis using f(2-5) cache_inv_SanityCheck by (auto simp: coins_def)
qed

theorem Flush_into_cache_witness:
  "\<exists>p' c'. Flush (\<lambda>s m h erase. BatchWrite demo_usage s m h erase) make_CCoinsViewCache
      (snd (AddCoin demo_usage make_CCoinsViewCache demo_outpoint demo_coin False)) = (Inr True, p', c')
    \<and> coins (\<lambda>_. None) (cacheCoins p') demo_outpoint = Some demo_coin"
proof -
  have i: "cache_inv demo_usage base make_CCoinsViewCache" if "view_ok base" for base using empty_cache_inv that .
  have v: "view_ok (\<lambda>_. None)" "coins (\<lambda>_. None) (cacheCoins make_CCoinsViewCache) = (\<lambda>_. None)"
    by (simp_all add: view_ok_def make_CCoinsViewCache_def coins_def fun_eq_iff)
  obtain c where c: "AddCoin demo_usage make_CCoinsViewCache demo_outpoint demo_coin False = (None, c)"
      "cache_inv demo_usage (\<lambda>_. None) c" "coins (\<lambda>_. None) (cacheCoins c) = (\<lambda>_. None)(demo_outpoint \<mapsto> demo_coin)"
    using AddCoin_correct [OF i [OF v(1)] demo_coin_facts, of False demo_outpoint] v(2) by auto
  show ?thesis using Flush_into_cache [OF i [OF v(1)], of c] c v(2) by auto
qed

text \<open>
  C39.  When \<^verbatim>\<open>AddCoin\<close> refuses to overwrite an unspent coin it throws after it has already discounted the
  memory of that coin, which stays in the cache: \<^verbatim>\<open>SanityCheck\<close> fails from then on, for every coin that uses
  memory.  \<^verbatim>\<open>EmplaceCoinInternalDANGER\<close> on an outpoint already present has the opposite fault.
\<close>

theorem refused_AddCoin_breaks_accounting:
  assumes "SanityCheck usage c" "distinct (map fst (cacheCoins c))" "map_of (cacheCoins c) k = Some e"
    "\<not> Coin_IsSpent (ce_coin e)" "\<not> Coin_IsSpent coin" "\<not> IsUnspendable (scriptPubKey (coin_out coin))"
  shows "\<exists>c'. AddCoin usage c k coin False = (Some OverwriteUnspent, c') \<and> cacheCoins c' = cacheCoins c
      \<and> (usage (ce_coin e) \<noteq> 0 \<longrightarrow> \<not> SanityCheck usage c')
    \<and> (usage coin \<noteq> 0 \<longrightarrow> \<not> SanityCheck usage (EmplaceCoinInternalDANGER usage c k coin))"
proof -
  let ?c = "c\<lparr>cachedCoinsUsage := cachedCoinsUsage c - usage (ce_coin e)\<rparr>"
  have "AddCoin usage c k coin False = (Some OverwriteUnspent, ?c)"
    using assms(3-6) by (simp add: AddCoin_def Let_def update_triv)
  moreover have "usage_sum usage (cacheCoins c) = cachedCoinsUsage c"
    using assms(1) by (simp add: SanityCheck_def usage_sum_def)
  moreover have "EmplaceCoinInternalDANGER usage c k coin = c\<lparr>cachedCoinsUsage := cachedCoinsUsage c + usage coin\<rparr>"
    using assms(3) by (simp add: EmplaceCoinInternalDANGER_def)
  ultimately show ?thesis by (auto simp: SanityCheck_def usage_sum_def intro!: exI [of _ ?c])
qed

theorem refused_AddCoin_breaks_accounting_witness:
  "\<exists>c c'. SanityCheck demo_usage c \<and> AddCoin demo_usage c demo_outpoint demo_coin False = (Some OverwriteUnspent, c')
     \<and> \<not> SanityCheck demo_usage c'"
proof -
  let ?e = "\<lparr>ce_coin = demo_coin, ce_dirty = True, ce_fresh = True\<rparr>"
  let ?c = "\<lparr>hashBlock = [], cacheCoins = [(demo_outpoint, ?e)], cachedCoinsUsage = 1\<rparr>"
  have u: "demo_usage demo_coin = 1" by (simp add: demo_usage_def demo_coin_def)
  have s: "SanityCheck demo_usage ?c" using u demo_coin_facts(1) by (simp add: SanityCheck_def entry_attr_def)
  from refused_AddCoin_breaks_accounting [OF s, of demo_outpoint ?e demo_coin] show ?thesis
    using u demo_coin_facts s by auto
qed

end
