(* ===== verification/Tx_Verify.thy ===== *)
theory Tx_Verify
  imports Coins
begin

text \<open>
  The checks of a transaction that need its context: \<^verbatim>\<open>consensus/tx_verify.cpp\<close>.  Absolute lock times,
  relative lock times over the block index, signature-operation counts and the values of the spent
  coins, read through a coins cache.  The payload of an asset-unlock transaction
  (\<^verbatim>\<open>evo/assetlocktx.{h,cpp}\<close>) is read with the reader of the BLS signature as a parameter.
\<close>

subsection \<open>Lock times\<close>

definition IsFinalTx :: "CTransaction \<Rightarrow> int \<Rightarrow> int \<Rightarrow> bool" where
  "IsFinalTx tx nBlockHeight nBlockTime =
    (if nLockTime tx = 0 then True
     else if uint (nLockTime tx) < (if uint (nLockTime tx) < LOCKTIME_THRESHOLD then nBlockHeight else nBlockTime) then True
     else list_all (\<lambda>txin. nSequence txin = SEQUENCE_FINAL) (vin tx))"

definition sequence_disabled :: "CTxIn \<Rightarrow> bool" where
  "sequence_disabled txin \<longleftrightarrow> nSequence txin AND SEQUENCE_LOCKTIME_DISABLE_FLAG \<noteq> 0"

fun sequence_locks_loop ::
  "block_store \<Rightarrow> block_ptr \<Rightarrow> (CTxIn \<times> int) list \<Rightarrow> int \<times> int \<Rightarrow> fault + int \<times> int" where
  "sequence_locks_loop st block [] locks = Inr locks"
| "sequence_locks_loop st block ((txin, nCoinHeight) # ins) (nMinHeight, nMinTime) =
    (if sequence_disabled txin then sequence_locks_loop st block ins (nMinHeight, nMinTime)
     else if nSequence txin AND SEQUENCE_LOCKTIME_TYPE_FLAG \<noteq> 0 then
       (case GetAncestor st block (max (nCoinHeight - 1) 0) of Inl e \<Rightarrow> Inl e
        | Inr None \<Rightarrow> Inl AssertFailed
        | Inr (Some q) \<Rightarrow>
          (case GetMedianTimePast st q of Inl e \<Rightarrow> Inl e
           | Inr nCoinTime \<Rightarrow>
             sequence_locks_loop st block ins (nMinHeight,
               max nMinTime (nCoinTime + uint (push_bit SEQUENCE_LOCKTIME_GRANULARITY
                 (nSequence txin AND SEQUENCE_LOCKTIME_MASK)) - 1))))
     else sequence_locks_loop st block ins
       (max nMinHeight (nCoinHeight + uint (nSequence txin AND SEQUENCE_LOCKTIME_MASK) - 1), nMinTime))"

text \<open>The result carries the changed \<^verbatim>\<open>prevHeights\<close>.\<close>

definition CalculateSequenceLocks ::
  "CTransaction \<Rightarrow> int \<Rightarrow> int list \<Rightarrow> block_store \<Rightarrow> block_ptr \<Rightarrow> fault + (int \<times> int) \<times> int list" where
  "CalculateSequenceLocks tx flags prevHeights st block =
    (if length prevHeights \<noteq> length (vin tx) then Inl AssertFailed
     else let fEnforceBIP68 = ((scast (tx_nVersion tx) :: u32) \<ge> 2 \<and> flags AND LOCKTIME_VERIFY_SEQUENCE \<noteq> 0) in
       if \<not> fEnforceBIP68 then Inr ((-1, -1), prevHeights)
       else case sequence_locks_loop st block (zip (vin tx) prevHeights) (-1, -1) of
         Inl e \<Rightarrow> Inl e
       | Inr locks \<Rightarrow> Inr (locks, map2 (\<lambda>txin h. if sequence_disabled txin then 0 else h) (vin tx) prevHeights))"

definition EvaluateSequenceLocks :: "block_store \<Rightarrow> block_ptr \<Rightarrow> int \<times> int \<Rightarrow> fault + bool" where
  "EvaluateSequenceLocks st block lockPair =
    (case st block of None \<Rightarrow> Inl BadPointer
     | Some b \<Rightarrow> (case pprev b of None \<Rightarrow> Inl AssertFailed
       | Some q \<Rightarrow> (case GetMedianTimePast st q of Inl e \<Rightarrow> Inl e
         | Inr nBlockTime \<Rightarrow>
           Inr (\<not> (fst lockPair \<ge> int (nHeight b) \<or> snd lockPair \<ge> nBlockTime)))))"

definition SequenceLocks ::
  "CTransaction \<Rightarrow> int \<Rightarrow> int list \<Rightarrow> block_store \<Rightarrow> block_ptr \<Rightarrow> fault + bool \<times> int list" where
  "SequenceLocks tx flags prevHeights st block =
    (case CalculateSequenceLocks tx flags prevHeights st block of Inl e \<Rightarrow> Inl e
     | Inr (lockPair, prevHeights) \<Rightarrow>
       (case EvaluateSequenceLocks st block lockPair of Inl e \<Rightarrow> Inl e | Inr ok \<Rightarrow> Inr (ok, prevHeights)))"

subsection \<open>Signature operations\<close>

datatype input_fault = SpentCoinAssert | ValueOutThrows value_error

definition GetLegacySigOpCount :: "CTransaction \<Rightarrow> u32" where
  "GetLegacySigOpCount tx =
    sum_list (map (\<lambda>txin. of_nat (GetSigOpCount (scriptSig txin) False)) (vin tx))
    + sum_list (map (\<lambda>txout. of_nat (GetSigOpCount (scriptPubKey txout) False)) (vout tx))"

fun p2sh_sig_ops ::
  "(Coin \<Rightarrow> u64) \<Rightarrow> coins_view \<Rightarrow> CTxIn list \<Rightarrow> CCoinsViewCache \<Rightarrow> u32 \<Rightarrow> (input_fault + u32) \<times> CCoinsViewCache" where
  "p2sh_sig_ops usage base [] inputs nSigOps = (Inr nSigOps, inputs)"
| "p2sh_sig_ops usage base (txin # ins) inputs nSigOps =
    (let (coin, inputs) = AccessCoin usage base inputs (prevout txin) in
     if Coin_IsSpent coin then (Inl SpentCoinAssert, inputs)
     else let spk = scriptPubKey (coin_out coin) in
       p2sh_sig_ops usage base ins inputs
         (if IsPayToScriptHash spk then nSigOps + of_nat (GetSigOpCount_P2SH spk (scriptSig txin)) else nSigOps))"

definition GetP2SHSigOpCount ::
  "(Coin \<Rightarrow> u64) \<Rightarrow> coins_view \<Rightarrow> CTransaction \<Rightarrow> CCoinsViewCache \<Rightarrow> (input_fault + u32) \<times> CCoinsViewCache" where
  "GetP2SHSigOpCount usage base tx inputs =
    (if IsCoinBase tx then (Inr 0, inputs) else p2sh_sig_ops usage base (vin tx) inputs 0)"

definition GetTransactionSigOpCount ::
  "(Coin \<Rightarrow> u64) \<Rightarrow> coins_view \<Rightarrow> CTransaction \<Rightarrow> CCoinsViewCache \<Rightarrow> u32 \<Rightarrow> (input_fault + u32) \<times> CCoinsViewCache" where
  "GetTransactionSigOpCount usage base tx inputs flags =
    (let nSigOps = GetLegacySigOpCount tx in
     if IsCoinBase tx then (Inr nSigOps, inputs)
     else if flags AND SCRIPT_VERIFY_P2SH \<noteq> 0 then
       (case GetP2SHSigOpCount usage base tx inputs of
          (Inl e, inputs) \<Rightarrow> (Inl e, inputs)
        | (Inr n, inputs) \<Rightarrow> (Inr (nSigOps + n), inputs))
     else (Inr nSigOps, inputs))"

subsection \<open>Asset-unlock fees\<close>

record 'sig CAssetUnlockPayload =
  unlock_nVersion :: u8
  unlock_index :: u64
  unlock_fee :: u32
  requestedHeight :: u32
  quorumHash :: uint256
  quorumSig :: 'sig

definition unser_CAssetUnlockPayload :: "'sig reader \<Rightarrow> 'sig CAssetUnlockPayload reader" where
  "unser_CAssetUnlockPayload unser_sig =
    rbind ser_readdata8 (\<lambda>v. rbind ser_readdata64 (\<lambda>i. rbind ser_readdata32 (\<lambda>f.
    rbind ser_readdata32 (\<lambda>h. rbind unser_uint256 (\<lambda>q. rbind unser_sig (\<lambda>s.
    rret \<lparr>unlock_nVersion = v, unlock_index = i, unlock_fee = f, requestedHeight = h,
          quorumHash = q, quorumSig = s\<rparr>))))))"

definition GetTxPayload_unlock :: "'sig reader \<Rightarrow> CTransaction \<Rightarrow> 'sig CAssetUnlockPayload option" where
  "GetTxPayload_unlock unser_sig tx =
    (if nType tx \<noteq> TRANSACTION_ASSET_UNLOCK then None
     else case unser_CAssetUnlockPayload unser_sig (vExtraPayload tx) of
       Inl _ \<Rightarrow> None
     | Inr (obj, rest) \<Rightarrow> if rest = [] then Some obj else None)"

definition GetAssetUnlockFee :: "'sig reader \<Rightarrow> CTransaction \<Rightarrow> TxValidationResult \<times> string + CAmount" where
  "GetAssetUnlockFee unser_sig tx =
    (case GetTxPayload_unlock unser_sig tx of
       None \<Rightarrow> Inl (TX_BAD_SPECIAL, ''bad-assetunlocktx-payload'')
     | Some p \<Rightarrow>
       let txfee_aux = uint (unlock_fee p) in
       if txfee_aux = 0 \<or> \<not> MoneyRange txfee_aux then Inl (TX_CONSENSUS, ''bad-txns-assetunlock-fee-outofrange'')
       else Inr txfee_aux)"

text \<open>What such a transaction takes out of the credit pool (\<^verbatim>\<open>evo/creditpool.cpp\<close>), with its index.\<close>

fun unlock_outputs :: "CTxOut list \<Rightarrow> CAmount \<Rightarrow> TxValidationResult \<times> string + CAmount" where
  "unlock_outputs [] toUnlock = Inr toUnlock"
| "unlock_outputs (txout # outs) toUnlock =
    (if \<not> MoneyRange (nValue txout) then Inl (TX_CONSENSUS, ''failed-creditpool-unlock-txout-outofrange'')
     else unlock_outputs outs (toUnlock + nValue txout))"

definition GetDataFromUnlockTx :: "'sig reader \<Rightarrow> CTransaction \<Rightarrow> TxValidationResult \<times> string + CAmount \<times> u64" where
  "GetDataFromUnlockTx unser_sig tx =
    (case GetTxPayload_unlock unser_sig tx of
       None \<Rightarrow> Inl (TX_CONSENSUS, ''failed-creditpool-unlock-payload'')
     | Some p \<Rightarrow>
       (case unlock_outputs (vout tx) (uint (unlock_fee p)) of
          Inl e \<Rightarrow> Inl e
        | Inr toUnlock \<Rightarrow> Inr (toUnlock, unlock_index p)))"

subsection \<open>Values of the inputs\<close>

type_synonym inputs_verdict = "input_fault + ((TxValidationResult \<times> string) + CAmount)"

text \<open>The value of the inputs, or how the loop left the function.\<close>

fun sum_inputs ::
  "(Coin \<Rightarrow> u64) \<Rightarrow> coins_view \<Rightarrow> int \<Rightarrow> CTxIn list \<Rightarrow> CAmount \<Rightarrow> CCoinsViewCache \<Rightarrow> inputs_verdict \<times> CCoinsViewCache" where
  "sum_inputs usage base nSpendHeight [] nValueIn inputs = (Inr (Inr nValueIn), inputs)"
| "sum_inputs usage base nSpendHeight (txin # ins) nValueIn inputs =
    (let (coin, inputs) = AccessCoin usage base inputs (prevout txin) in
     if Coin_IsSpent coin then (Inl SpentCoinAssert, inputs)
     else if fCoinBase coin \<and> nSpendHeight - uint (coin_nHeight coin) < COINBASE_MATURITY
       then (Inr (Inl (TX_PREMATURE_SPEND, ''bad-txns-premature-spend-of-coinbase'')), inputs)
     else let nValueIn = nValueIn + nValue (coin_out coin) in
       if \<not> MoneyRange (nValue (coin_out coin)) \<or> \<not> MoneyRange nValueIn
       then (Inr (Inl (TX_CONSENSUS, ''bad-txns-inputvalues-outofrange'')), inputs)
       else sum_inputs usage base nSpendHeight ins nValueIn inputs)"

definition CheckTxInputs ::
  "(Coin \<Rightarrow> u64) \<Rightarrow> coins_view \<Rightarrow> 'sig reader \<Rightarrow> CTransaction \<Rightarrow> CCoinsViewCache \<Rightarrow> int \<Rightarrow> inputs_verdict \<times> CCoinsViewCache" where
  "CheckTxInputs usage base unser_sig tx inputs nSpendHeight =
    (if IsSpecialTxVersion tx \<and> nType tx = TRANSACTION_ASSET_UNLOCK then (Inr (GetAssetUnlockFee unser_sig tx), inputs)
     else let (have, inputs) = HaveInputs usage base inputs tx in
     if \<not> have then (Inr (Inl (TX_MISSING_INPUTS, ''bad-txns-inputs-missingorspent'')), inputs)
     else case sum_inputs usage base nSpendHeight (vin tx) 0 inputs of
       (Inr (Inr nValueIn), inputs) \<Rightarrow>
         (case GetValueOut tx of Inl e \<Rightarrow> Inl (ValueOutThrows e)
          | Inr value_out \<Rightarrow>
            if nValueIn < value_out then Inr (Inl (TX_CONSENSUS, ''bad-txns-in-belowout''))
            else let txfee_aux = nValueIn - value_out in
              if \<not> MoneyRange txfee_aux then Inr (Inl (TX_CONSENSUS, ''bad-txns-fee-outofrange''))
              else Inr (Inr txfee_aux), inputs)
     | r \<Rightarrow> r)"

subsection \<open>Reading coins through the cache\<close>

lemma AccessCoin_correct:
  assumes "cache_inv usage base c" "AccessCoin usage base c k = (coin, c')"
  shows "cache_inv usage base c'" "coins base (cacheCoins c') = coins base (cacheCoins c)"
    "coins base (cacheCoins c) k = (if Coin_IsSpent coin then None else Some coin)"
proof -
  obtain it where f: "FetchCoin usage base c k = (it, c')" "coin = (case it of None \<Rightarrow> coinEmpty | Some e \<Rightarrow> ce_coin e)"
    using assms(2) by (auto simp: AccessCoin_def split: prod.splits)
  note F = FetchCoin_correct [OF assms(1) f(1)]
  show "cache_inv usage base c'" "coins base (cacheCoins c') = coins base (cacheCoins c)" by (rule F)+
  show "coins base (cacheCoins c) k = (if Coin_IsSpent coin then None else Some coin)"
    unfolding F(4) f(2) by (simp add: entry_view_def split: option.splits)
qed

lemma HaveCoin_correct:
  assumes "cache_inv usage base c" "HaveCoin usage base c k = (b, c')"
  shows "cache_inv usage base c'" "coins base (cacheCoins c') = coins base (cacheCoins c)"
    "b \<longleftrightarrow> coins base (cacheCoins c) k \<noteq> None"
proof -
  obtain it where f: "FetchCoin usage base c k = (it, c')" "b = (case it of None \<Rightarrow> False | Some e \<Rightarrow> \<not> Coin_IsSpent (ce_coin e))"
    using assms(2) by (auto simp: HaveCoin_def split: prod.splits)
  note F = FetchCoin_correct [OF assms(1) f(1)]
  show "cache_inv usage base c'" "coins base (cacheCoins c') = coins base (cacheCoins c)" by (rule F)+
  show "b \<longleftrightarrow> coins base (cacheCoins c) k \<noteq> None"
    unfolding F(4) f(2) by (simp add: entry_view_def split: option.splits)
qed

lemma have_inputs_correct:
  assumes "cache_inv usage base c" "have_inputs usage base c ins = (b, c')"
  shows "cache_inv usage base c' \<and> coins base (cacheCoins c') = coins base (cacheCoins c)
    \<and> (b \<longleftrightarrow> (\<forall>i \<in> set ins. coins base (cacheCoins c) (prevout i) \<noteq> None))"
  using assms
proof (induction ins arbitrary: c)
  case (Cons i ins)
  obtain b1 c1 where h: "HaveCoin usage base c (prevout i) = (b1, c1)" by (cases "HaveCoin usage base c (prevout i)") auto
  note H = HaveCoin_correct [OF Cons.prems(1) h]
  show ?case
  proof (cases b1)
    case True
    then have "have_inputs usage base c1 ins = (b, c')" using Cons.prems(2) h by simp
    from Cons.IH [OF H(1) this] show ?thesis using H True by auto
  next
    case False
    then have "c' = c1" "\<not> b" using Cons.prems(2) h by auto
    then show ?thesis using H False by simp
  qed
qed simp

subsection \<open>The values of the inputs\<close>

definition input_coin :: "coins_view \<Rightarrow> CTxIn \<Rightarrow> Coin" where
  "input_coin V i = (case V (prevout i) of Some coin \<Rightarrow> coin | None \<Rightarrow> coinEmpty)"

definition value_in :: "coins_view \<Rightarrow> CTxIn list \<Rightarrow> int" where
  "value_in V ins = sum_list (map (\<lambda>i. nValue (coin_out (input_coin V i))) ins)"

definition value_out :: "CTransaction \<Rightarrow> int" where
  "value_out tx = sum_list (map nValue (vout tx))"

definition spendable_at :: "int \<Rightarrow> Coin \<Rightarrow> bool" where
  "spendable_at height coin \<longleftrightarrow> (fCoinBase coin \<longrightarrow> height - uint (coin_nHeight coin) \<ge> COINBASE_MATURITY)
     \<and> MoneyRange (nValue (coin_out coin))"

lemma sum_inputs_step:
  assumes "AccessCoin usage base c (prevout i) = (coin, c1)" "\<not> Coin_IsSpent coin"
  shows "sum_inputs usage base height (i # ins) acc c =
    (if \<not> spendable_at height coin \<or> \<not> MoneyRange (acc + nValue (coin_out coin))
     then (Inr (Inl (if fCoinBase coin \<and> height - uint (coin_nHeight coin) < COINBASE_MATURITY
             then (TX_PREMATURE_SPEND, ''bad-txns-premature-spend-of-coinbase'')
             else (TX_CONSENSUS, ''bad-txns-inputvalues-outofrange''))), c1)
     else sum_inputs usage base height ins (acc + nValue (coin_out coin)) c1)"
  using assms by (auto simp: spendable_at_def Let_def not_less)

lemma value_in_nonneg: "\<forall>i \<in> set ins. spendable_at height (input_coin V i) \<Longrightarrow> 0 \<le> value_in V ins"
  unfolding value_in_def by (rule sum_list_nonneg) (auto simp: spendable_at_def MoneyRange_def)

lemma sum_inputs_correct:
  assumes "cache_inv usage base c" "coins base (cacheCoins c) = V" "MoneyRange acc" "\<forall>i \<in> set ins. V (prevout i) \<noteq> None"
  shows "\<exists>r c'. sum_inputs usage base height ins acc c = (Inr r, c') \<and> cache_inv usage base c' \<and> coins base (cacheCoins c') = V
    \<and> (\<forall>v. r = Inr v \<longleftrightarrow> (\<forall>i \<in> set ins. spendable_at height (input_coin V i))
        \<and> MoneyRange (acc + value_in V ins) \<and> v = acc + value_in V ins)"
  using assms
proof (induction ins arbitrary: c acc)
  case Nil
  then show ?case by (auto simp: value_in_def)
next
  case (Cons i ins)
  obtain coin c1 where a: "AccessCoin usage base c (prevout i) = (coin, c1)" by (cases "AccessCoin usage base c (prevout i)") auto
  note A = AccessCoin_correct [OF Cons.prems(1) a]
  have coin: "\<not> Coin_IsSpent coin" "input_coin V i = coin"
    using A(3) Cons.prems(2,4) by (auto simp: input_coin_def split: if_splits)
  have v: "acc + value_in V (i # ins) = acc + nValue (coin_out coin) + value_in V ins" by (simp add: value_in_def coin(2))
  show ?case
  proof (cases "spendable_at height coin \<and> MoneyRange (acc + nValue (coin_out coin))")
    case True
    have "coins base (cacheCoins c1) = V" using A(2) Cons.prems(2) by simp
    from Cons.IH [OF A(1) this conjunct2 [OF True]] Cons.prems(4) obtain r c' where
      "sum_inputs usage base height ins (acc + nValue (coin_out coin)) c1 = (Inr r, c')" "cache_inv usage base c'"
      "coins base (cacheCoins c') = V" "\<forall>v. r = Inr v \<longleftrightarrow> (\<forall>i \<in> set ins. spendable_at height (input_coin V i))
        \<and> MoneyRange (acc + nValue (coin_out coin) + value_in V ins) \<and> v = acc + nValue (coin_out coin) + value_in V ins"
      by auto
    then show ?thesis unfolding sum_inputs_step [OF a coin(1)] v using True by (auto simp: coin(2))
  next
    case False
    have "\<not> ((\<forall>j \<in> set (i # ins). spendable_at height (input_coin V j)) \<and> MoneyRange (acc + value_in V (i # ins)))"
    proof
      assume *: "(\<forall>j \<in> set (i # ins). spendable_at height (input_coin V j)) \<and> MoneyRange (acc + value_in V (i # ins))"
      then have "0 \<le> value_in V ins" "spendable_at height coin" using value_in_nonneg [of ins height V] coin(2) by auto
      then show False using * False Cons.prems(3) unfolding v spendable_at_def MoneyRange_def by auto
    qed
    then show ?thesis unfolding sum_inputs_step [OF a coin(1)] using False A Cons.prems(2) by auto
  qed
qed

lemma GetValueOut_checked: "CheckTransaction tx = Inr () \<Longrightarrow> GetValueOut tx = Inr (value_out tx) \<and> MoneyRange (value_out tx)"
  using GetValueOut_after_check [of tx] by (auto simp: value_out_def)

lemma CheckTxInputs_spec:
  assumes "cache_inv usage base c" "CheckTransaction tx = Inr ()" "\<not> IsCoinBase tx"
    "\<not> (IsSpecialTxVersion tx \<and> nType tx = TRANSACTION_ASSET_UNLOCK)" "V = coins base (cacheCoins c)"
  shows "\<exists>r c'. CheckTxInputs usage base unser_sig tx c height = (Inr r, c') \<and> cache_inv usage base c'
    \<and> coins base (cacheCoins c') = V
    \<and> (\<forall>f. r = Inr f \<longleftrightarrow> (\<forall>i \<in> set (vin tx). V (prevout i) \<noteq> None \<and> spendable_at height (input_coin V i))
        \<and> MoneyRange (value_in V (vin tx)) \<and> f = value_in V (vin tx) - value_out tx \<and> 0 \<le> f)"
proof -
  obtain b c1 where h: "have_inputs usage base c (vin tx) = (b, c1)" by (cases "have_inputs usage base c (vin tx)") auto
  note H = have_inputs_correct [OF assms(1) h]
  note V = GetValueOut_checked [OF assms(2)]
  show ?thesis
  proof (cases b)
    case False
    then show ?thesis using H h assms(3-5) by (auto simp: CheckTxInputs_def HaveInputs_def)
  next
    case True
    then obtain r c' where s: "sum_inputs usage base height (vin tx) 0 c1 = (Inr r, c')" "cache_inv usage base c'"
      "coins base (cacheCoins c') = V" "\<And>v. r = Inr v \<longleftrightarrow> (\<forall>i \<in> set (vin tx). spendable_at height (input_coin V i))
        \<and> MoneyRange (value_in V (vin tx)) \<and> v = value_in V (vin tx)"
      using sum_inputs_correct [of usage base c1 V 0 "vin tx" height] H assms(5) by auto
    show ?thesis
    proof (cases r)
      case (Inl e)
      then show ?thesis using s H h True assms(3-5) by (auto simp: CheckTxInputs_def HaveInputs_def)
    next
      case (Inr v)
      then have v: "\<forall>i \<in> set (vin tx). spendable_at height (input_coin V i)" "MoneyRange (value_in V (vin tx))"
        "v = value_in V (vin tx)" using s(4) [of v] by auto
      have "MoneyRange (v - value_out tx)" if "\<not> v < value_out tx" using that v(2,3) V by (auto simp: MoneyRange_def)
      then show ?thesis using s(1-3) H h True Inr v V assms(3-5)
        by (auto simp: CheckTxInputs_def HaveInputs_def Let_def)
    qed
  qed
qed

subsection \<open>Lock times in scripts and in transactions\<close>

lemma and_single_bit: "(x :: int) AND 2 ^ k = (if bit x k then 2 ^ k else 0)"
  by (rule bit_eqI) (auto simp: bit_and_iff bit_exp_iff)

lemma and_type_and_value:
  "(x :: int) AND 0x40ffff = (if bit x 22 then 0x400000 else 0) + (x AND 0xffff)"
proof -
  have "(0x40ffff :: int) = 2 ^ 22 OR 0xffff" by simp
  then have "x AND 0x40ffff = (x AND 2 ^ 22) OR (x AND 0xffff)" by (simp only: bit.conj_disj_distrib)
  also have "\<dots> = (x AND 2 ^ 22) + (x AND 0xffff)"
  proof (rule disjunctive_add [symmetric])
    fix n
    have "(0xffff :: int) = mask 16" by (simp add: mask_eq_exp_minus_1)
    then have "bit (x AND 0xffff) n \<Longrightarrow> n < 16" by (simp add: bit_and_iff bit_mask_iff)
    moreover have "bit (x AND 2 ^ 22) n \<Longrightarrow> n = 22" by (simp only: bit_and_iff bit_exp_iff)
    ultimately show "\<not> bit (x AND 2 ^ 22) n \<or> \<not> bit (x AND 0xffff) n" by linarith
  qed
  finally show ?thesis using and_single_bit [of x 22] by simp
qed

lemma and_value_bound: "0 \<le> (x :: int) AND 0xffff" "(x :: int) AND 0xffff < 0x400000"
proof -
  have "x AND 0xffff = take_bit 16 x" by (simp add: take_bit_eq_mask mask_eq_exp_minus_1)
  moreover have "take_bit 16 x < 2 ^ 16" by (rule take_bit_int_less_exp)
  ultimately show "0 \<le> x AND 0xffff" "x AND 0xffff < 0x400000" by (simp_all del: take_bit_int_less_exp)
qed

lemma sequence_flags:
  "nSequence txin AND SEQUENCE_LOCKTIME_TYPE_FLAG \<noteq> 0 \<longleftrightarrow> bit (uint (nSequence txin)) 22"
  "sequence_disabled txin \<longleftrightarrow> uint (nSequence txin) AND uint SEQUENCE_LOCKTIME_DISABLE_FLAG \<noteq> 0"
  "uint (nSequence txin AND SEQUENCE_LOCKTIME_MASK) = uint (nSequence txin) AND 0xffff"
  "uint (push_bit SEQUENCE_LOCKTIME_GRANULARITY (nSequence txin AND SEQUENCE_LOCKTIME_MASK))
     = 512 * (uint (nSequence txin) AND 0xffff)"
proof -
  let ?w = "nSequence txin"
  have "uint (?w AND 0x400000) = uint ?w AND 2 ^ 22" by (simp add: unsigned_and_eq)
  then have "?w AND 0x400000 \<noteq> 0 \<longleftrightarrow> bit (uint ?w) 22"
    unfolding and_single_bit by (metis power_not_zero uint_0_iff zero_neq_numeral)
  then show "?w AND SEQUENCE_LOCKTIME_TYPE_FLAG \<noteq> 0 \<longleftrightarrow> bit (uint ?w) 22"
    by (simp add: SEQUENCE_LOCKTIME_TYPE_FLAG_def)
  show "sequence_disabled txin \<longleftrightarrow> uint ?w AND uint SEQUENCE_LOCKTIME_DISABLE_FLAG \<noteq> 0"
    unfolding sequence_disabled_def unsigned_and_eq [symmetric] by (simp add: uint_0_iff)
  show v: "uint (?w AND SEQUENCE_LOCKTIME_MASK) = uint ?w AND 0xffff"
    by (simp add: unsigned_and_eq SEQUENCE_LOCKTIME_MASK_def)
  have "uint (push_bit 9 (?w AND SEQUENCE_LOCKTIME_MASK)) = take_bit 32 (push_bit 9 (uint (?w AND SEQUENCE_LOCKTIME_MASK)))"
    by (simp add: unsigned_push_bit_eq del: push_bit_and)
  also have "\<dots> = 512 * (uint ?w AND 0xffff)" unfolding v push_bit_eq_mult
    using and_value_bound [of "uint ?w"] by (subst take_bit_int_eq_self) auto
  finally show "uint (push_bit SEQUENCE_LOCKTIME_GRANULARITY (?w AND SEQUENCE_LOCKTIME_MASK)) = 512 * (uint ?w AND 0xffff)"
    by (simp add: SEQUENCE_LOCKTIME_GRANULARITY_def)
qed

text \<open>What the opcode has checked: the lock of the input is of the same kind and at least as long.\<close>

lemma tx_CheckSequence_same_kind:
  assumes "tx_CheckSequence tx nIn n" "0 \<le> n"
  shows "(scast (tx_nVersion tx) :: u32) \<ge> 2" "\<not> sequence_disabled (vin tx ! nIn)"
    "bit n 22 \<longleftrightarrow> bit (uint (nSequence (vin tx ! nIn))) 22" "n AND 0xffff \<le> uint (nSequence (vin tx ! nIn)) AND 0xffff"
proof -
  let ?s = "uint (nSequence (vin tx ! nIn))"
  have m: "uint (SEQUENCE_LOCKTIME_TYPE_FLAG OR SEQUENCE_LOCKTIME_MASK) = 0x40ffff" "uint SEQUENCE_LOCKTIME_TYPE_FLAG = 0x400000"
    by (simp_all add: SEQUENCE_LOCKTIME_TYPE_FLAG_def SEQUENCE_LOCKTIME_MASK_def)
  have c: "\<not> (scast (tx_nVersion tx) :: u32) < 2" "\<not> sequence_disabled (vin tx ! nIn)"
    "(?s AND 0x40ffff < 0x400000 \<and> n AND 0x40ffff < 0x400000 \<or> ?s AND 0x40ffff \<ge> 0x400000 \<and> n AND 0x40ffff \<ge> 0x400000)"
    "n AND 0x40ffff \<le> ?s AND 0x40ffff"
    using assms(1) unfolding tx_CheckSequence_def Let_def m sequence_flags(2) by (auto split: if_splits)
  show "(scast (tx_nVersion tx) :: u32) \<ge> 2" "\<not> sequence_disabled (vin tx ! nIn)" using c(1,2) by auto
  show k: "bit n 22 \<longleftrightarrow> bit ?s 22" using c(3) and_value_bound [of n] and_value_bound [of ?s]
    unfolding and_type_and_value by (cases "bit n 22"; cases "bit ?s 22"; simp only: if_True if_False; linarith)
  show "n AND 0xffff \<le> ?s AND 0xffff" using c(4) k unfolding and_type_and_value by (auto split: if_splits)
qed

lemma sequence_locks_mono:
  "sequence_locks_loop st block ins (mh, mt) = Inr (mh', mt') \<Longrightarrow> mh \<le> mh' \<and> mt \<le> mt'"
proof (induction ins arbitrary: mh mt)
  case (Cons i ins)
  obtain txin h where i: "i = (txin, h)" by (cases i) auto
  show ?case using Cons.prems unfolding i
    by (auto split: if_splits sum.splits option.splits dest!: Cons.IH)
qed simp

definition lock_reached :: "block_store \<Rightarrow> block_ptr \<Rightarrow> CTxIn \<Rightarrow> int \<Rightarrow> int \<times> int \<Rightarrow> bool" where
  "lock_reached st block txin h locks \<longleftrightarrow>
    (if bit (uint (nSequence txin)) 22
     then \<exists>q t. GetAncestor st block (max (h - 1) 0) = Inr (Some q) \<and> GetMedianTimePast st q = Inr t
       \<and> t + 512 * (uint (nSequence txin) AND 0xffff) - 1 \<le> snd locks
     else h + (uint (nSequence txin) AND 0xffff) - 1 \<le> fst locks)"

lemma sequence_locks_cover:
  assumes "sequence_locks_loop st block ins (mh, mt) = Inr locks" "(txin, h) \<in> set ins" "\<not> sequence_disabled txin"
  shows "lock_reached st block txin h locks"
  using assms(1,2)
proof (induction ins arbitrary: mh mt)
  case (Cons i ins)
  obtain mh' mt' where locks: "locks = (mh', mt')" by (cases locks) auto
  show ?case
  proof (cases "(txin, h) \<in> set ins")
    case True
    obtain txin1 h1 where i: "i = (txin1, h1)" by (cases i) auto
    from Cons.prems(1) show ?thesis unfolding i
      by (auto split: if_splits sum.splits option.splits dest!: Cons.IH [OF _ True])
  next
    case False
    then have i: "i = (txin, h)" using Cons.prems(2) by simp
    show ?thesis
    proof (cases "bit (uint (nSequence txin)) 22")
      case True
      then obtain q t where "GetAncestor st block (max (h - 1) 0) = Inr (Some q)" "GetMedianTimePast st q = Inr t"
        "sequence_locks_loop st block ins (mh, max mt (t + 512 * (uint (nSequence txin) AND 0xffff) - 1)) = Inr (mh', mt')"
        using Cons.prems(1) assms(3) by (auto simp: i locks sequence_flags simp del: push_bit_and split: sum.splits option.splits)
      then show ?thesis using True sequence_locks_mono by (fastforce simp: lock_reached_def locks)
    next
      case False
      then have "sequence_locks_loop st block ins (max mh (h + (uint (nSequence txin) AND 0xffff) - 1), mt) = Inr (mh', mt')"
        using Cons.prems(1) assms(3) by (auto simp: i locks sequence_flags)
      then show ?thesis using False sequence_locks_mono by (fastforce simp: lock_reached_def locks)
    qed
  qed
qed simp

subsection \<open>Signature operations do not wrap\<close>

lemma sum_of_nat_u32: "sum_list (map (\<lambda>x. of_nat (f x)) xs) = (of_nat (sum_list (map f xs)) :: u32)"
  by (induction xs) simp_all

lemma length_concat_map: "length (concat (map f xs)) = sum_list (map (\<lambda>x. length (f x)) xs)"
  by (induction xs) simp_all

lemma script_bytes_in_tx:
  "sum_list (map (\<lambda>i. length (scriptSig i)) (vin tx)) + sum_list (map (\<lambda>ou. length (scriptPubKey ou)) (vout tx))
    \<le> length (ser_CTransaction tx)"
proof -
  have "sum_list (map (\<lambda>i. length (scriptSig i)) (vin tx)) \<le> length (ser_vector ser_CTxIn (vin tx))"
    unfolding ser_vector_def length_append length_concat_map
    by (rule trans_le_add2, rule sum_list_mono) (simp add: ser_CTxIn_def ser_byte_vector_def)
  moreover have "sum_list (map (\<lambda>ou. length (scriptPubKey ou)) (vout tx)) \<le> length (ser_vector ser_CTxOut (vout tx))"
    unfolding ser_vector_def length_append length_concat_map
    by (rule trans_le_add2, rule sum_list_mono) (simp add: ser_CTxOut_def ser_byte_vector_def)
  ultimately show ?thesis by (simp add: ser_CTransaction_def)
qed

lemma GetLegacySigOpCount_exact:
  assumes "CheckTransaction tx = Inr ()"
  shows "unat (GetLegacySigOpCount tx) =
      sum_list (map (\<lambda>i. GetSigOpCount (scriptSig i) False) (vin tx))
      + sum_list (map (\<lambda>ou. GetSigOpCount (scriptPubKey ou) False) (vout tx))"
    "unat (GetLegacySigOpCount tx) \<le> 20 * length (ser_CTransaction tx)"
proof -
  let ?n = "sum_list (map (\<lambda>i. GetSigOpCount (scriptSig i) False) (vin tx))
      + sum_list (map (\<lambda>ou. GetSigOpCount (scriptPubKey ou) False) (vout tx))"
  have "sum_list (map (\<lambda>i. GetSigOpCount (scriptSig i) False) (vin tx)) \<le> sum_list (map (\<lambda>i. 20 * length (scriptSig i)) (vin tx))"
    "sum_list (map (\<lambda>ou. GetSigOpCount (scriptPubKey ou) False) (vout tx)) \<le> sum_list (map (\<lambda>ou. 20 * length (scriptPubKey ou)) (vout tx))"
    by (rule sum_list_mono, simp add: GetSigOpCount_def count_sig_ops_le)+
  then have n: "?n \<le> 20 * length (ser_CTransaction tx)"
    using script_bytes_in_tx [of tx] unfolding sum_list_const_mult by linarith
  also have "\<dots> \<le> 20 * 1000000" using assms by (simp add: CheckTransaction_parts MAX_LEGACY_BLOCK_SIZE_def)
  finally have "?n < 2 ^ 32" by simp
  moreover have "GetLegacySigOpCount tx = of_nat ?n" by (simp add: GetLegacySigOpCount_def sum_of_nat_u32)
  ultimately show e: "unat (GetLegacySigOpCount tx) = ?n" by (simp add: unsigned_of_nat take_bit_nat_eq_self del: of_nat_add)
  show "unat (GetLegacySigOpCount tx) \<le> 20 * length (ser_CTransaction tx)" unfolding e by (rule n)
qed

subsection \<open>Properties\<close>

text \<open>
  C14.  For a transaction that passed the context-free checks, is no coinbase and unlocks no assets, read
  through any consistent cache: \<^verbatim>\<open>CheckTxInputs\<close> trips no assertion and throws nothing, leaves the coins as
  they were, and accepts with fee \<open>f\<close> exactly when every input spends an existing coin that is mature and of
  valid amount, the inputs together are a valid amount, and \<open>f\<close> is what the outputs leave of it.
\<close>

theorem CheckTxInputs_correct:
  assumes "cache_inv usage base c" "CheckTransaction tx = Inr ()" "\<not> IsCoinBase tx"
    "\<not> (IsSpecialTxVersion tx \<and> nType tx = TRANSACTION_ASSET_UNLOCK)" "V = coins base (cacheCoins c)"
  shows "\<exists>r c'. CheckTxInputs usage base unser_sig tx c height = (Inr r, c') \<and> SanityCheck usage c'
    \<and> coins base (cacheCoins c') = V
    \<and> (\<forall>f. r = Inr f \<longleftrightarrow>
        (\<forall>i \<in> set (vin tx). \<exists>coin. V (prevout i) = Some coin \<and> MoneyRange (nValue (coin_out coin))
           \<and> (fCoinBase coin \<longrightarrow> uint (coin_nHeight coin) + COINBASE_MATURITY \<le> height))
        \<and> MoneyRange (value_in V (vin tx)) \<and> f = value_in V (vin tx) - value_out tx \<and> 0 \<le> f)"
proof -
  have e: "(\<exists>coin. V (prevout i) = Some coin \<and> MoneyRange (nValue (coin_out coin))
      \<and> (fCoinBase coin \<longrightarrow> uint (coin_nHeight coin) + COINBASE_MATURITY \<le> height))
    \<longleftrightarrow> V (prevout i) \<noteq> None \<and> spendable_at height (input_coin V i)" for i
    by (auto simp: spendable_at_def input_coin_def)
  obtain r c' where "CheckTxInputs usage base unser_sig tx c height = (Inr r, c')" "cache_inv usage base c'"
    "coins base (cacheCoins c') = V" "\<forall>f. r = Inr f \<longleftrightarrow>
      (\<forall>i \<in> set (vin tx). V (prevout i) \<noteq> None \<and> spendable_at height (input_coin V i))
        \<and> MoneyRange (value_in V (vin tx)) \<and> f = value_in V (vin tx) - value_out tx \<and> 0 \<le> f"
    using CheckTxInputs_spec [OF assms, of unser_sig height] by blast
  then show ?thesis unfolding e [symmetric] using cache_inv_SanityCheck [of usage base c'] by blast
qed

definition demo_view :: coins_view where
  "demo_view = (\<lambda>k. if k = demo_outpoint then Some demo_coin else None)"

definition demo_spend :: CTransaction where
  "demo_spend = \<lparr>vin = [\<lparr>prevout = demo_outpoint, scriptSig = [], nSequence = 2\<rparr>],
     vout = [\<lparr>nValue = 3, scriptPubKey = [OP_1]\<rparr>], tx_nVersion = 2, nType = 0, nLockTime = 100, vExtraPayload = []\<rparr>"

lemma demo_spend_facts:
  "cache_inv demo_usage demo_view make_CCoinsViewCache" "coins demo_view (cacheCoins make_CCoinsViewCache) = demo_view"
  "CheckTransaction demo_spend = Inr ()" "\<not> IsCoinBase demo_spend" "\<not> IsSpecialTxVersion demo_spend"
proof -
  have "view_ok demo_view" using demo_coin_facts by (simp add: view_ok_def demo_view_def)
  then show "cache_inv demo_usage demo_view make_CCoinsViewCache" by (rule empty_cache_inv)
  show "coins demo_view (cacheCoins make_CCoinsViewCache) = demo_view" by (simp add: coins_def make_CCoinsViewCache_def fun_eq_iff)
  have n: "\<not> COutPoint_IsNull demo_outpoint" by (simp add: COutPoint_IsNull_def demo_outpoint_def blob_IsNull_def NULL_INDEX_def)
  show c: "\<not> IsCoinBase demo_spend" using n by (simp add: IsCoinBase_def demo_spend_def)
  show "\<not> IsSpecialTxVersion demo_spend" by (simp add: IsSpecialTxVersion_def demo_spend_def SPECIAL_VERSION_def)
  have "length (ser_CTransaction demo_spend) \<le> 1000000"
    by (simp add: demo_spend_def ser_CTransaction_def ser_vector_def ser_CTxIn_def ser_CTxOut_def ser_COutPoint_def
        ser_byte_vector_def ser_int64_def ser_uint256_def ser_writedata32_def ser_writedata64_def demo_outpoint_def
        length_WriteCompactSize GetSizeOfCompactSize_def HasExtraPayloadField_def IsSpecialTxVersion_def SPECIAL_VERSION_def)
  then show "CheckTransaction demo_spend = Inr ()" using c n
    by (simp add: CheckTransaction_parts check_coinbase_iff MAX_LEGACY_BLOCK_SIZE_def MAX_TX_EXTRA_PAYLOAD_def)
       (simp add: demo_spend_def MoneyRange_def MAX_MONEY_def COIN_def set_has_def)
qed

theorem CheckTxInputs_correct_witness:
  "\<exists>c'. CheckTxInputs demo_usage demo_view unser_uint256 demo_spend make_CCoinsViewCache 7 = (Inr (Inr 2), c')"
proof -
  have v: "value_in demo_view (vin demo_spend) = 5" "value_out demo_spend = 3"
    by (simp_all add: value_in_def value_out_def input_coin_def demo_view_def demo_spend_def demo_coin_def)
  have "\<forall>i \<in> set (vin demo_spend). demo_view (prevout i) = Some demo_coin" by (simp add: demo_spend_def demo_view_def)
  moreover have "MoneyRange (nValue (coin_out demo_coin))" "\<not> fCoinBase demo_coin" "MoneyRange 5"
    by (simp_all add: demo_coin_def MoneyRange_def MAX_MONEY_def COIN_def)
  ultimately show ?thesis
    using CheckTxInputs_correct [OF demo_spend_facts(1,3,4), of demo_view unser_uint256 7] demo_spend_facts(2,5)
    by (auto simp: v)
qed

text \<open>
  C15.  \<^verbatim>\<open>OP_CHECKLOCKTIMEVERIFY\<close> together with \<^verbatim>\<open>IsFinalTx\<close> is an absolute lock: when the opcode succeeds on an
  input of a transaction that is final at a height and time, its operand is below that height, or
  below that time for operands from 500000000 on.
\<close>

theorem checklocktime_locks_until:
  assumes "has_flag flags SCRIPT_VERIFY_CHECKLOCKTIMEVERIFY" "nIn < length (vin tx)"
    "op_CHECKLOCKTIMEVERIFY (TransactionSignatureChecker cr tx nIn) flags s = Inr s'" "IsFinalTx tx height time"
  shows "\<exists>n. read_num flags 5 (hd s) = Inr n
    \<and> (n = 0 \<or> 0 < n \<and> (if n < LOCKTIME_THRESHOLD then n < height else n < time))"
proof -
  obtain n where n: "read_num flags 5 (hd s) = Inr n" "0 \<le> n" "tx_CheckLockTime tx nIn n"
    using assms(1,3) by (auto simp: op_CHECKLOCKTIMEVERIFY_def TransactionSignatureChecker_def sbind_def
        split: if_splits sum.splits)
  have "\<not> list_all (\<lambda>txin. nSequence txin = SEQUENCE_FINAL) (vin tx)"
    using n(3) assms(2) by (auto simp: tx_CheckLockTime_def list_all_length split: if_splits)
  then have "nLockTime tx = 0 \<or> uint (nLockTime tx) < (if uint (nLockTime tx) < LOCKTIME_THRESHOLD then height else time)"
    using assms(4) by (auto simp: IsFinalTx_def split: if_splits)
  then have "n = 0 \<or> 0 < n \<and> (if n < LOCKTIME_THRESHOLD then n < height else n < time)"
    using n(2,3) by (auto simp: tx_CheckLockTime_def split: if_splits)
  then show ?thesis using n(1) by blast
qed

theorem checklocktime_locks_until_witness:
  "\<exists>n. read_num SCRIPT_VERIFY_CHECKLOCKTIMEVERIFY 5 [100] = Inr n \<and> (n = 0 \<or> n < (101 :: int))"
proof -
  have "has_flag SCRIPT_VERIFY_CHECKLOCKTIMEVERIFY SCRIPT_VERIFY_CHECKLOCKTIMEVERIFY" by code_simp
  moreover have "op_CHECKLOCKTIMEVERIFY (TransactionSignatureChecker undefined demo_spend 0)
      SCRIPT_VERIFY_CHECKLOCKTIMEVERIFY [[100]] = Inr [[100]]"
    unfolding op_CHECKLOCKTIMEVERIFY_def TransactionSignatureChecker_def by code_simp
  moreover have "IsFinalTx demo_spend 101 101" by code_simp
  moreover have "0 < length (vin demo_spend)" by (simp add: demo_spend_def)
  ultimately show ?thesis
    using checklocktime_locks_until [of SCRIPT_VERIFY_CHECKLOCKTIMEVERIFY 0 demo_spend undefined "[[100]]" "[[100]]" 101 101]
    by auto
qed

text \<open>
  C16.  \<^verbatim>\<open>OP_CHECKSEQUENCEVERIFY\<close> together with \<^verbatim>\<open>SequenceLocks\<close> is a relative lock: when the opcode succeeds
  and the locks are met at a block, the block lies at least the operand's number of blocks above the
  block of the spent output, or at least that many units of 512 seconds of median time after it.
\<close>

theorem checksequence_locks_for:
  assumes "has_flag flags SCRIPT_VERIFY_CHECKSEQUENCEVERIFY" "nIn < length (vin tx)"
    "op_CHECKSEQUENCEVERIFY (TransactionSignatureChecker cr tx nIn) flags s = Inr s'"
    "SequenceLocks tx LOCKTIME_VERIFY_SEQUENCE prevHeights st block = Inr (True, prevHeights')" "st block = Some b"
  shows "\<exists>n. read_num flags 5 (hd s) = Inr n \<and> 0 \<le> n \<and>
    (n AND uint SEQUENCE_LOCKTIME_DISABLE_FLAG = 0 \<longrightarrow>
      (if bit n 22
       then \<exists>q t q' t'. GetAncestor st block (max (prevHeights ! nIn - 1) 0) = Inr (Some q) \<and> GetMedianTimePast st q = Inr t
         \<and> pprev b = Some q' \<and> GetMedianTimePast st q' = Inr t' \<and> t + 512 * (n AND 0xffff) \<le> t'
       else prevHeights ! nIn + (n AND 0xffff) \<le> int (nHeight b)))"
proof -
  let ?i = "vin tx ! nIn"
  obtain n where n: "read_num flags 5 (hd s) = Inr n" "0 \<le> n"
    "n AND uint SEQUENCE_LOCKTIME_DISABLE_FLAG = 0 \<Longrightarrow> tx_CheckSequence tx nIn n"
    using assms(1,3) by (auto simp: op_CHECKSEQUENCEVERIFY_def TransactionSignatureChecker_def sbind_def
        split: if_splits sum.splits)
  obtain locks where l: "CalculateSequenceLocks tx LOCKTIME_VERIFY_SEQUENCE prevHeights st block = Inr (locks, prevHeights')"
    "EvaluateSequenceLocks st block locks = Inr True"
    using assms(4) by (auto simp: SequenceLocks_def split: sum.splits)
  obtain q' t' where e: "pprev b = Some q'" "GetMedianTimePast st q' = Inr t'" "fst locks < int (nHeight b)" "snd locks < t'"
    using l(2) assms(5) by (auto simp: EvaluateSequenceLocks_def split: option.splits sum.splits)
  have "if bit n 22
       then \<exists>q t q' t'. GetAncestor st block (max (prevHeights ! nIn - 1) 0) = Inr (Some q) \<and> GetMedianTimePast st q = Inr t
         \<and> pprev b = Some q' \<and> GetMedianTimePast st q' = Inr t' \<and> t + 512 * (n AND 0xffff) \<le> t'
       else prevHeights ! nIn + (n AND 0xffff) \<le> int (nHeight b)"
    if d: "n AND uint SEQUENCE_LOCKTIME_DISABLE_FLAG = 0"
  proof -
    note k = tx_CheckSequence_same_kind [OF n(3) [OF d] n(2)]
    have "length prevHeights = length (vin tx)" "sequence_locks_loop st block (zip (vin tx) prevHeights) (-1, -1) = Inr locks"
      using l(1) k(1) by (auto simp: CalculateSequenceLocks_def Let_def LOCKTIME_VERIFY_SEQUENCE_def split: if_splits sum.splits)
    then have "lock_reached st block ?i (prevHeights ! nIn) locks"
      using sequence_locks_cover k(2) assms(2) by (metis length_zip min.idem nth_mem nth_zip)
    then show ?thesis using k(3,4) e unfolding lock_reached_def by (auto split: if_splits)
  qed
  then show ?thesis using n by blast
qed

theorem checksequence_locks_for_witness:
  "\<exists>n. read_num SCRIPT_VERIFY_CHECKSEQUENCEVERIFY 5 [2] = Inr n"
proof -
  have "has_flag SCRIPT_VERIFY_CHECKSEQUENCEVERIFY SCRIPT_VERIFY_CHECKSEQUENCEVERIFY" by code_simp
  moreover have "op_CHECKSEQUENCEVERIFY (TransactionSignatureChecker undefined demo_spend 0)
      SCRIPT_VERIFY_CHECKSEQUENCEVERIFY [[2]] = Inr [[2]]"
    unfolding op_CHECKSEQUENCEVERIFY_def TransactionSignatureChecker_def by code_simp
  moreover have "SequenceLocks demo_spend LOCKTIME_VERIFY_SEQUENCE [1] sample_store 3 = Inr (True, [1])" by code_simp
  moreover have "0 < length (vin demo_spend)" by (simp add: demo_spend_def)
  ultimately show ?thesis
    using checksequence_locks_for [of SCRIPT_VERIFY_CHECKSEQUENCEVERIFY 0 demo_spend undefined "[[2]]" "[[2]]" "[1]"
        sample_store 3 "[1]"] by auto
qed

end
