(* ===== verification/Undo.thy ===== *)
theory Undo
  imports Tx_Verify
begin

text \<open>
  The effect of a block on the coins and its undo data: \<^verbatim>\<open>undo.h\<close>, \<^verbatim>\<open>UpdateCoins\<close>, \<^verbatim>\<open>ApplyTxInUndo\<close> and
  \<^verbatim>\<open>DisconnectBlock\<close> of \<^verbatim>\<open>validation.cpp\<close> and \<^verbatim>\<open>AccessByTxid\<close> of \<^verbatim>\<open>coins.cpp\<close>.  The optional address, spent and
  timestamp indexes are off; what other subsystems answer to \<^verbatim>\<open>DisconnectBlock\<close> is its argument.
\<close>

subsection \<open>Undo records\<close>

type_synonym CTxUndo = "Coin list"
type_synonym CBlockUndo = "CTxUndo list"

definition TxInUndo_Ser :: "(bytes \<Rightarrow> bool) \<Rightarrow> Coin \<Rightarrow> bytes" where
  "TxInUndo_Ser V txout =
    WriteVarInt (unat (coin_nHeight txout * 2 + (if fCoinBase txout then 1 else 0)))
    @ (if coin_nHeight txout > 0 then [0] else []) @ TxOutCompression_Ser V (coin_out txout)"

definition TxInUndo_Unser :: "(bytes \<Rightarrow> bytes option) \<Rightarrow> Coin \<Rightarrow> Coin reader" where
  "TxInUndo_Unser D txout = rbind (ReadVarInt (2 ^ 32 - 1)) (\<lambda>code.
     let nCode = word_of_nat code :: u32; height = drop_bit 1 nCode in
     rbind (if height > 0 then rbind (ReadVarInt (2 ^ 32 - 1)) (\<lambda>nVersionDummy. rret ()) else rret ()) (\<lambda>_.
     rbind (TxOutCompression_Unser D (coin_out txout)) (\<lambda>txo.
       rret \<lparr>coin_out = txo, fCoinBase = (nCode AND 1 \<noteq> 0), coin_nHeight = height\<rparr>)))"

definition ser_CTxUndo :: "(bytes \<Rightarrow> bool) \<Rightarrow> CTxUndo \<Rightarrow> bytes" where
  "ser_CTxUndo V = ser_vector (TxInUndo_Ser V)"

definition unser_CTxUndo :: "(bytes \<Rightarrow> bytes option) \<Rightarrow> CTxUndo reader" where
  "unser_CTxUndo D = unser_vector (TxInUndo_Unser D coinEmpty)"

definition ser_CBlockUndo :: "(bytes \<Rightarrow> bool) \<Rightarrow> CBlockUndo \<Rightarrow> bytes" where
  "ser_CBlockUndo V = ser_vector (ser_CTxUndo V)"

definition unser_CBlockUndo :: "(bytes \<Rightarrow> bytes option) \<Rightarrow> CBlockUndo reader" where
  "unser_CBlockUndo D = unser_vector (unser_CTxUndo D)"

subsection \<open>Connecting\<close>

datatype update_fault = InputNotSpent | AddRefused coins_error

fun spend_inputs ::
  "(Coin \<Rightarrow> u64) \<Rightarrow> coins_view \<Rightarrow> CTxIn list \<Rightarrow> CCoinsViewCache \<Rightarrow> (update_fault + CTxUndo) \<times> CCoinsViewCache" where
  "spend_inputs usage base [] inputs = (Inr [], inputs)"
| "spend_inputs usage base (txin # ins) inputs =
    (case SpendCoin usage base inputs (prevout txin) of
       (None, inputs) \<Rightarrow> (Inl InputNotSpent, inputs)
     | (Some coin, inputs) \<Rightarrow>
       (case spend_inputs usage base ins inputs of
          (Inl e, inputs) \<Rightarrow> (Inl e, inputs)
        | (Inr undo, inputs) \<Rightarrow> (Inr (coin # undo), inputs)))"

definition UpdateCoins ::
  "(Coin \<Rightarrow> u64) \<Rightarrow> coins_view \<Rightarrow> (bytes \<Rightarrow> uint256) \<Rightarrow> CTransaction \<Rightarrow> CCoinsViewCache \<Rightarrow> int
     \<Rightarrow> (update_fault + CTxUndo) \<times> CCoinsViewCache" where
  "UpdateCoins usage base hash256d tx inputs height =
    (case (if \<not> IsCoinBase tx then spend_inputs usage base (vin tx) inputs else (Inr [], inputs)) of
       (Inl e, inputs) \<Rightarrow> (Inl e, inputs)
     | (Inr undo, inputs) \<Rightarrow>
       (case AddCoins usage base hash256d inputs tx height False of
          (Some e, inputs) \<Rightarrow> (Inl (AddRefused e), inputs)
        | (None, inputs) \<Rightarrow> (Inr undo, inputs)))"

text \<open>The loop of \<^verbatim>\<open>ConnectBlock\<close> over the transactions, as far as it changes coins: index 0 leaves no undo data.\<close>

fun update_txs ::
  "(Coin \<Rightarrow> u64) \<Rightarrow> coins_view \<Rightarrow> (bytes \<Rightarrow> uint256) \<Rightarrow> int \<Rightarrow> nat \<Rightarrow> CTransaction list \<Rightarrow> CCoinsViewCache
     \<Rightarrow> (update_fault + CBlockUndo) \<times> CCoinsViewCache" where
  "update_txs usage base hash256d height i [] view = (Inr [], view)"
| "update_txs usage base hash256d height i (tx # txs) view =
    (case UpdateCoins usage base hash256d tx view height of
       (Inl e, view) \<Rightarrow> (Inl e, view)
     | (Inr undo, view) \<Rightarrow>
       (case update_txs usage base hash256d height (i + 1) txs view of
          (Inl e, view) \<Rightarrow> (Inl e, view)
        | (Inr blockundo, view) \<Rightarrow> (Inr (if i > 0 then undo # blockundo else blockundo), view)))"

subsection \<open>Disconnecting\<close>

datatype DisconnectResult = DISCONNECT_OK | DISCONNECT_UNCLEAN | DISCONNECT_FAILED

definition MAX_OUTPUTS_PER_BLOCK :: nat where
  "MAX_OUTPUTS_PER_BLOCK = MaxBlockSize True div length (ser_CTxOut CTxOut_SetNull)"

function access_by_txid ::
  "(Coin \<Rightarrow> u64) \<Rightarrow> coins_view \<Rightarrow> uint256 \<Rightarrow> nat \<Rightarrow> CCoinsViewCache \<Rightarrow> Coin \<times> CCoinsViewCache" where
  "access_by_txid usage base txid n view =
    (if n < MAX_OUTPUTS_PER_BLOCK then
       let (alternate, view) = AccessCoin usage base view \<lparr>op_hash = txid, op_n = word_of_nat n\<rparr> in
       if \<not> Coin_IsSpent alternate then (alternate, view) else access_by_txid usage base txid (n + 1) view
     else (coinEmpty, view))"
  by auto
termination by (relation "measure (\<lambda>(_, _, _, n, _). MAX_OUTPUTS_PER_BLOCK - n)") auto

declare access_by_txid.simps [simp del]

definition AccessByTxid ::
  "(Coin \<Rightarrow> u64) \<Rightarrow> coins_view \<Rightarrow> CCoinsViewCache \<Rightarrow> uint256 \<Rightarrow> Coin \<times> CCoinsViewCache" where
  "AccessByTxid usage base view txid = access_by_txid usage base txid 0 view"

definition ApplyTxInUndo ::
  "(Coin \<Rightarrow> u64) \<Rightarrow> coins_view \<Rightarrow> Coin \<Rightarrow> CCoinsViewCache \<Rightarrow> COutPoint
     \<Rightarrow> (coins_error + DisconnectResult) \<times> CCoinsViewCache" where
  "ApplyTxInUndo usage base undo view out =
    (let (have, view) = HaveCoin usage base view out;
         fClean = (\<not> have);
         (undo, view) =
           (if coin_nHeight undo = 0 then
              let (alternate, view) = AccessByTxid usage base view (op_hash out) in
              (if \<not> Coin_IsSpent alternate
               then Some (undo\<lparr>coin_nHeight := coin_nHeight alternate, fCoinBase := fCoinBase alternate\<rparr>) else None, view)
            else (Some undo, view))
     in case undo of None \<Rightarrow> (Inr DISCONNECT_FAILED, view)
        | Some undo \<Rightarrow>
          (case AddCoin usage view out undo (\<not> fClean) of
             (Some e, view) \<Rightarrow> (Inl e, view)
           | (None, view) \<Rightarrow> (Inr (if fClean then DISCONNECT_OK else DISCONNECT_UNCLEAN), view)))"

fun spend_outputs ::
  "(Coin \<Rightarrow> u64) \<Rightarrow> coins_view \<Rightarrow> uint256 \<Rightarrow> int \<Rightarrow> bool \<Rightarrow> bool \<Rightarrow> nat \<Rightarrow> CTxOut list \<Rightarrow> CCoinsViewCache \<Rightarrow> bool
     \<Rightarrow> bool \<times> CCoinsViewCache" where
  "spend_outputs usage base hash height is_coinbase is_bip30_exception n [] view fClean = (fClean, view)"
| "spend_outputs usage base hash height is_coinbase is_bip30_exception n (txout # outs) view fClean =
    (if IsUnspendable (scriptPubKey txout)
     then spend_outputs usage base hash height is_coinbase is_bip30_exception (n + 1) outs view fClean
     else let (r, view) = SpendCoin usage base view \<lparr>op_hash = hash, op_n = word_of_nat n\<rparr>;
              mismatch = (case r of None \<Rightarrow> True
                | Some coin \<Rightarrow> txout \<noteq> coin_out coin \<or> height \<noteq> uint (coin_nHeight coin) \<or> is_coinbase \<noteq> fCoinBase coin)
          in spend_outputs usage base hash height is_coinbase is_bip30_exception (n + 1) outs view
               (if mismatch \<and> \<not> is_bip30_exception then False else fClean))"

text \<open>Inputs are restored from the last to the first: the argument is the reversed list with its undo data.\<close>

fun restore_inputs ::
  "(Coin \<Rightarrow> u64) \<Rightarrow> coins_view \<Rightarrow> (CTxIn \<times> Coin) list \<Rightarrow> CCoinsViewCache \<Rightarrow> bool
     \<Rightarrow> (coins_error + bool option) \<times> CCoinsViewCache" where
  "restore_inputs usage base [] view fClean = (Inr (Some fClean), view)"
| "restore_inputs usage base ((txin, undo) # ins) view fClean =
    (case ApplyTxInUndo usage base undo view (prevout txin) of
       (Inl e, view) \<Rightarrow> (Inl e, view)
     | (Inr res, view) \<Rightarrow>
       if res = DISCONNECT_FAILED then (Inr None, view)
       else restore_inputs usage base ins view (fClean \<and> res \<noteq> DISCONNECT_UNCLEAN))"

text \<open>Transactions from the last to the first, each with its undo data; the first of the block has none.\<close>

fun disconnect_txs ::
  "(Coin \<Rightarrow> u64) \<Rightarrow> coins_view \<Rightarrow> (bytes \<Rightarrow> uint256) \<Rightarrow> int \<Rightarrow> bool \<Rightarrow> (CTransaction \<times> CTxUndo option) list
     \<Rightarrow> CCoinsViewCache \<Rightarrow> bool \<Rightarrow> (coins_error + bool option) \<times> CCoinsViewCache" where
  "disconnect_txs usage base hash256d height fEnforceBIP30 [] view fClean = (Inr (Some fClean), view)"
| "disconnect_txs usage base hash256d height fEnforceBIP30 ((tx, txundo) # txs) view fClean =
    (let (fClean, view) = spend_outputs usage base (GetHash hash256d tx) height (IsCoinBase tx)
           (IsCoinBase tx \<and> \<not> fEnforceBIP30) 0 (vout tx) view fClean
     in case txundo of
       None \<Rightarrow> disconnect_txs usage base hash256d height fEnforceBIP30 txs view fClean
     | Some vprevout \<Rightarrow>
       if length vprevout \<noteq> length (vin tx) then (Inr None, view)
       else (case restore_inputs usage base (rev (zip (vin tx) vprevout)) view fClean of
           (Inl e, view) \<Rightarrow> (Inl e, view)
         | (Inr None, view) \<Rightarrow> (Inr None, view)
         | (Inr (Some fClean), view) \<Rightarrow> disconnect_txs usage base hash256d height fEnforceBIP30 txs view fClean))"

definition undo_fEnforceBIP30 :: "CBlockIndex \<Rightarrow> bool" where
  "undo_fEnforceBIP30 b \<longleftrightarrow>
    \<not> (nHeight b = 91722 \<and> phashBlock b = uint256S ''0x00000000000271a2dc26e7667f8419f2e15416dc6955e5a6c6cdf3f2574dd08e''
     \<or> nHeight b = 91812 \<and> phashBlock b = uint256S ''0x00000000000af0aed4792b1acee3d966af36cf5def14935db8de83d6f9306f2f'')"

text \<open>What the evolution database, the disk and the special transactions answer.\<close>

record disconnect_env =
  evodb_best_ok :: bool
  undo_on_disk :: "CBlockUndo option"
  special_txs_undone :: bool

definition finish_disconnect ::
  "uint256 \<Rightarrow> bool \<Rightarrow> CCoinsViewCache \<Rightarrow> (coins_error + DisconnectResult) \<times> CCoinsViewCache" where
  "finish_disconnect prev_hash fClean view =
    (Inr (if fClean then DISCONNECT_OK else DISCONNECT_UNCLEAN), SetBestBlock prev_hash view)"

definition DisconnectBlock ::
  "(Coin \<Rightarrow> u64) \<Rightarrow> coins_view \<Rightarrow> (bytes \<Rightarrow> uint256) \<Rightarrow> Params \<Rightarrow> disconnect_env \<Rightarrow> CTransaction list \<Rightarrow> CBlockIndex
     \<Rightarrow> uint256 \<Rightarrow> CCoinsViewCache \<Rightarrow> (coins_error + DisconnectResult) \<times> CCoinsViewCache" where
  "DisconnectBlock usage base hash256d params env vtx pindex prev_hash view =
    (let fDIP0003Active = (int (nHeight pindex) \<ge> DIP0003Height params) in
     if fDIP0003Active \<and> \<not> evodb_best_ok env then (Inr DISCONNECT_FAILED, view)
     else case undo_on_disk env of None \<Rightarrow> (Inr DISCONNECT_FAILED, view)
     | Some blockUndo \<Rightarrow>
       if length blockUndo + 1 \<noteq> length vtx then (Inr DISCONNECT_FAILED, view)
       else if \<not> special_txs_undone env then (Inr DISCONNECT_FAILED, view)
       else (case disconnect_txs usage base hash256d (int (nHeight pindex)) (undo_fEnforceBIP30 pindex)
             (rev (zip vtx (None # map Some blockUndo))) view True of
           (Inl e, view) \<Rightarrow> (Inl e, view)
         | (Inr None, view) \<Rightarrow> (Inr DISCONNECT_FAILED, view)
         | (Inr (Some fClean), view) \<Rightarrow>
           finish_disconnect prev_hash fClean view))"

subsection \<open>The same on a plain map\<close>

definition output_point :: "uint256 \<Rightarrow> nat \<Rightarrow> COutPoint" where
  "output_point txid n = \<lparr>op_hash = txid, op_n = word_of_nat n\<rparr>"

fun put_outputs :: "uint256 \<Rightarrow> bool \<Rightarrow> int \<Rightarrow> nat \<Rightarrow> CTxOut list \<Rightarrow> coins_view \<Rightarrow> coins_view" where
  "put_outputs txid cb height n [] V = V"
| "put_outputs txid cb height n (ou # outs) V = put_outputs txid cb height (n + 1) outs
    (if IsUnspendable (scriptPubKey ou) then V else V(output_point txid n \<mapsto> make_Coin ou height cb))"

definition spent_view :: "coins_view \<Rightarrow> CTransaction \<Rightarrow> coins_view" where
  "spent_view V tx = (if IsCoinBase tx then V else V |` (- prevout ` set (vin tx)))"

definition tx_effect :: "(bytes \<Rightarrow> uint256) \<Rightarrow> int \<Rightarrow> CTransaction \<Rightarrow> coins_view \<Rightarrow> coins_view" where
  "tx_effect hash256d height tx V =
    put_outputs (GetHash hash256d tx) (IsCoinBase tx) height 0 (vout tx) (spent_view V tx)"

definition tx_undo :: "coins_view \<Rightarrow> CTransaction \<Rightarrow> CTxUndo" where
  "tx_undo V tx = (if IsCoinBase tx then [] else map (input_coin V) (vin tx))"

text \<open>The inputs exist and differ, the outputs are amounts, and no output of the same name is unspent.\<close>

definition connectable :: "(bytes \<Rightarrow> uint256) \<Rightarrow> coins_view \<Rightarrow> CTransaction \<Rightarrow> bool" where
  "connectable hash256d V tx \<longleftrightarrow>
    (IsCoinBase tx \<or> distinct (map prevout (vin tx)) \<and> (\<forall>i \<in> set (vin tx). V (prevout i) \<noteq> None))
    \<and> length (vout tx) \<le> 2 ^ 32 \<and> (\<forall>ou \<in> set (vout tx). MoneyRange (nValue ou))
    \<and> (\<forall>n < length (vout tx). V (output_point (GetHash hash256d tx) n) = None)"

lemma output_point_inj: "m < 2 ^ 32 \<Longrightarrow> n < 2 ^ 32 \<Longrightarrow> output_point h m = output_point h n \<longleftrightarrow> m = n"
proof -
  assume "m < 2 ^ 32" "n < 2 ^ 32"
  then have "unat (word_of_nat m :: u32) = m" "unat (word_of_nat n :: u32) = n"
    by (simp_all add: unsigned_of_nat take_bit_nat_eq_self)
  then show ?thesis by (metis COutPoint.ext_inject output_point_def)
qed

lemma put_outputs_dom: "put_outputs txid cb height n outs V k \<noteq> V k \<Longrightarrow> \<exists>m < length outs. k = output_point txid (n + m)"
proof (induction outs arbitrary: n V)
  case (Cons ou outs)
  show ?case
  proof (cases "k = output_point txid n")
    case False
    then have "put_outputs txid cb height (n + 1) outs (if IsUnspendable (scriptPubKey ou) then V
        else V(output_point txid n \<mapsto> make_Coin ou height cb)) k \<noteq>
      (if IsUnspendable (scriptPubKey ou) then V else V(output_point txid n \<mapsto> make_Coin ou height cb)) k"
      using Cons.prems by auto
    from Cons.IH [OF this] show ?thesis by (metis Suc_less_eq add_Suc_shift add.commute plus_1_eq_Suc length_Cons)
  qed auto
qed simp

lemma put_outputs_before: "n + length outs \<le> 2 ^ 32 \<Longrightarrow> m < n \<Longrightarrow>
    put_outputs txid cb height n outs V (output_point txid m) = V (output_point txid m)"
proof (rule ccontr)
  assume a: "n + length outs \<le> 2 ^ 32" "m < n"
    "put_outputs txid cb height n outs V (output_point txid m) \<noteq> V (output_point txid m)"
  from put_outputs_dom [OF a(3)] obtain k where "k < length outs" "output_point txid m = output_point txid (n + k)" by blast
  then show False using a(1,2) output_point_inj [of m "n + k" txid] by simp
qed

lemma make_Coin_spent [simp]: "Coin_IsSpent (make_Coin ou height cb) \<longleftrightarrow> CTxOut_IsNull ou" "coin_out (make_Coin ou height cb) = ou"
  "fCoinBase (make_Coin ou height cb) = cb"
  by (simp_all add: make_Coin_def Coin_IsSpent_def)

lemma make_Coin_height: "0 \<le> height \<Longrightarrow> height < 2 ^ 31 \<Longrightarrow> uint (coin_nHeight (make_Coin ou height cb)) = height"
  by (simp add: make_Coin_def unsigned_take_bit_eq unsigned_of_int take_bit_int_eq_self)

subsection \<open>Connecting one transaction\<close>

lemma input_coin_Some: "V (prevout i) = Some coin \<Longrightarrow> input_coin V i = coin"
  by (simp add: input_coin_def)

lemma spend_inputs_correct:
  assumes "cache_inv usage base c" "usage Coin_Clear = 0" "coins base (cacheCoins c) = V"
    "distinct (map prevout ins)" "\<forall>i \<in> set ins. V (prevout i) \<noteq> None"
  shows "\<exists>c'. spend_inputs usage base ins c = (Inr (map (input_coin V) ins), c') \<and> cache_inv usage base c'
    \<and> coins base (cacheCoins c') = V |` (- prevout ` set ins)"
  using assms(1,3-5)
proof (induction ins arbitrary: c V)
  case (Cons i ins)
  let ?V = "V(prevout i := None)"
  obtain coin where v: "V (prevout i) = Some coin" using Cons.prems(4) by auto
  obtain r c1 where s: "SpendCoin usage base c (prevout i) = (r, c1)" by (cases "SpendCoin usage base c (prevout i)") auto
  note S = SpendCoin_correct [OF Cons.prems(1) s assms(2)]
  have r: "r = Some coin" using S(3) [of coin] Cons.prems(2) v by simp
  have "prevout j \<noteq> prevout i" if "j \<in> set ins" for j using Cons.prems(3) that by (metis distinct.simps(2) image_eqI list.simps(9) set_map)
  then have v1: "\<forall>j \<in> set ins. ?V (prevout j) \<noteq> None" and m: "map (input_coin ?V) ins = map (input_coin V) ins"
    using Cons.prems(4) by (auto simp: input_coin_def)
  have "coins base (cacheCoins c1) = ?V" "distinct (map prevout ins)" using S(2) Cons.prems(2,3) by simp_all
  from Cons.IH [OF S(1) this v1, unfolded m] obtain c' where
    c': "spend_inputs usage base ins c1 = (Inr (map (input_coin V) ins), c')" "cache_inv usage base c'"
    "coins base (cacheCoins c') = ?V |` (- prevout ` set ins)" by blast
  have "?V |` (- prevout ` set ins) = V |` (- prevout ` set (i # ins))" by (auto simp: restrict_map_def fun_eq_iff)
  then show ?case using c' s r v by (simp add: input_coin_Some)
qed (simp add: restrict_map_def)

lemma add_outputs_correct:
  assumes "cache_inv usage base c" "coins base (cacheCoins c) = V" "n + length outs \<le> 2 ^ 32"
    "\<forall>ou \<in> set outs. \<not> CTxOut_IsNull ou" "\<forall>m < length outs. V (output_point txid (n + m)) = None"
  shows "\<exists>c'. add_outputs usage base txid cb height False n outs c = (None, c') \<and> cache_inv usage base c'
    \<and> coins base (cacheCoins c') = put_outputs txid cb height n outs V"
  using assms
proof (induction outs arbitrary: c V n)
  case (Cons ou outs)
  let ?V = "if IsUnspendable (scriptPubKey ou) then V else V(output_point txid n \<mapsto> make_Coin ou height cb)"
  have "V (output_point txid n) = None" using Cons.prems(5) [rule_format, of 0] by simp
  then obtain c1 where a: "AddCoin usage c (output_point txid n) (make_Coin ou height cb) cb = (None, c1)"
    "cache_inv usage base c1" "coins base (cacheCoins c1) = ?V"
  proof (cases "IsUnspendable (scriptPubKey ou)")
    case True
    then show ?thesis using that [of c] Cons.prems by (simp add: AddCoin_def)
  next
    case False
    then show ?thesis
      using AddCoin_correct [OF Cons.prems(1), of "make_Coin ou height cb" cb "output_point txid n"] that Cons.prems
        \<open>V (output_point txid n) = None\<close> by auto
  qed
  have "\<forall>m < length outs. ?V (output_point txid (n + 1 + m)) = None"
  proof (intro allI impI)
    fix m assume "m < length outs"
    then have "V (output_point txid (n + Suc m)) = None" "output_point txid (n + Suc m) \<noteq> output_point txid n"
      using Cons.prems(3,5) output_point_inj [of "n + Suc m" n txid] by auto
    then show "?V (output_point txid (n + 1 + m)) = None" by simp
  qed
  then obtain c' where "add_outputs usage base txid cb height False (n + 1) outs c1 = (None, c')" "cache_inv usage base c'"
    "coins base (cacheCoins c') = put_outputs txid cb height (n + 1) outs ?V"
    using Cons.IH [OF a(2,3), of "n + 1"] Cons.prems(3,4) by auto
  then show ?case using a(1) by (simp add: output_point_def)
qed simp

lemma UpdateCoins_correct:
  assumes "cache_inv usage base c" "usage Coin_Clear = 0" "coins base (cacheCoins c) = V" "connectable hash256d V tx"
  shows "\<exists>c'. UpdateCoins usage base hash256d tx c height = (Inr (tx_undo V tx), c') \<and> cache_inv usage base c'
    \<and> coins base (cacheCoins c') = tx_effect hash256d height tx V"
proof -
  obtain c1 where c1: "(if \<not> IsCoinBase tx then spend_inputs usage base (vin tx) c else (Inr [], c)) = (Inr (tx_undo V tx), c1)"
    "cache_inv usage base c1" "coins base (cacheCoins c1) = spent_view V tx"
    using spend_inputs_correct [OF assms(1-3), of "vin tx"] assms(1,3,4)
    by (cases "IsCoinBase tx") (auto simp: connectable_def tx_undo_def spent_view_def)
  have "\<forall>m < length (vout tx). spent_view V tx (output_point (GetHash hash256d tx) (0 + m)) = None"
    using assms(4) by (auto simp: connectable_def spent_view_def restrict_map_def)
  moreover have "\<forall>ou \<in> set (vout tx). \<not> CTxOut_IsNull ou" "0 + length (vout tx) \<le> 2 ^ 32"
    using assms(4) by (auto simp: connectable_def CTxOut_IsNull_def MoneyRange_def)
  ultimately obtain c' where "AddCoins usage base hash256d c1 tx height False = (None, c')" "cache_inv usage base c'"
    "coins base (cacheCoins c') = tx_effect hash256d height tx V"
    using add_outputs_correct [OF c1(2,3), of 0 "vout tx" "GetHash hash256d tx" "IsCoinBase tx" height]
    by (auto simp: AddCoins_def tx_effect_def)
  then show ?thesis unfolding UpdateCoins_def c1(1) by simp
qed

subsection \<open>Disconnecting one transaction\<close>

lemma put_outputs_at:
  "n + length outs \<le> 2 ^ 32 \<Longrightarrow> m < length outs \<Longrightarrow> put_outputs txid cb height n outs V (output_point txid (n + m)) =
    (if IsUnspendable (scriptPubKey (outs ! m)) then V (output_point txid (n + m)) else Some (make_Coin (outs ! m) height cb))"
proof (induction outs arbitrary: n V m)
  case (Cons ou outs)
  let ?V = "if IsUnspendable (scriptPubKey ou) then V else V(output_point txid n \<mapsto> make_Coin ou height cb)"
  show ?case
  proof (cases m)
    case 0
    then show ?thesis using put_outputs_before [of "n + 1" outs n txid cb height ?V] Cons.prems(1) by simp
  next
    case (Suc k)
    have ne: "output_point txid (n + Suc k) \<noteq> output_point txid n"
      using Cons.prems Suc output_point_inj [of "n + Suc k" n txid] by simp
    have "put_outputs txid cb height (n + 1) outs ?V (output_point txid (n + 1 + k)) =
      (if IsUnspendable (scriptPubKey (outs ! k)) then ?V (output_point txid (n + 1 + k)) else Some (make_Coin (outs ! k) height cb))"
      by (rule Cons.IH) (use Cons.prems Suc in simp_all)
    then show ?thesis using Suc ne by simp
  qed
qed simp

definition without_outputs :: "uint256 \<Rightarrow> nat \<Rightarrow> CTxOut list \<Rightarrow> coins_view \<Rightarrow> coins_view" where
  "without_outputs txid n outs W = (\<lambda>k. if \<exists>m < length outs. k = output_point txid (n + m) \<and> \<not> IsUnspendable (scriptPubKey (outs ! m))
     then None else W k)"

lemma without_outputs_Cons:
  "without_outputs txid n (ou # outs) W = without_outputs txid (n + 1) outs
    (if IsUnspendable (scriptPubKey ou) then W else W(output_point txid n := None))"
  unfolding without_outputs_def length_Cons Ex_less_Suc2 by (auto simp: fun_eq_iff)

lemma without_put_outputs:
  assumes "length outs \<le> 2 ^ 32" "\<forall>m < length outs. V (output_point txid m) = None"
  shows "without_outputs txid 0 outs (put_outputs txid cb height 0 outs V) = V"
proof
  fix k
  show "without_outputs txid 0 outs (put_outputs txid cb height 0 outs V) k = V k"
  proof (cases "\<exists>m < length outs. k = output_point txid m")
    case True
    then obtain m where "m < length outs" "k = output_point txid m" by blast
    then show ?thesis using put_outputs_at [of 0 outs m txid cb height V] assms by (auto simp: without_outputs_def)
  next
    case False
    then show ?thesis using put_outputs_dom [of txid cb height 0 outs V k] by (auto simp: without_outputs_def)
  qed
qed

lemma spend_outputs_correct:
  assumes "cache_inv usage base c" "coins base (cacheCoins c) = W" "usage Coin_Clear = 0" "n + length outs \<le> 2 ^ 32"
    "0 \<le> height" "height < 2 ^ 31"
    "\<forall>m < length outs. \<not> IsUnspendable (scriptPubKey (outs ! m)) \<longrightarrow>
       W (output_point txid (n + m)) = Some (make_Coin (outs ! m) height cb)"
  shows "\<exists>c'. spend_outputs usage base txid height cb exc n outs c fClean = (fClean, c') \<and> cache_inv usage base c'
    \<and> coins base (cacheCoins c') = without_outputs txid n outs W"
  using assms(1,2,4,7)
proof (induction outs arbitrary: c W n)
  case Nil
  then show ?case by (simp add: without_outputs_def)
next
  case (Cons ou outs)
  let ?W = "if IsUnspendable (scriptPubKey ou) then W else W(output_point txid n := None)"
  have "\<forall>m < length outs. \<not> IsUnspendable (scriptPubKey (outs ! m)) \<longrightarrow>
      ?W (output_point txid (n + 1 + m)) = Some (make_Coin (outs ! m) height cb)"
  proof (intro allI impI)
    fix m assume m: "m < length outs" "\<not> IsUnspendable (scriptPubKey (outs ! m))"
    have "output_point txid (n + Suc m) \<noteq> output_point txid n"
      using m(1) Cons.prems(3) output_point_inj [of "n + Suc m" n txid] by simp
    then show "?W (output_point txid (n + 1 + m)) = Some (make_Coin (outs ! m) height cb)"
      using Cons.prems(4) [rule_format, of "Suc m"] m by simp
  qed
  then have ih: "cache_inv usage base c1 \<Longrightarrow> coins base (cacheCoins c1) = ?W \<Longrightarrow>
      \<exists>c'. spend_outputs usage base txid height cb exc (n + 1) outs c1 fClean = (fClean, c') \<and> cache_inv usage base c'
        \<and> coins base (cacheCoins c') = without_outputs txid (n + 1) outs ?W" for c1
    by (intro Cons.IH) (use Cons.prems(3) in simp_all)
  show ?case
  proof (cases "IsUnspendable (scriptPubKey ou)")
    case True
    then show ?thesis using ih [of c] Cons.prems(1-3) by (simp add: without_outputs_Cons)
  next
    case False
    obtain r c1 where s: "SpendCoin usage base c (output_point txid n) = (r, c1)"
      by (cases "SpendCoin usage base c (output_point txid n)") auto
    note S = SpendCoin_correct [OF Cons.prems(1) s assms(3)]
    have "r = Some (make_Coin ou height cb)"
      using S(3) Cons.prems(2) Cons.prems(4) [rule_format, of 0] False by simp
    then have e: "spend_outputs usage base txid height cb exc n (ou # outs) c fClean
        = spend_outputs usage base txid height cb exc (n + 1) outs c1 fClean"
      using s False make_Coin_height [OF assms(5,6), of ou cb] by (simp add: output_point_def)
    show ?thesis unfolding e without_outputs_Cons using ih [OF S(1)] S(2) Cons.prems(2) False by simp
  qed
qed

lemma ApplyTxInUndo_ok:
  assumes "cache_inv usage base c" "coins base (cacheCoins c) out = None" "\<not> Coin_IsSpent undo"
    "\<not> IsUnspendable (scriptPubKey (coin_out undo))" "coin_nHeight undo \<noteq> 0"
  obtains c' where "ApplyTxInUndo usage base undo c out = (Inr DISCONNECT_OK, c')" "cache_inv usage base c'"
    "coins base (cacheCoins c') = (coins base (cacheCoins c))(out \<mapsto> undo)"
proof -
  obtain b c1 where h: "HaveCoin usage base c out = (b, c1)" by (cases "HaveCoin usage base c out") auto
  note H = HaveCoin_correct [OF assms(1) h]
  have b: "\<not> b" using H(3) assms(2) by simp
  obtain c' where a: "AddCoin usage c1 out undo False = (None, c')" "cache_inv usage base c'"
    "coins base (cacheCoins c') = (coins base (cacheCoins c))(out \<mapsto> undo)"
    using AddCoin_correct [OF H(1) assms(3,4), of False out] H(2) assms(2) by auto
  show ?thesis by (rule that [OF _ a(2,3)]) (use h b a(1) assms(5) in \<open>simp add: ApplyTxInUndo_def\<close>)
qed

lemma restore_inputs_correct:
  assumes "cache_inv usage base c" "coins base (cacheCoins c) = W" "distinct (map (\<lambda>p. prevout (fst p)) ps)"
    "\<forall>(i, u) \<in> set ps. W (prevout i) = None \<and> \<not> Coin_IsSpent u \<and> \<not> IsUnspendable (scriptPubKey (coin_out u)) \<and> coin_nHeight u \<noteq> 0"
  shows "\<exists>c'. restore_inputs usage base ps c fClean = (Inr (Some fClean), c') \<and> cache_inv usage base c'
    \<and> coins base (cacheCoins c') = W ++ map_of (map (\<lambda>(i, u). (prevout i, u)) ps)"
  using assms
proof (induction ps arbitrary: c W)
  case (Cons p ps)
  obtain i u where p: "p = (i, u)" by (cases p) auto
  let ?W = "W(prevout i \<mapsto> u)" and ?m = "map_of (map (\<lambda>(i, u). (prevout i, u)) ps)"
  obtain c1 where a: "ApplyTxInUndo usage base u c (prevout i) = (Inr DISCONNECT_OK, c1)" "cache_inv usage base c1"
    "coins base (cacheCoins c1) = ?W"
    using ApplyTxInUndo_ok [OF Cons.prems(1), of "prevout i" u] Cons.prems(2,4) p by auto
  have n: "prevout i \<notin> (\<lambda>p. prevout (fst p)) ` set ps" "distinct (map (\<lambda>p. prevout (fst p)) ps)" using Cons.prems(3) p by simp_all
  then have "\<forall>(j, v) \<in> set ps. ?W (prevout j) = None \<and> \<not> Coin_IsSpent v \<and> \<not> IsUnspendable (scriptPubKey (coin_out v)) \<and> coin_nHeight v \<noteq> 0"
    using Cons.prems(4) by force
  from Cons.IH [OF a(2,3) n(2) this] obtain c' where c': "restore_inputs usage base ps c1 fClean = (Inr (Some fClean), c')"
    "cache_inv usage base c'" "coins base (cacheCoins c') = ?W ++ ?m" by blast
  have "?m (prevout i) = None" using n(1) by (force simp: map_of_eq_None_iff)
  then have "coins base (cacheCoins c') = W ++ map_of (map (\<lambda>(i, u). (prevout i, u)) (p # ps))"
    unfolding c'(3) p by (auto simp: fun_eq_iff map_add_def split: option.splits)
  moreover have "restore_inputs usage base (p # ps) c fClean = (Inr (Some fClean), c')" using a(1) c'(1) by (simp add: p)
  ultimately show ?case using c'(2) by blast
qed simp

subsection \<open>A whole block\<close>

text \<open>What every view built by connecting blocks satisfies.\<close>

definition sound_view :: "coins_view \<Rightarrow> bool" where
  "sound_view V \<longleftrightarrow> (\<forall>k coin. V k = Some coin \<longrightarrow> Coin_ok coin \<and> \<not> IsUnspendable (scriptPubKey (coin_out coin)) \<and> coin_nHeight coin \<noteq> 0)"

fun block_ok :: "(bytes \<Rightarrow> uint256) \<Rightarrow> int \<Rightarrow> coins_view \<Rightarrow> CTransaction list \<Rightarrow> bool" where
  "block_ok hash256d height V [] \<longleftrightarrow> True"
| "block_ok hash256d height V (tx # txs) \<longleftrightarrow> connectable hash256d V tx \<and> block_ok hash256d height (tx_effect hash256d height tx V) txs"

fun block_effect :: "(bytes \<Rightarrow> uint256) \<Rightarrow> int \<Rightarrow> CTransaction list \<Rightarrow> coins_view \<Rightarrow> coins_view" where
  "block_effect hash256d height [] V = V"
| "block_effect hash256d height (tx # txs) V = block_effect hash256d height txs (tx_effect hash256d height tx V)"

fun undo_list :: "(bytes \<Rightarrow> uint256) \<Rightarrow> int \<Rightarrow> coins_view \<Rightarrow> CTransaction list \<Rightarrow> CBlockUndo" where
  "undo_list hash256d height V [] = []"
| "undo_list hash256d height V (tx # txs) = tx_undo V tx # undo_list hash256d height (tx_effect hash256d height tx V) txs"

lemma length_undo_list [simp]: "length (undo_list hash256d height V txs) = length txs"
  by (induction txs arbitrary: V) simp_all

lemma Coin_ok_unspent: "Coin_ok c \<Longrightarrow> \<not> Coin_IsSpent c"
  by (auto simp: Coin_ok_def Coin_IsSpent_def CTxOut_IsNull_def)

lemma put_outputs_Some:
  assumes "n + length outs \<le> 2 ^ 32" "put_outputs txid cb height n outs V k = Some coin"
  shows "V k = Some coin \<or> (\<exists>m < length outs. \<not> IsUnspendable (scriptPubKey (outs ! m)) \<and> coin = make_Coin (outs ! m) height cb)"
proof (cases "put_outputs txid cb height n outs V k = V k")
  case False
  from put_outputs_dom [OF this] obtain m where "m < length outs" "k = output_point txid (n + m)" by blast
  then show ?thesis using put_outputs_at [OF assms(1), of m txid cb height V] assms(2) by (auto split: if_splits)
qed (use assms(2) in simp)

lemma Coin_ok_make_Coin:
  assumes "0 < height" "height < 2 ^ 31" "MoneyRange (nValue ou)" "\<not> IsUnspendable (scriptPubKey ou)"
  shows "Coin_ok (make_Coin ou height cb)" "coin_nHeight (make_Coin ou height cb) \<noteq> 0"
proof -
  have h: "uint (coin_nHeight (make_Coin ou height cb)) = height" using make_Coin_height assms(1,2) by simp
  then show "coin_nHeight (make_Coin ou height cb) \<noteq> 0" using assms(1) by auto
  have "unat (coin_nHeight (make_Coin ou height cb)) < 2 ^ 31" using h assms(2) unfolding unat_eq_nat_uint by simp
  then show "Coin_ok (make_Coin ou height cb)" using assms(3,4)
    by (simp add: Coin_ok_def MoneyRange_def MAX_MONEY_def COIN_def IsUnspendable_def)
qed

lemma sound_tx_effect:
  assumes "sound_view V" "connectable hash256d V tx" "0 < height" "height < 2 ^ 31"
  shows "sound_view (tx_effect hash256d height tx V)"
  unfolding sound_view_def
proof (intro allI impI)
  fix k coin assume "tx_effect hash256d height tx V k = Some coin"
  then have "put_outputs (GetHash hash256d tx) (IsCoinBase tx) height 0 (vout tx) (spent_view V tx) k = Some coin"
    by (simp only: tx_effect_def)
  moreover have "0 + length (vout tx) \<le> 2 ^ 32" using assms(2) by (simp add: connectable_def)
  ultimately consider "spent_view V tx k = Some coin"
    | m where "m < length (vout tx)" "\<not> IsUnspendable (scriptPubKey (vout tx ! m))" "coin = make_Coin (vout tx ! m) height (IsCoinBase tx)"
    using put_outputs_Some by blast
  then show "Coin_ok coin \<and> \<not> IsUnspendable (scriptPubKey (coin_out coin)) \<and> coin_nHeight coin \<noteq> 0"
  proof cases
    case 1
    then have "V k = Some coin" by (auto simp: spent_view_def restrict_map_def split: if_splits)
    then show ?thesis using assms(1) by (simp add: sound_view_def)
  next
    case 2
    have "MoneyRange (nValue (vout tx ! m))" using assms(2) 2(1) by (simp add: connectable_def)
    then show ?thesis using Coin_ok_make_Coin [OF assms(3,4)] 2(2,3) by simp
  qed
qed

lemma update_txs_correct:
  assumes "cache_inv usage base c" "usage Coin_Clear = 0" "coins base (cacheCoins c) = V" "block_ok hash256d height V txs"
  shows "\<exists>c'. update_txs usage base hash256d height i txs c =
      (Inr (if i = 0 then tl (undo_list hash256d height V txs) else undo_list hash256d height V txs), c')
    \<and> cache_inv usage base c' \<and> coins base (cacheCoins c') = block_effect hash256d height txs V"
  using assms(1,3,4)
proof (induction txs arbitrary: c V i)
  case (Cons tx txs)
  from Cons.prems(3) have ok: "connectable hash256d V tx" "block_ok hash256d height (tx_effect hash256d height tx V) txs" by simp_all
  obtain c1 where u: "UpdateCoins usage base hash256d tx c height = (Inr (tx_undo V tx), c1)" "cache_inv usage base c1"
    "coins base (cacheCoins c1) = tx_effect hash256d height tx V"
    using UpdateCoins_correct [OF Cons.prems(1) assms(2) Cons.prems(2) ok(1)] by blast
  obtain c' where "update_txs usage base hash256d height (i + 1) txs c1 =
      (Inr (undo_list hash256d height (tx_effect hash256d height tx V) txs), c')" "cache_inv usage base c'"
    "coins base (cacheCoins c') = block_effect hash256d height txs (tx_effect hash256d height tx V)"
    using Cons.IH [OF u(2,3) ok(2), of "i + 1"] by auto
  then show ?case using u(1) by simp
qed simp

lemma spend_tx_outputs:
  assumes "cache_inv usage base c" "usage Coin_Clear = 0" "coins base (cacheCoins c) = tx_effect hash256d height tx V"
    "connectable hash256d V tx" "0 < height" "height < 2 ^ 31"
  obtains c' where "spend_outputs usage base (GetHash hash256d tx) height (IsCoinBase tx) exc 0 (vout tx) c fClean = (fClean, c')"
    "cache_inv usage base c'" "coins base (cacheCoins c') = spent_view V tx"
proof -
  let ?h = "GetHash hash256d tx" and ?W = "tx_effect hash256d height tx V"
  have n: "\<forall>m < length (vout tx). spent_view V tx (output_point ?h m) = None" and l: "length (vout tx) \<le> 2 ^ 32"
    using assms(4) by (auto simp: connectable_def spent_view_def restrict_map_def)
  have w: "\<forall>m < length (vout tx). \<not> IsUnspendable (scriptPubKey (vout tx ! m)) \<longrightarrow>
      ?W (output_point ?h (0 + m)) = Some (make_Coin (vout tx ! m) height (IsCoinBase tx))"
    using put_outputs_at [of 0 "vout tx"] l by (simp add: tx_effect_def)
  have v: "without_outputs ?h 0 (vout tx) ?W = spent_view V tx"
    unfolding tx_effect_def by (rule without_put_outputs [OF l n])
  show ?thesis using that spend_outputs_correct [OF assms(1,3,2) _ _ assms(6) w, of exc fClean] l assms(5) v by auto
qed

lemma restored_view:
  assumes "distinct (map prevout ins)" "\<forall>i \<in> set ins. V (prevout i) \<noteq> None"
  shows "V |` (- prevout ` set ins) ++ map_of (map (\<lambda>(i, u). (prevout i, u)) (rev (zip ins (map (input_coin V) ins)))) = V"
proof
  fix k
  let ?l = "map (\<lambda>i. (prevout i, input_coin V i)) ins"
  have z: "map (\<lambda>(i, u). (prevout i, u)) (rev (zip ins (map (input_coin V) ins))) = rev ?l"
    by (simp add: rev_map zip_map2 zip_same_conv_map)
  have d: "distinct (map fst (rev ?l))" using assms(1) by (simp add: rev_map [symmetric] comp_def)
  show "(V |` (- prevout ` set ins) ++ map_of (map (\<lambda>(i, u). (prevout i, u)) (rev (zip ins (map (input_coin V) ins))))) k = V k"
  proof (cases "k \<in> prevout ` set ins")
    case True
    then obtain i where i: "i \<in> set ins" "k = prevout i" by blast
    then have "map_of (rev ?l) k = Some (input_coin V i)" using d by (intro map_of_is_SomeI) auto
    then show ?thesis using i assms(2) unfolding z by (auto simp: map_add_def input_coin_def)
  next
    case False
    then have "map_of (rev ?l) k = None" by (auto simp: map_of_eq_None_iff)
    then show ?thesis using False unfolding z by (simp add: map_add_def restrict_map_def)
  qed
qed

lemma disconnect_tx:
  assumes "cache_inv usage base c" "usage Coin_Clear = 0" "coins base (cacheCoins c) = tx_effect hash256d height tx V"
    "connectable hash256d V tx" "0 < height" "height < 2 ^ 31" "sound_view V" "\<not> IsCoinBase tx"
  shows "\<exists>c'. disconnect_txs usage base hash256d height bip30 ((tx, Some (tx_undo V tx)) # rest) c fClean
      = disconnect_txs usage base hash256d height bip30 rest c' fClean
    \<and> cache_inv usage base c' \<and> coins base (cacheCoins c') = V"
proof -
  obtain c1 where s: "spend_outputs usage base (GetHash hash256d tx) height (IsCoinBase tx) (IsCoinBase tx \<and> \<not> bip30) 0 (vout tx) c fClean = (fClean, c1)"
    "cache_inv usage base c1" "coins base (cacheCoins c1) = spent_view V tx"
    using spend_tx_outputs [OF assms(1-6)] by blast
  have i: "distinct (map prevout (vin tx))" "\<forall>i \<in> set (vin tx). V (prevout i) \<noteq> None"
    using assms(4,8) by (auto simp: connectable_def)
  have v: "spent_view V tx = V |` (- prevout ` set (vin tx))" "tx_undo V tx = map (input_coin V) (vin tx)"
    using assms(8) by (simp_all add: spent_view_def tx_undo_def)
  let ?ps = "rev (zip (vin tx) (map (input_coin V) (vin tx)))"
  have d: "distinct (map (\<lambda>p. prevout (fst p)) ?ps)"
    using i(1) by (simp add: rev_map [symmetric] zip_map2 zip_same_conv_map comp_def)
  have "\<forall>(i, u) \<in> set ?ps. spent_view V tx (prevout i) = None \<and> \<not> Coin_IsSpent u
      \<and> \<not> IsUnspendable (scriptPubKey (coin_out u)) \<and> coin_nHeight u \<noteq> 0"
  proof (clarify, intro conjI)
    fix j u assume "(j, u) \<in> set ?ps"
    then have j: "j \<in> set (vin tx)" "u = input_coin V j" by (auto simp: zip_map2 zip_same_conv_map)
    then obtain coin where "V (prevout j) = Some coin" using i(2) by auto
    then have "V (prevout j) = Some u" using j(2) by (simp add: input_coin_def)
    then have "Coin_ok u" "\<not> IsUnspendable (scriptPubKey (coin_out u))" "coin_nHeight u \<noteq> 0" using assms(7) by (auto simp: sound_view_def)
    then show "\<not> Coin_IsSpent u" "\<not> IsUnspendable (scriptPubKey (coin_out u))" "coin_nHeight u \<noteq> 0" by (auto simp: Coin_ok_unspent)
    show "spent_view V tx (prevout j) = None" using j(1) by (simp add: v restrict_map_def)
  qed
  from restore_inputs_correct [OF s(2,3) d this, of fClean] obtain c' where
    r: "restore_inputs usage base ?ps c1 fClean = (Inr (Some fClean), c')" "cache_inv usage base c'" "coins base (cacheCoins c') = V"
    unfolding v(1) restored_view [OF i] by blast
  have "disconnect_txs usage base hash256d height bip30 ((tx, Some (tx_undo V tx)) # rest) c fClean
      = disconnect_txs usage base hash256d height bip30 rest c' fClean"
    unfolding disconnect_txs.simps s(1) Let_def using r(1) by (simp add: v(2))
  then show ?thesis using r(2,3) by blast
qed

lemma disconnect_rest:
  assumes "cache_inv usage base c" "usage Coin_Clear = 0" "coins base (cacheCoins c) = block_effect hash256d height txs V"
    "block_ok hash256d height V txs" "0 < height" "height < 2 ^ 31" "sound_view V" "\<forall>tx \<in> set txs. \<not> IsCoinBase tx"
  shows "\<exists>c'. disconnect_txs usage base hash256d height bip30
      (rev (zip txs (map Some (undo_list hash256d height V txs))) @ rest) c fClean
      = disconnect_txs usage base hash256d height bip30 rest c' fClean
    \<and> cache_inv usage base c' \<and> coins base (cacheCoins c') = V"
  using assms(1,3,4,7,8)
proof (induction txs arbitrary: V rest)
  case Nil
  then show ?case by auto
next
  case (Cons tx txs)
  let ?V = "tx_effect hash256d height tx V"
  from Cons.prems have ok: "connectable hash256d V tx" "block_ok hash256d height ?V txs" "\<not> IsCoinBase tx"
      "\<forall>tx \<in> set txs. \<not> IsCoinBase tx" "coins base (cacheCoins c) = block_effect hash256d height txs ?V"
    by simp_all
  have "sound_view ?V" by (rule sound_tx_effect [OF Cons.prems(4) ok(1) assms(5,6)])
  from Cons.IH [OF Cons.prems(1) ok(5,2) this ok(4), of "(tx, Some (tx_undo V tx)) # rest"] obtain c1 where
    1: "disconnect_txs usage base hash256d height bip30 (rev (zip txs (map Some (undo_list hash256d height ?V txs)))
        @ (tx, Some (tx_undo V tx)) # rest) c fClean
      = disconnect_txs usage base hash256d height bip30 ((tx, Some (tx_undo V tx)) # rest) c1 fClean"
    "cache_inv usage base c1" "coins base (cacheCoins c1) = ?V" by blast
  from disconnect_tx [OF 1(2) assms(2) 1(3) ok(1) assms(5,6) Cons.prems(4) ok(3), of bip30 rest fClean] obtain c' where
    2: "disconnect_txs usage base hash256d height bip30 ((tx, Some (tx_undo V tx)) # rest) c1 fClean
      = disconnect_txs usage base hash256d height bip30 rest c' fClean" "cache_inv usage base c'" "coins base (cacheCoins c') = V"
    by blast
  show ?case using 1(1) 2 by auto
qed

lemma disconnect_block:
  assumes "cache_inv usage base c" "usage Coin_Clear = 0"
    "coins base (cacheCoins c) = block_effect hash256d height (cb # txs) V"
    "block_ok hash256d height V (cb # txs)" "0 < height" "height < 2 ^ 31" "sound_view V" "IsCoinBase cb"
    "\<forall>tx \<in> set txs. \<not> IsCoinBase tx"
  shows "\<exists>c'. disconnect_txs usage base hash256d height bip30
      (rev (zip (cb # txs) (None # map Some (tl (undo_list hash256d height V (cb # txs)))))) c True = (Inr (Some True), c')
    \<and> cache_inv usage base c' \<and> coins base (cacheCoins c') = V"
proof -
  let ?V = "tx_effect hash256d height cb V"
  from assms(4) have ok: "connectable hash256d V cb" "block_ok hash256d height ?V txs" by simp_all
  have "coins base (cacheCoins c) = block_effect hash256d height txs ?V" "sound_view ?V"
    using assms(3) sound_tx_effect [OF assms(7) ok(1) assms(5,6)] by simp_all
  from disconnect_rest [OF assms(1,2) this(1) ok(2) assms(5,6) this(2) assms(9), of bip30 "[(cb, None)]" True]
  obtain c1 where 1: "disconnect_txs usage base hash256d height bip30
        (rev (zip txs (map Some (undo_list hash256d height ?V txs))) @ [(cb, None)]) c True
      = disconnect_txs usage base hash256d height bip30 [(cb, None)] c1 True"
    "cache_inv usage base c1" "coins base (cacheCoins c1) = ?V" by blast
  have sv: "spent_view V cb = V" using assms(8) by (simp add: spent_view_def)
  obtain c2 where 2: "spend_outputs usage base (GetHash hash256d cb) height (IsCoinBase cb) (IsCoinBase cb \<and> \<not> bip30) 0 (vout cb) c1 True = (True, c2)"
    "cache_inv usage base c2" "coins base (cacheCoins c2) = V"
    using spend_tx_outputs [OF 1(2) assms(2) 1(3) ok(1) assms(5,6)] unfolding sv by blast
  have "disconnect_txs usage base hash256d height bip30 [(cb, None)] c1 True = (Inr (Some True), c2)"
    unfolding disconnect_txs.simps 2(1) Let_def by simp
  then show ?thesis using 1(1) 2(2,3) by auto
qed

subsection \<open>Undo data on disk\<close>

lemma TxInUndo_codec:
  assumes "pubkeys_ok V D"
  shows "codec Coin_ok (TxInUndo_Ser V) (TxInUndo_Unser D old)"
proof
  fix c rest assume c: "Coin_ok c"
  define w where "w = coin_nHeight c * 2 + (if fCoinBase c then 1 else 0)"
  have t: "TxOutCompression_Unser D (coin_out old) (TxOutCompression_Ser V (coin_out c) @ rest) = Inr (coin_out c, rest)"
    using txout_compression_rt [OF assms] c by (simp add: Coin_ok_def)
  have v: "ReadVarInt (2 ^ 32 - 1) (WriteVarInt (unat w) @ s) = Inr (unat w, s)" for s
    by (rule varint32.round_trip) (use unat_u32_less [of w] in simp)
  have wf: "(w AND 1 \<noteq> 0) = fCoinBase c" "drop_bit 1 w = coin_nHeight c"
    using coin_code [of "coin_nHeight c" w "fCoinBase c", OF _ w_def] c by (simp_all only: Coin_ok_def)
  have "WriteVarInt 0 = [0]" by (simp add: WriteVarInt_def varint_tmp.simps)
  then have z: "ReadVarInt (2 ^ 32 - 1) (0 # s) = Inr (0, s)" for s using varint32.round_trip [of 0 s] by simp
  have inv: "word_of_nat (unat w) = w" by simp
  show "TxInUndo_Unser D old (TxInUndo_Ser V c @ rest) = Inr (c, rest)"
    unfolding TxInUndo_Unser_def TxInUndo_Ser_def w_def [symmetric] append_assoc
      rbind_Inr [of "ReadVarInt (2 ^ 32 - 1)", OF v] Let_def inv wf
    using z t by (cases "coin_nHeight c > 0") (simp_all add: rbind_def rret_def)
qed

lemma CBlockUndo_rt:
  assumes "pubkeys_ok V D" "list_all (\<lambda>u. list_all Coin_ok u \<and> length u \<le> unat MAX_SIZE) undo" "length undo \<le> unat MAX_SIZE"
  shows "unser_CBlockUndo D (ser_CBlockUndo V undo @ rest) = Inr (undo, rest)"
proof -
  have "codec (\<lambda>u. list_all Coin_ok u \<and> length u \<le> unat MAX_SIZE) (ser_CTxUndo V) (unser_CTxUndo D)"
    by unfold_locales (simp add: ser_CTxUndo_def unser_CTxUndo_def codec.vector_rt [OF TxInUndo_codec [OF assms(1)]])
  from codec.vector_rt [OF this assms(2,3)] show ?thesis by (simp add: ser_CBlockUndo_def unser_CBlockUndo_def)
qed

lemma undo_list_ok:
  assumes "sound_view V" "block_ok hash256d height V txs" "0 < height" "height < 2 ^ 31"
    "\<forall>tx \<in> set txs. length (vin tx) \<le> n"
  shows "list_all (\<lambda>u. list_all Coin_ok u \<and> length u \<le> n) (undo_list hash256d height V txs)"
  using assms(1,2,5)
proof (induction txs arbitrary: V)
  case (Cons tx txs)
  from Cons.prems(2) have ok: "connectable hash256d V tx" "block_ok hash256d height (tx_effect hash256d height tx V) txs" by simp_all
  have "Coin_ok (input_coin V i)" if i: "i \<in> set (vin tx)" and cb: "\<not> IsCoinBase tx" for i
  proof -
    obtain coin where "V (prevout i) = Some coin" using ok(1) i cb by (auto simp: connectable_def)
    then show ?thesis using Cons.prems(1) by (simp add: sound_view_def input_coin_def)
  qed
  then have "list_all Coin_ok (tx_undo V tx) \<and> length (tx_undo V tx) \<le> n"
    using Cons.prems(3) by (simp add: tx_undo_def list_all_iff)
  then show ?case using Cons.IH [OF sound_tx_effect [OF Cons.prems(1) ok(1) assms(3,4)] ok(2)] Cons.prems(3) by simp
qed simp

lemma coins_SetBestBlock [simp]: "cacheCoins (SetBestBlock h c) = cacheCoins c" "hashBlock (SetBestBlock h c) = h"
  "SanityCheck usage (SetBestBlock h c) = SanityCheck usage c"
  by (simp_all add: SetBestBlock_def SanityCheck_def)

subsection \<open>Money in circulation\<close>











subsection \<open>Properties\<close>

text \<open>
  C1.  Reorganization: connecting the transactions of a block to any consistent coins cache yields undo data
  that survives the disk format, and disconnecting the block with it reports \<^verbatim>\<open>DISCONNECT_OK\<close> and
  restores exactly the coins from before, the best block and the cache's own consistency.  The block
  spends existing, distinct coins and names no unspent output anew.
\<close>

theorem disconnect_inverts_connect:
  assumes "cache_inv usage base c" "usage Coin_Clear = 0" "V = coins base (cacheCoins c)" "sound_view V"
    "height = int (nHeight pindex)" "0 < height" "height < 2 ^ 31"
    "block_ok hash256d height V (cb # txs)" "IsCoinBase cb" "\<forall>tx \<in> set txs. \<not> IsCoinBase tx"
    "\<forall>tx \<in> set (cb # txs). length (vin tx) \<le> unat MAX_SIZE" "length txs \<le> unat MAX_SIZE"
    "pubkeys_ok K D" "evodb_best_ok env" "special_txs_undone env"
  shows "\<exists>undo c1 c2. update_txs usage base hash256d height 0 (cb # txs) c = (Inr undo, c1)
    \<and> unser_CBlockUndo D (ser_CBlockUndo K undo) = Inr (undo, [])
    \<and> DisconnectBlock usage base hash256d params (env\<lparr>undo_on_disk := Some undo\<rparr>) (cb # txs) pindex prev c1 = (Inr DISCONNECT_OK, c2)
    \<and> coins base (cacheCoins c2) = V \<and> hashBlock c2 = prev \<and> SanityCheck usage c2"
proof -
  let ?undo = "tl (undo_list hash256d height V (cb # txs))"
  obtain c1 where u: "update_txs usage base hash256d height 0 (cb # txs) c = (Inr ?undo, c1)" "cache_inv usage base c1"
    "coins base (cacheCoins c1) = block_effect hash256d height (cb # txs) V"
    using update_txs_correct [OF assms(1,2) assms(3) [symmetric] assms(8), of 0] by auto
  have "list_all (\<lambda>u. list_all Coin_ok u \<and> length u \<le> unat MAX_SIZE) ?undo" "length ?undo \<le> unat MAX_SIZE"
    using undo_list_ok [OF assms(4,8,6,7,11)] assms(12) by simp_all
  from CBlockUndo_rt [OF assms(13) this, of "[]"] have rt: "unser_CBlockUndo D (ser_CBlockUndo K ?undo) = Inr (?undo, [])" by simp
  obtain c2 where d: "disconnect_txs usage base hash256d height (undo_fEnforceBIP30 pindex)
      (rev (zip (cb # txs) (None # map Some ?undo))) c1 True = (Inr (Some True), c2)"
    "cache_inv usage base c2" "coins base (cacheCoins c2) = V"
    using disconnect_block [OF u(2) assms(2) u(3) assms(8,6,7,4,9,10)] by blast
  have "length ?undo + 1 = length (cb # txs)" by simp
  then have "DisconnectBlock usage base hash256d params (env\<lparr>undo_on_disk := Some ?undo\<rparr>) (cb # txs) pindex prev c1
      = (Inr DISCONNECT_OK, SetBestBlock prev c2)"
    using d(1) assms(14,15) unfolding DisconnectBlock_def finish_disconnect_def Let_def assms(5) [symmetric] by simp
  then show ?thesis using u(1) rt d(3) cache_inv_SanityCheck [OF d(2)]
    by (intro exI [of _ ?undo] exI [of _ c1] exI [of _ "SetBestBlock prev c2"]) simp
qed

text \<open>A hash for the examples: the lock time, the last four bytes of a serialized ordinary transaction.\<close>

definition demo_hash :: "bytes \<Rightarrow> uint256" where
  "demo_hash b = drop (length b - 4) b"

definition demo_coinbase :: CTransaction where
  "demo_coinbase = \<lparr>vin = [\<lparr>prevout = \<lparr>op_hash = replicate 32 0, op_n = NULL_INDEX\<rparr>, scriptSig = [1, 1], nSequence = 0\<rparr>],
     vout = [\<lparr>nValue = 50, scriptPubKey = [OP_1]\<rparr>], tx_nVersion = 2, nType = 0, nLockTime = 7, vExtraPayload = []\<rparr>"

lemma demo_hash_tx: "\<not> HasExtraPayloadField tx \<Longrightarrow> GetHash demo_hash tx = WriteLE32 (nLockTime tx)"
  by (simp add: GetHash_def demo_hash_def ser_CTransaction_def ser_writedata32_def)

lemma demo_hashes: "GetHash demo_hash demo_spend = [100, 0, 0, 0]" "GetHash demo_hash demo_coinbase = [7, 0, 0, 0]"
proof -
  have "\<not> HasExtraPayloadField demo_spend" "\<not> HasExtraPayloadField demo_coinbase"
    by (simp_all add: HasExtraPayloadField_def IsSpecialTxVersion_def SPECIAL_VERSION_def demo_spend_def demo_coinbase_def)
  moreover have "WriteLE32 100 = [100, 0, 0, 0]" "WriteLE32 7 = [7, 0, 0, 0]" by code_simp+
  ultimately show "GetHash demo_hash demo_spend = [100, 0, 0, 0]" "GetHash demo_hash demo_coinbase = [7, 0, 0, 0]"
    by (simp_all add: demo_hash_tx demo_spend_def demo_coinbase_def)
qed

lemma IsCoinBase_demo: "IsCoinBase demo_coinbase"
  by (simp add: IsCoinBase_def demo_coinbase_def COutPoint_IsNull_def blob_IsNull_def list_all_iff)

lemma demo_small_facts:
  "\<not> IsUnspendable [OP_1]" "MoneyRange 50" "MoneyRange 3" "demo_outpoint \<noteq> output_point [7, 0, 0, 0] n"
  "demo_outpoint \<noteq> output_point [100, 0, 0, 0] n" "output_point [7, 0, 0, 0] n \<noteq> output_point [100, 0, 0, 0] m"
proof -
  have "demo_outpoint \<noteq> output_point [x, 0, 0, 0] n" for x n
  proof
    assume "demo_outpoint = output_point [x, 0, 0, 0] n"
    then have "length (op_hash demo_outpoint) = length (op_hash (output_point [x, 0, 0, 0] n))" by (rule arg_cong)
    then show False by (simp add: demo_outpoint_def output_point_def)
  qed
  then show "demo_outpoint \<noteq> output_point [7, 0, 0, 0] n" "demo_outpoint \<noteq> output_point [100, 0, 0, 0] n" by blast+
qed (simp_all add: IsUnspendable_def MAX_SCRIPT_SIZE_def MoneyRange_def MAX_MONEY_def COIN_def output_point_def)

lemma demo_view_at: "demo_view demo_outpoint = Some demo_coin" "k \<noteq> demo_outpoint \<Longrightarrow> demo_view k = None"
  by (simp_all add: demo_view_def)

lemma demo_tx_parts:
  "vin demo_spend = [\<lparr>prevout = demo_outpoint, scriptSig = [], nSequence = 2\<rparr>]" "vout demo_spend = [\<lparr>nValue = 3, scriptPubKey = [OP_1]\<rparr>]"
  "vout demo_coinbase = [\<lparr>nValue = 50, scriptPubKey = [OP_1]\<rparr>]" "length (vin demo_coinbase) = 1"
  by (simp_all add: demo_spend_def demo_coinbase_def)

lemma demo_block_ok: "block_ok demo_hash 5 demo_view [demo_coinbase, demo_spend]"
  using demo_small_facts demo_small_facts(4-6) [THEN not_sym] demo_view_at demo_spend_facts(4)
  by (simp add: connectable_def tx_effect_def spent_view_def IsCoinBase_demo demo_hashes demo_tx_parts)

lemma sound_demo_view: "sound_view demo_view"
  using demo_coin_facts(2)
  by (auto simp: sound_view_def demo_view_def Coin_ok_def demo_coin_def MAX_SCRIPT_SIZE_def split: if_splits)

theorem disconnect_inverts_connect_witness:
  "\<exists>undo c1 c2. update_txs demo_usage demo_view demo_hash 5 0 [demo_coinbase, demo_spend] make_CCoinsViewCache = (Inr undo, c1)
    \<and> DisconnectBlock demo_usage demo_view demo_hash CMainParams
        \<lparr>evodb_best_ok = True, undo_on_disk = Some undo, special_txs_undone = True\<rparr>
        [demo_coinbase, demo_spend] (sample_entry 5 None None 10) [1] c1 = (Inr DISCONNECT_OK, c2)
    \<and> coins demo_view (cacheCoins c2) = demo_view"
proof -
  have "pubkeys_ok (\<lambda>k. False) (\<lambda>c. None)" by (simp add: pubkeys_ok_def)
  moreover have "demo_usage Coin_Clear = 0" by (simp add: demo_usage_def Coin_Clear_def CTxOut_SetNull_def)
  moreover have "length (vin demo_spend) \<le> unat MAX_SIZE" "length (vin demo_coinbase) \<le> unat MAX_SIZE" "length [demo_spend] \<le> unat MAX_SIZE"
    by (simp_all add: demo_tx_parts MAX_SIZE_def)
  ultimately show ?thesis
    using disconnect_inverts_connect [OF demo_spend_facts(1) _ refl, of 5 "sample_entry 5 None None 10" demo_hash demo_coinbase
        "[demo_spend]" "\<lambda>k. False" "\<lambda>c. None" "\<lparr>evodb_best_ok = True, undo_on_disk = None, special_txs_undone = True\<rparr>" CMainParams "[1]"]
      demo_spend_facts(2,4) sound_demo_view demo_block_ok IsCoinBase_demo by auto
qed







text \<open>
  C17.  Connecting keeps coins well formed: from a view whose coins are all storable, spendable and of a known
  height, connecting the transactions of a block by \<^verbatim>\<open>UpdateCoins\<close> succeeds and gives such a view again, and the
  cache passes \<^verbatim>\<open>SanityCheck\<close>.
\<close>

theorem connect_keeps_coins_well_formed:
  assumes "cache_inv usage base c" "usage Coin_Clear = 0" "sound_view (coins base (cacheCoins c))"
    "block_ok hash256d height (coins base (cacheCoins c)) txs" "0 < height" "height < 2 ^ 31"
  shows "\<exists>undo c'. update_txs usage base hash256d height 0 txs c = (Inr undo, c') \<and> SanityCheck usage c'
    \<and> sound_view (coins base (cacheCoins c'))"
proof -
  have "sound_view V \<Longrightarrow> block_ok hash256d height V txs \<Longrightarrow> sound_view (block_effect hash256d height txs V)" for V
    by (induction txs arbitrary: V) (simp_all add: sound_tx_effect [OF _ _ assms(5,6)])
  from this [OF assms(3,4)] show ?thesis
    using update_txs_correct [OF assms(1,2) refl assms(4), of 0] cache_inv_SanityCheck by fastforce
qed

theorem connect_keeps_coins_well_formed_witness:
  "\<exists>undo c'. update_txs demo_usage demo_view demo_hash 5 0 [demo_coinbase, demo_spend] make_CCoinsViewCache = (Inr undo, c')
    \<and> sound_view (coins demo_view (cacheCoins c'))"
proof -
  have "demo_usage Coin_Clear = 0" by (simp add: demo_usage_def Coin_Clear_def CTxOut_SetNull_def)
  from connect_keeps_coins_well_formed [OF demo_spend_facts(1) this, of demo_hash 5 "[demo_coinbase, demo_spend]"]
  show ?thesis using sound_demo_view demo_block_ok demo_spend_facts(2) by auto
qed

end
