(* ===== verification/Versionbits.thy ===== *)
theory Versionbits
  imports Money
begin

text \<open>
  Version-bits deployments: \<^verbatim>\<open>versionbits.{h,cpp}\<close> and the version-bits half of \<^verbatim>\<open>deploymentstatus.h\<close>.  The
  virtual methods of a checker are a record of functions; the cache is a map from the parent of a
  period (none for the genesis block) to the state.  Loops that walk the index carry fuel, and a null
  dereference or failed assertion is a fault.
\<close>

subsection \<open>States and checkers\<close>

datatype ThresholdState = DEFINED | STARTED | LOCKED_IN | ACTIVE | FAILED

type_synonym ThresholdConditionCache = "block_ptr option \<rightharpoonup> ThresholdState"

record ThresholdConditionChecker =
  Condition :: "CBlockIndex \<Rightarrow> bool"
  BeginTime :: int
  SignalHeight :: "block_ptr option \<Rightarrow> int"
  EndTime :: int
  MinActivationHeight :: int
  Period :: int
  Threshold :: "int \<Rightarrow> int"

definition INT_MAX :: int where "INT_MAX = 2 ^ 31 - 1"

definition VERSIONBITS_TOP_BITS :: int where "VERSIONBITS_TOP_BITS = 0x20000000"
definition VERSIONBITS_TOP_MASK :: int where "VERSIONBITS_TOP_MASK = - 0x20000000"

subsection \<open>The state of a period\<close>

fun start_height_loop ::
  "nat \<Rightarrow> block_store \<Rightarrow> int \<Rightarrow> ThresholdConditionCache \<Rightarrow> block_ptr option \<Rightarrow> ThresholdState \<Rightarrow> int \<Rightarrow> fault + int" where
  "start_height_loop 0 st nPeriod cache pindexPrev state nStartHeight = Inl OutOfFuel"
| "start_height_loop (Suc fuel) st nPeriod cache pindexPrev state nStartHeight =
    (if state \<noteq> STARTED then Inr nStartHeight
     else case pindexPrev of None \<Rightarrow> Inl BadPointer
     | Some p \<Rightarrow> (case st p of None \<Rightarrow> Inl BadPointer
       | Some b \<Rightarrow> (case GetAncestor st p (int (nHeight b) - nPeriod) of Inl e \<Rightarrow> Inl e
         | Inr pindexPrev \<Rightarrow> (case cache pindexPrev of None \<Rightarrow> Inl AssertFailed
           | Some state \<Rightarrow> start_height_loop fuel st nPeriod cache pindexPrev state (min (int (nHeight b) + 1) nStartHeight)))))"

definition block_fuel :: "block_store \<Rightarrow> block_ptr option \<Rightarrow> nat" where
  "block_fuel st p = (case p of None \<Rightarrow> 1 | Some q \<Rightarrow> (case st q of None \<Rightarrow> 1 | Some b \<Rightarrow> nHeight b + 3))"

definition calculateStartHeight ::
  "block_store \<Rightarrow> block_ptr option \<Rightarrow> ThresholdState \<Rightarrow> int \<Rightarrow> ThresholdConditionCache \<Rightarrow> fault + int" where
  "calculateStartHeight st pindexPrev state nPeriod cache =
    start_height_loop (block_fuel st pindexPrev) st nPeriod cache pindexPrev state INT_MAX"

text \<open>Back to a parent whose state is known; the parents to compute are collected, the lowest first.\<close>

fun walk_back ::
  "nat \<Rightarrow> block_store \<Rightarrow> ThresholdConditionChecker \<Rightarrow> int \<Rightarrow> block_ptr option \<Rightarrow> ThresholdConditionCache \<Rightarrow> block_ptr list
     \<Rightarrow> fault + block_ptr option \<times> ThresholdConditionCache \<times> block_ptr list" where
  "walk_back 0 st chk masternodeStartHeight pindexPrev cache vToCompute = Inl OutOfFuel"
| "walk_back (Suc fuel) st chk masternodeStartHeight pindexPrev cache vToCompute =
    (if cache pindexPrev \<noteq> None then Inr (pindexPrev, cache, vToCompute)
     else case pindexPrev of None \<Rightarrow> Inr (None, cache(None \<mapsto> DEFINED), vToCompute)
     | Some p \<Rightarrow> (case st p of None \<Rightarrow> Inl BadPointer
       | Some b \<Rightarrow> (case GetMedianTimePast st p of Inl e \<Rightarrow> Inl e
         | Inr t \<Rightarrow>
           if t < BeginTime chk \<or> int (nHeight b) < masternodeStartHeight
           then Inr (Some p, cache(Some p \<mapsto> DEFINED), vToCompute)
           else case GetAncestor st p (int (nHeight b) - Period chk) of Inl e \<Rightarrow> Inl e
             | Inr pindexPrev \<Rightarrow> walk_back fuel st chk masternodeStartHeight pindexPrev cache (p # vToCompute))))"

fun count_signals ::
  "nat \<Rightarrow> block_store \<Rightarrow> ThresholdConditionChecker \<Rightarrow> block_ptr option \<Rightarrow> int \<Rightarrow> fault + int \<times> block_ptr option" where
  "count_signals 0 st chk pindexCount count = Inr (count, pindexCount)"
| "count_signals (Suc n) st chk pindexCount count =
    (case pindexCount of None \<Rightarrow> Inl BadPointer
     | Some p \<Rightarrow> (case st p of None \<Rightarrow> Inl BadPointer
       | Some b \<Rightarrow> count_signals n st chk (pprev b) (if Condition chk b then count + 1 else count)))"

definition height_of :: "block_store \<Rightarrow> block_ptr option \<Rightarrow> fault + int" where
  "height_of st p = (case p of None \<Rightarrow> Inl BadPointer
     | Some q \<Rightarrow> (case st q of None \<Rightarrow> Inl BadPointer | Some b \<Rightarrow> Inr (int (nHeight b))))"

text \<open>The body of the forward loop: the next state and start height.\<close>

definition next_state ::
  "block_store \<Rightarrow> ThresholdConditionChecker \<Rightarrow> int \<Rightarrow> block_ptr \<Rightarrow> ThresholdState \<Rightarrow> int \<Rightarrow> fault + ThresholdState \<times> int" where
  "next_state st chk masternodeStartHeight p state nStartHeight =
    (case st p of None \<Rightarrow> Inl BadPointer
     | Some b \<Rightarrow> (case GetMedianTimePast st p of Inl e \<Rightarrow> Inl e
       | Inr t \<Rightarrow> (case state of
           DEFINED \<Rightarrow>
             if t \<ge> BeginTime chk \<and> int (nHeight b) \<ge> masternodeStartHeight
             then Inr (STARTED, int (nHeight b) + 1) else Inr (DEFINED, nStartHeight)
         | STARTED \<Rightarrow>
             (case count_signals (nat (Period chk)) st chk (Some p) 0 of Inl e \<Rightarrow> Inl e
              | Inr (count, pindexCount) \<Rightarrow>
                if \<not> (nStartHeight > 0 \<and> nStartHeight < INT_MAX) then Inl AssertFailed
                else case height_of st pindexCount of Inl e \<Rightarrow> Inl e
                | Inr h \<Rightarrow>
                  let nAttempt = cdiv (h + 1 - nStartHeight) (Period chk) in
                  if count \<ge> Threshold chk nAttempt then Inr (LOCKED_IN, nStartHeight)
                  else if t \<ge> EndTime chk then Inr (FAILED, nStartHeight)
                  else Inr (STARTED, nStartHeight))
         | LOCKED_IN \<Rightarrow>
             if int (nHeight b) + 1 \<ge> MinActivationHeight chk then Inr (ACTIVE, nStartHeight) else Inr (LOCKED_IN, nStartHeight)
         | FAILED \<Rightarrow> Inr (FAILED, nStartHeight)
         | ACTIVE \<Rightarrow> Inr (ACTIVE, nStartHeight))))"

fun walk_forward ::
  "block_store \<Rightarrow> ThresholdConditionChecker \<Rightarrow> int \<Rightarrow> block_ptr list \<Rightarrow> ThresholdState \<Rightarrow> int \<Rightarrow> ThresholdConditionCache
     \<Rightarrow> fault + ThresholdState \<times> ThresholdConditionCache" where
  "walk_forward st chk masternodeStartHeight [] state nStartHeight cache = Inr (state, cache)"
| "walk_forward st chk masternodeStartHeight (p # vToCompute) state nStartHeight cache =
    (case next_state st chk masternodeStartHeight p state nStartHeight of Inl e \<Rightarrow> Inl e
     | Inr (stateNext, nStartHeight) \<Rightarrow>
       walk_forward st chk masternodeStartHeight vToCompute stateNext nStartHeight (cache(Some p \<mapsto> stateNext)))"

definition period_parent :: "block_store \<Rightarrow> int \<Rightarrow> block_ptr option \<Rightarrow> fault + block_ptr option" where
  "period_parent st nPeriod pindexPrev =
    (case pindexPrev of None \<Rightarrow> Inr None
     | Some p \<Rightarrow> (case st p of None \<Rightarrow> Inl BadPointer
       | Some b \<Rightarrow> GetAncestor st p (int (nHeight b) - (int (nHeight b) + 1) mod nPeriod)))"

definition GetStateFor ::
  "block_store \<Rightarrow> ThresholdConditionChecker \<Rightarrow> block_ptr option \<Rightarrow> ThresholdConditionCache
     \<Rightarrow> fault + ThresholdState \<times> ThresholdConditionCache" where
  "GetStateFor st chk pindexPrev cache =
    (let masternodeStartHeight = SignalHeight chk pindexPrev in
     if BeginTime chk = ALWAYS_ACTIVE then Inr (ACTIVE, cache)
     else if BeginTime chk = NEVER_ACTIVE then Inr (FAILED, cache)
     else case period_parent st (Period chk) pindexPrev of Inl e \<Rightarrow> Inl e
     | Inr pindexPrev \<Rightarrow>
       (case walk_back (block_fuel st pindexPrev) st chk masternodeStartHeight pindexPrev cache [] of Inl e \<Rightarrow> Inl e
        | Inr (pindexPrev, cache, vToCompute) \<Rightarrow>
          (case cache pindexPrev of None \<Rightarrow> Inl AssertFailed
           | Some state \<Rightarrow>
             if vToCompute = [] then Inr (state, cache)
             else case calculateStartHeight st pindexPrev state (Period chk) cache of Inl e \<Rightarrow> Inl e
               | Inr nStartHeight \<Rightarrow> walk_forward st chk masternodeStartHeight vToCompute state nStartHeight cache)))"

subsection \<open>Since when, and statistics\<close>

fun since_loop ::
  "nat \<Rightarrow> block_store \<Rightarrow> ThresholdConditionChecker \<Rightarrow> ThresholdState \<Rightarrow> block_ptr \<Rightarrow> ThresholdConditionCache
     \<Rightarrow> fault + int \<times> ThresholdConditionCache" where
  "since_loop 0 st chk initialState p cache = Inl OutOfFuel"
| "since_loop (Suc fuel) st chk initialState p cache =
    (case st p of None \<Rightarrow> Inl BadPointer
     | Some b \<Rightarrow> (case GetAncestor st p (int (nHeight b) - Period chk) of Inl e \<Rightarrow> Inl e
       | Inr None \<Rightarrow> Inr (int (nHeight b) + 1, cache)
       | Inr (Some previousPeriodParent) \<Rightarrow>
         (case GetStateFor st chk (Some previousPeriodParent) cache of Inl e \<Rightarrow> Inl e
          | Inr (s, cache) \<Rightarrow>
            if s = initialState then since_loop fuel st chk initialState previousPeriodParent cache
            else Inr (int (nHeight b) + 1, cache))))"

definition GetStateSinceHeightFor ::
  "block_store \<Rightarrow> ThresholdConditionChecker \<Rightarrow> block_ptr option \<Rightarrow> ThresholdConditionCache \<Rightarrow> fault + int \<times> ThresholdConditionCache" where
  "GetStateSinceHeightFor st chk pindexPrev cache =
    (if BeginTime chk = ALWAYS_ACTIVE \<or> BeginTime chk = NEVER_ACTIVE then Inr (0, cache)
     else case GetStateFor st chk pindexPrev cache of Inl e \<Rightarrow> Inl e
     | Inr (initialState, cache) \<Rightarrow>
       if initialState = DEFINED then Inr (0, cache)
       else if pindexPrev = None then Inl BadPointer
       else case period_parent st (Period chk) pindexPrev of Inl e \<Rightarrow> Inl e
       | Inr None \<Rightarrow> Inl AssertFailed
       | Inr (Some p) \<Rightarrow> since_loop (block_fuel st (Some p)) st chk initialState p cache)"

record BIP9Stats =
  stats_period :: int
  stats_threshold :: int
  stats_elapsed :: int
  stats_count :: int
  stats_possible :: bool

fun count_down_to :: "nat \<Rightarrow> block_store \<Rightarrow> ThresholdConditionChecker \<Rightarrow> int \<Rightarrow> block_ptr option \<Rightarrow> int \<Rightarrow> fault + int" where
  "count_down_to 0 st chk height currentIndex cnt = Inl OutOfFuel"
| "count_down_to (Suc fuel) st chk height currentIndex cnt =
    (case currentIndex of None \<Rightarrow> Inl BadPointer
     | Some p \<Rightarrow> (case st p of None \<Rightarrow> Inl BadPointer
       | Some b \<Rightarrow>
         if int (nHeight b) = height then Inr cnt
         else count_down_to fuel st chk height (pprev b) (if Condition chk b then cnt + 1 else cnt)))"

definition GetStateStatisticsFor ::
  "block_store \<Rightarrow> ThresholdConditionChecker \<Rightarrow> block_ptr option \<Rightarrow> ThresholdConditionCache \<Rightarrow> fault + BIP9Stats \<times> ThresholdConditionCache" where
  "GetStateStatisticsFor st chk pindex cache =
    (let stats = \<lparr>stats_period = Period chk, stats_threshold = Threshold chk 0, stats_elapsed = 0, stats_count = 0, stats_possible = False\<rparr> in
     if pindex = None then Inr (stats, cache)
     else case period_parent st (Period chk) pindex of Inl e \<Rightarrow> Inl e
     | Inr pindexEndOfPrevPeriod \<Rightarrow>
       (case (height_of st pindex, height_of st pindexEndOfPrevPeriod) of
          (Inr h, Inr h0) \<Rightarrow>
          (case GetStateFor st chk pindexEndOfPrevPeriod cache of Inl e \<Rightarrow> Inl e
           | Inr (state, cache) \<Rightarrow>
             (case (if state = STARTED then
                  (case GetStateSinceHeightFor st chk pindexEndOfPrevPeriod cache of Inl e \<Rightarrow> Inl e
                   | Inr (nStartHeight, cache) \<Rightarrow> Inr (cdiv (h0 + 1 - nStartHeight) (Period chk), cache))
                else Inr (0, cache)) of Inl e \<Rightarrow> Inl e
              | Inr (nAttempt, cache) \<Rightarrow>
                (case count_down_to (block_fuel st pindex) st chk h0 pindex 0 of Inl e \<Rightarrow> Inl e
                 | Inr cnt \<Rightarrow>
                   Inr (\<lparr>stats_period = Period chk, stats_threshold = Threshold chk nAttempt, stats_elapsed = h - h0,
                         stats_count = cnt, stats_possible = (Period chk - Threshold chk nAttempt \<ge> h - h0 - cnt)\<rparr>, cache))))
        | _ \<Rightarrow> Inl BadPointer))"

subsection \<open>Version bits\<close>

text \<open>\<open>ehf\<close> is \<^verbatim>\<open>AbstractEHFManager::GetSignalsStage\<close>: the signals known at a block, by bit.\<close>

type_synonym ehf_signals = "block_ptr option \<Rightarrow> int \<rightharpoonup> int"

definition to_int :: "int \<Rightarrow> int" where
  "to_int v = sint (word_of_int v :: u32)"

definition vb_SignalHeight :: "ehf_signals \<Rightarrow> BIP9Deployment \<Rightarrow> block_ptr option \<Rightarrow> int" where
  "vb_SignalHeight ehf deployment pindexPrev =
    (if \<not> useEHF deployment then 0
     else case ehf pindexPrev (dep_bit deployment) of None \<Rightarrow> INT_MAX | Some h \<Rightarrow> h)"

definition vb_Period :: "Params \<Rightarrow> DeploymentPos \<Rightarrow> int" where
  "vb_Period params i = to_int (if nWindowSize (vDeployments params i) \<noteq> 0 then nWindowSize (vDeployments params i)
     else uint (nMinerConfirmationWindow params))"

definition vb_Threshold :: "Params \<Rightarrow> DeploymentPos \<Rightarrow> int \<Rightarrow> int" where
  "vb_Threshold params i nAttempt =
    (let d = vDeployments params i in
     if nThresholdStart d = 0 then to_int (uint (nRuleChangeActivationThreshold params))
     else if nThresholdMin d = 0 \<or> nFalloffCoeff d = 0 then to_int (nThresholdStart d)
     else let nThresholdCalc = nThresholdStart d - cdiv (cdiv (to_int (to_int (nAttempt * nAttempt) * vb_Period params i)) 100) (nFalloffCoeff d)
       in to_int (max (nThresholdMin d) nThresholdCalc))"

definition vb_Mask :: "Params \<Rightarrow> DeploymentPos \<Rightarrow> u32" where
  "vb_Mask params i = push_bit (nat (dep_bit (vDeployments params i))) 1"

definition vb_Condition :: "Params \<Rightarrow> DeploymentPos \<Rightarrow> CBlockIndex \<Rightarrow> bool" where
  "vb_Condition params i b \<longleftrightarrow> nVersion b AND VERSIONBITS_TOP_MASK = VERSIONBITS_TOP_BITS
     \<and> (word_of_int (nVersion b) :: u32) AND vb_Mask params i \<noteq> 0"

definition VersionBitsConditionChecker :: "ehf_signals \<Rightarrow> Params \<Rightarrow> DeploymentPos \<Rightarrow> ThresholdConditionChecker" where
  "VersionBitsConditionChecker ehf params i =
    \<lparr>Condition = vb_Condition params i, BeginTime = nStartTime (vDeployments params i),
     SignalHeight = vb_SignalHeight ehf (vDeployments params i), EndTime = nTimeout (vDeployments params i),
     MinActivationHeight = min_activation_height (vDeployments params i), Period = vb_Period params i,
     Threshold = vb_Threshold params i\<rparr>"

type_synonym VersionBitsCache = "DeploymentPos \<Rightarrow> ThresholdConditionCache"

definition vbc_State ::
  "ehf_signals \<Rightarrow> block_store \<Rightarrow> VersionBitsCache \<Rightarrow> block_ptr option \<Rightarrow> Params \<Rightarrow> DeploymentPos \<Rightarrow> fault + ThresholdState \<times> VersionBitsCache" where
  "vbc_State ehf st m_caches pindexPrev params pos =
    (case GetStateFor st (VersionBitsConditionChecker ehf params pos) pindexPrev (m_caches pos) of Inl e \<Rightarrow> Inl e
     | Inr (s, cache) \<Rightarrow> Inr (s, m_caches(pos := cache)))"

definition vbc_Statistics ::
  "ehf_signals \<Rightarrow> block_store \<Rightarrow> VersionBitsCache \<Rightarrow> block_ptr option \<Rightarrow> Params \<Rightarrow> DeploymentPos \<Rightarrow> fault + BIP9Stats \<times> VersionBitsCache" where
  "vbc_Statistics ehf st m_caches pindexPrev params pos =
    (case GetStateStatisticsFor st (VersionBitsConditionChecker ehf params pos) pindexPrev (m_caches pos) of Inl e \<Rightarrow> Inl e
     | Inr (s, cache) \<Rightarrow> Inr (s, m_caches(pos := cache)))"

definition vbc_StateSinceHeight ::
  "ehf_signals \<Rightarrow> block_store \<Rightarrow> VersionBitsCache \<Rightarrow> block_ptr option \<Rightarrow> Params \<Rightarrow> DeploymentPos \<Rightarrow> fault + int \<times> VersionBitsCache" where
  "vbc_StateSinceHeight ehf st m_caches pindexPrev params pos =
    (case GetStateSinceHeightFor st (VersionBitsConditionChecker ehf params pos) pindexPrev (m_caches pos) of Inl e \<Rightarrow> Inl e
     | Inr (s, cache) \<Rightarrow> Inr (s, m_caches(pos := cache)))"

fun version_loop ::
  "ehf_signals \<Rightarrow> block_store \<Rightarrow> block_ptr option \<Rightarrow> Params \<Rightarrow> DeploymentPos list \<Rightarrow> u32 \<Rightarrow> VersionBitsCache \<Rightarrow> fault + u32 \<times> VersionBitsCache" where
  "version_loop ehf st pindexPrev params [] v m_caches = Inr (v, m_caches)"
| "version_loop ehf st pindexPrev params (pos # ps) v m_caches =
    (case vbc_State ehf st m_caches pindexPrev params pos of Inl e \<Rightarrow> Inl e
     | Inr (state, m_caches) \<Rightarrow>
       version_loop ehf st pindexPrev params ps
         (if state = LOCKED_IN \<or> state = STARTED then v OR vb_Mask params pos else v) m_caches)"

definition ComputeBlockVersion ::
  "ehf_signals \<Rightarrow> block_store \<Rightarrow> VersionBitsCache \<Rightarrow> block_ptr option \<Rightarrow> Params \<Rightarrow> fault + int \<times> VersionBitsCache" where
  "ComputeBlockVersion ehf st m_caches pindexPrev params =
    (case version_loop ehf st pindexPrev params [DEPLOYMENT_TESTDUMMY, DEPLOYMENT_V24] (word_of_int VERSIONBITS_TOP_BITS) m_caches of
       Inl e \<Rightarrow> Inl e | Inr (v, m_caches) \<Rightarrow> Inr (sint v, m_caches))"

definition vbc_Clear :: "VersionBitsCache \<Rightarrow> VersionBitsCache" where
  "vbc_Clear m_caches = (\<lambda>_. Map.empty)"

definition vb_DeploymentActiveAfter ::
  "ehf_signals \<Rightarrow> block_store \<Rightarrow> VersionBitsCache \<Rightarrow> block_ptr option \<Rightarrow> Params \<Rightarrow> DeploymentPos \<Rightarrow> fault + bool \<times> VersionBitsCache" where
  "vb_DeploymentActiveAfter ehf st g_versionbitscache pindexPrev params dep =
    (case vbc_State ehf st g_versionbitscache pindexPrev params dep of Inl e \<Rightarrow> Inl e
     | Inr (s, g) \<Rightarrow> Inr (ACTIVE = s, g))"

definition vb_DeploymentActiveAt ::
  "ehf_signals \<Rightarrow> block_store \<Rightarrow> VersionBitsCache \<Rightarrow> CBlockIndex \<Rightarrow> Params \<Rightarrow> DeploymentPos \<Rightarrow> fault + bool \<times> VersionBitsCache" where
  "vb_DeploymentActiveAt ehf st g_versionbitscache index params dep =
    vb_DeploymentActiveAfter ehf st g_versionbitscache (pprev index) params dep"

definition DeploymentEnabled :: "Params \<Rightarrow> BuriedDeployment \<Rightarrow> bool" where
  "DeploymentEnabled params dep \<longleftrightarrow> DeploymentHeight params dep \<noteq> INT_MAX"

definition vb_DeploymentEnabled :: "Params \<Rightarrow> DeploymentPos \<Rightarrow> bool" where
  "vb_DeploymentEnabled params dep \<longleftrightarrow> nStartTime (vDeployments params dep) \<noteq> NEVER_ACTIVE"

definition DeploymentDIP0003Enforced :: "int \<Rightarrow> Params \<Rightarrow> bool" where
  "DeploymentDIP0003Enforced height params \<longleftrightarrow> height \<ge> DIP0003EnforcementHeight params"

subsection \<open>The state without a cache\<close>

definition median_time :: "block_store \<Rightarrow> block_ptr \<Rightarrow> int" where
  "median_time st q = (case GetMedianTimePast st q of Inr t \<Rightarrow> t | Inl _ \<Rightarrow> 0)"

definition previous_parent :: "block_store \<Rightarrow> int \<Rightarrow> block_ptr \<Rightarrow> block_ptr option" where
  "previous_parent st P q = (case st q of None \<Rightarrow> None
     | Some b \<Rightarrow> (case GetAncestor st q (int (nHeight b) - P) of Inr r \<Rightarrow> r | Inl _ \<Rightarrow> None))"

definition signals_in_period :: "block_store \<Rightarrow> ThresholdConditionChecker \<Rightarrow> block_ptr \<Rightarrow> int" where
  "signals_in_period st chk q =
    int (length (filter (\<lambda>k. case nth_prev st k q of None \<Rightarrow> False | Some r \<Rightarrow>
      (case st r of None \<Rightarrow> False | Some b \<Rightarrow> Condition chk b)) [0..<nat (Period chk)]))"

definition bip9_step ::
  "ThresholdConditionChecker \<Rightarrow> bool \<Rightarrow> bool \<Rightarrow> int \<Rightarrow> int \<Rightarrow> ThresholdState \<times> int \<Rightarrow> ThresholdState \<times> int" where
  "bip9_step chk begun timed_out signals h s =
    (case s of
       (DEFINED, start) \<Rightarrow> if begun then (STARTED, h + 1) else (DEFINED, start)
     | (STARTED, start) \<Rightarrow>
         if signals \<ge> Threshold chk ((h + 1 - start) div Period chk - 1) then (LOCKED_IN, start)
         else if timed_out then (FAILED, start) else (STARTED, start)
     | (LOCKED_IN, start) \<Rightarrow> if h + 1 \<ge> MinActivationHeight chk then (ACTIVE, start) else (LOCKED_IN, start)
     | (ACTIVE, start) \<Rightarrow> (ACTIVE, start)
     | (FAILED, start) \<Rightarrow> (FAILED, start))"

text \<open>From the genesis block on, one step per period; the fuel exceeds the height.\<close>

fun bip9 :: "nat \<Rightarrow> block_store \<Rightarrow> ThresholdConditionChecker \<Rightarrow> block_ptr option \<Rightarrow> ThresholdState \<times> int" where
  "bip9 0 st chk p = (DEFINED, INT_MAX)"
| "bip9 (Suc n) st chk None = (DEFINED, INT_MAX)"
| "bip9 (Suc n) st chk (Some q) =
    (case st q of None \<Rightarrow> (DEFINED, INT_MAX)
     | Some b \<Rightarrow> bip9_step chk (median_time st q \<ge> BeginTime chk \<and> int (nHeight b) \<ge> SignalHeight chk (Some q))
         (median_time st q \<ge> EndTime chk) (signals_in_period st chk q) (int (nHeight b))
         (bip9 n st chk (previous_parent st (Period chk) q)))"

definition bip9_at :: "block_store \<Rightarrow> ThresholdConditionChecker \<Rightarrow> block_ptr option \<Rightarrow> ThresholdState \<times> int" where
  "bip9_at st chk p = bip9 (block_fuel st p) st chk p"

subsection \<open>Chains in which it is well defined\<close>

text \<open>Every block is later than the median time past of its parent, a rule of consensus.\<close>

definition times_ok :: "block_store \<Rightarrow> bool" where
  "times_ok st \<longleftrightarrow> (\<forall>p b q. st p = Some b \<longrightarrow> pprev b = Some q \<longrightarrow> median_time st q < GetBlockTime b)"

text \<open>A signal at or below a block is known at every descendant of it, and no other is.\<close>

definition signals_ok :: "block_store \<Rightarrow> ThresholdConditionChecker \<Rightarrow> bool" where
  "signals_ok st chk \<longleftrightarrow> (\<forall>p n q c. nth_prev st n p = Some q \<longrightarrow> st q = Some c \<longrightarrow>
     (SignalHeight chk (Some p) \<le> int (nHeight c) \<longleftrightarrow> SignalHeight chk (Some q) \<le> int (nHeight c)))"

definition deployment_ok :: "block_store \<Rightarrow> ThresholdConditionChecker \<Rightarrow> bool" where
  "deployment_ok st chk \<longleftrightarrow> wf_tree st \<and> times_ok st \<and> signals_ok st chk \<and> Period chk \<ge> 1
     \<and> (\<forall>p b. st p = Some b \<longrightarrow> int (nHeight b) + 1 < INT_MAX)"

subsection \<open>Median time past does not decrease\<close>

lemma nth_sort_ge:
  assumes "length (filter (\<lambda>t. t < (x :: int)) ts) \<le> k" "k < length ts"
  shows "x \<le> sort ts ! k"
proof (rule ccontr)
  assume "\<not> x \<le> sort ts ! k"
  then have l: "sort ts ! i < x" if "i \<le> k" for i
    using that assms(2) sorted_nth_mono [OF sorted_sort, of i k ts] by force
  have "Suc k = card {..k}" by simp
  also have "\<dots> \<le> card {i. i < length (sort ts) \<and> sort ts ! i < x}"
    using assms(2) l by (intro card_mono) auto
  also have "\<dots> = length (filter (\<lambda>t. t < x) ts)"
    using length_filter_conv_card [of "\<lambda>t. t < x" "sort ts"] by (simp add: length_filter_sort)
  finally show False using assms(1) by simp
qed

lemma median_times_Suc:
  "median_times (Suc n) st (Some p) = Inr ts \<Longrightarrow> median_times n st (Some p) = Inr (if length ts \<le> n then ts else tl ts)"
proof (induction n arbitrary: p ts)
  case 0
  then show ?case by (auto split: option.splits sum.splits)
next
  case (Suc n)
  then obtain b us where b: "st p = Some b" "median_times (Suc n) st (pprev b) = Inr us" "ts = us @ [GetBlockTime b]"
    by (auto split: option.splits sum.splits)
  show ?case
  proof (cases "pprev b")
    case None
    then show ?thesis using b by (cases n) simp_all
  next
    case (Some q)
    then show ?thesis using Suc.IH [of q us] b by (cases us) auto
  qed
qed

lemma median_time_step:
  assumes "links_ok st" "st p = Some b" "pprev b = Some q" "median_time st q < GetBlockTime b"
  shows "median_time st q \<le> median_time st p"
proof -
  obtain c where c: "st q = Some c" "nHeight b = Suc (nHeight c)" using assms(1-3) by (auto elim: links_okE)
  obtain us where us: "median_times 11 st (Some q) = Inr us" "length us = min 11 (Suc (nHeight c))"
    using median_times_total [OF assms(1) c(1), of 11] by blast
  define k where "k = length us div 2"
  define vs where "vs = (if length us \<le> 10 then us else tl us)"
  have m: "median_time st q = sort us ! k"
    using us by (simp add: median_time_def GetMedianTimePast_def nMedianTimeSpan_def k_def)
  have "median_times 10 st (Some q) = Inr vs" using median_times_Suc [of 10 st q us] us by (simp add: vs_def)
  then have p: "median_times 11 st (Some p) = Inr (vs @ [GetBlockTime b])"
    using assms(2,3) median_times.simps(3) [of 10 st p] by simp
  then have mp: "median_time st p = sort (vs @ [GetBlockTime b]) ! (Suc (length vs) div 2)"
    by (simp add: median_time_def GetMedianTimePast_def nMedianTimeSpan_def)
  have k: "k < length us" using us(2) by (simp add: k_def)
  have "length us = length (filter (\<lambda>t. sort us ! k \<le> t) us) + length (filter (\<lambda>t. t < sort us ! k) us)"
    using sum_length_filter_compl [of "\<lambda>t. sort us ! k \<le> t" us] by (simp add: not_le)
  then have "length (filter (\<lambda>t. t < sort us ! k) us) \<le> k"
    using sorted_median(2) [OF sorted_sort, of k us] k unfolding length_filter_sort length_sort by linarith
  moreover have "length (filter P vs) \<le> length (filter P us)" for P by (cases us) (simp_all add: vs_def)
  ultimately have "length (filter (\<lambda>t. t < sort us ! k) vs) \<le> k" using order_trans by blast
  then have "length (filter (\<lambda>t. t < median_time st q) (vs @ [GetBlockTime b])) \<le> k"
    using assms(4) unfolding m by simp
  moreover have "length vs = length us \<or> length vs = 10 \<and> length us = 11" using us(2) by (auto simp: vs_def)
  then have "k \<le> Suc (length vs) div 2" unfolding k_def using div_le_mono [of "length us" "Suc (length us)" 2] by auto
  ultimately show ?thesis unfolding mp by (intro nth_sort_ge) auto
qed

lemma median_time_mono:
  assumes "links_ok st" "times_ok st"
  shows "st p = Some b \<Longrightarrow> nth_prev st n p = Some q \<Longrightarrow> median_time st q \<le> median_time st p"
proof (induction n arbitrary: p b)
  case (Suc n)
  then obtain r where r: "pprev b = Some r" "nth_prev st n r = Some q" by (auto split: option.splits)
  obtain c where "st r = Some c" using assms(1) Suc.prems(1) r(1) by (auto elim: links_okE)
  then have "median_time st q \<le> median_time st r" using Suc.IH r(2) by blast
  also have "\<dots> \<le> median_time st p"
    by (rule median_time_step [OF assms(1) Suc.prems(1) r(1)]) (use assms(2) Suc.prems(1) r(1) in \<open>auto simp: times_ok_def\<close>)
  finally show ?case .
qed simp

subsection \<open>Parents of periods\<close>

lemma deployment_okD:
  assumes "deployment_ok st chk"
  shows "wf_tree st" "links_ok st" "times_ok st" "signals_ok st chk" "Period chk \<ge> 1"
    "st p = Some b \<Longrightarrow> int (nHeight b) + 1 < INT_MAX"
  using assms by (auto simp: deployment_ok_def wf_tree_def)

lemma previous_parent_cases:
  assumes "wf_tree st" "P \<ge> 1" "st q = Some b"
  shows "GetAncestor st q (int (nHeight b) - P) = Inr (previous_parent st P q)"
    "if int (nHeight b) < P then previous_parent st P q = None
     else \<exists>r c. previous_parent st P q = Some r \<and> nth_prev st (nat P) q = Some r \<and> st r = Some c
       \<and> int (nHeight c) = int (nHeight b) - P"
proof -
  have l: "links_ok st" using assms(1) by (simp add: wf_tree_def)
  have "GetAncestor st q (int (nHeight b) - P) = Inr (if int (nHeight b) < P then None else nth_prev st (nat P) q)"
  proof (cases "int (nHeight b) < P")
    case True
    then show ?thesis using assms(3) by (simp add: GetAncestor_def)
  next
    case False
    then have "int (nHeight b) - P = int (nHeight b - nat P)" "nHeight b - (nHeight b - nat P) = nat P" using assms(2) by simp_all
    then show ?thesis using GetAncestor_nth_prev [OF assms(1,3), of "nHeight b - nat P"] False by simp
  qed
  then have g: "GetAncestor st q (int (nHeight b) - P) = Inr (previous_parent st P q)"
    "previous_parent st P q = (if int (nHeight b) < P then None else nth_prev st (nat P) q)"
    using assms(3) by (simp_all add: previous_parent_def)
  show "GetAncestor st q (int (nHeight b) - P) = Inr (previous_parent st P q)" by (rule g)
  show "if int (nHeight b) < P then previous_parent st P q = None
     else \<exists>r c. previous_parent st P q = Some r \<and> nth_prev st (nat P) q = Some r \<and> st r = Some c
       \<and> int (nHeight c) = int (nHeight b) - P"
  proof (cases "int (nHeight b) < P")
    case False
    then have "nat P \<le> nHeight b" using assms(2) by simp
    from nth_prev_height [OF l assms(3) this] obtain r c where
      "nth_prev st (nat P) q = Some r" "st r = Some c" "nHeight c + nat P = nHeight b" by blast
    then show ?thesis using g(2) False assms(2) by auto
  qed (use g(2) in simp)
qed

lemma previous_parent_lower:
  assumes "wf_tree st" "P \<ge> 1" "st q = Some b" "previous_parent st P q = Some r"
  obtains c where "st r = Some c" "int (nHeight c) = int (nHeight b) - P" "nth_prev st (nat P) q = Some r"
  using previous_parent_cases(2) [OF assms(1-3)] assms(4) by (auto split: if_splits)

lemma bip9_fuel:
  assumes "wf_tree st" "Period chk \<ge> 1"
  shows "st q = Some b \<Longrightarrow> nHeight b < n \<Longrightarrow> nHeight b < m \<Longrightarrow> bip9 n st chk (Some q) = bip9 m st chk (Some q)"
proof (induction n arbitrary: m q b)
  case (Suc n)
  obtain m' where m: "m = Suc m'" using Suc.prems(3) by (cases m) auto
  have "bip9 n st chk (previous_parent st (Period chk) q) = bip9 m' st chk (previous_parent st (Period chk) q)"
  proof (cases "previous_parent st (Period chk) q")
    case None
    then show ?thesis by (cases n; cases m') simp_all
  next
    case (Some r)
    obtain c where "st r = Some c" "int (nHeight c) = int (nHeight b) - Period chk"
      using previous_parent_lower [OF assms Suc.prems(1) Some] by blast
    then show ?thesis using Suc.IH [of r c m'] Suc.prems(2,3) assms(2) m Some by simp
  qed
  then show ?case using m Suc.prems(1) by simp
qed simp

lemma bip9_at_None [simp]: "bip9_at st chk None = (DEFINED, INT_MAX)"
  by (simp add: bip9_at_def block_fuel_def)

definition begun :: "block_store \<Rightarrow> ThresholdConditionChecker \<Rightarrow> block_ptr \<Rightarrow> bool" where
  "begun st chk q \<longleftrightarrow> (case st q of None \<Rightarrow> False
     | Some b \<Rightarrow> median_time st q \<ge> BeginTime chk \<and> int (nHeight b) \<ge> SignalHeight chk (Some q))"

lemma bip9_at_step:
  assumes "wf_tree st" "Period chk \<ge> 1" "st q = Some b"
  shows "bip9_at st chk (Some q) = bip9_step chk (begun st chk q) (median_time st q \<ge> EndTime chk)
    (signals_in_period st chk q) (int (nHeight b)) (bip9_at st chk (previous_parent st (Period chk) q))"
proof -
  have "bip9 (Suc (Suc (nHeight b))) st chk (previous_parent st (Period chk) q) = bip9_at st chk (previous_parent st (Period chk) q)"
  proof (cases "previous_parent st (Period chk) q")
    case (Some r)
    obtain c where c: "st r = Some c" "int (nHeight c) = int (nHeight b) - Period chk"
      using previous_parent_lower [OF assms Some] by blast
    have "bip9 (Suc (Suc (nHeight b))) st chk (Some r) = bip9 (nHeight c + 3) st chk (Some r)"
      by (rule bip9_fuel [OF assms(1,2) c(1)]) (use c(2) assms(2) in simp_all)
    then show ?thesis unfolding Some bip9_at_def block_fuel_def using c(1) by (simp del: bip9.simps)
  qed simp
  moreover have "bip9_at st chk (Some q) = bip9 (Suc (Suc (Suc (nHeight b)))) st chk (Some q)"
    using assms(3) by (simp add: bip9_at_def block_fuel_def numeral_3_eq_3 del: bip9.simps)
  ultimately show ?thesis unfolding begun_def using assms(3) by (simp only: bip9.simps(3) option.case)
qed

lemma bip9_step_started:
  "bip9_step chk bg late sig h s = (STARTED, start) \<longleftrightarrow>
    (fst s = DEFINED \<and> bg \<and> start = h + 1) \<or>
    (s = (STARTED, start) \<and> sig < Threshold chk ((h + 1 - start) div Period chk - 1) \<and> \<not> late)"
  by (cases s; cases "fst s") (auto simp: bip9_step_def)

lemma started_bound:
  assumes "wf_tree st" "Period chk \<ge> 1"
  shows "st q = Some b \<Longrightarrow> bip9_at st chk (Some q) = (STARTED, start) \<Longrightarrow> 0 < start \<and> start \<le> int (nHeight b) + 1"
proof (induction "nHeight b" arbitrary: q b rule: less_induct)
  case less
  show ?case
  proof (cases "start = int (nHeight b) + 1")
    case False
    then have s: "bip9_at st chk (previous_parent st (Period chk) q) = (STARTED, start)"
      using less.prems(2) unfolding bip9_at_step [OF assms less.prems(1)] bip9_step_started by auto
    then obtain r where r: "previous_parent st (Period chk) q = Some r" by (cases "previous_parent st (Period chk) q") auto
    obtain c where c: "st r = Some c" "int (nHeight c) = int (nHeight b) - Period chk"
      using previous_parent_lower [OF assms less.prems(1) r] by blast
    show ?thesis using less.hyps [OF _ c(1)] c(2) s assms(2) r by auto
  qed simp
qed

text \<open>Before the start time or the signal, nothing has happened.\<close>

lemma early_defined:
  assumes "deployment_ok st chk" "st tip = Some t"
  shows "st q = Some b \<Longrightarrow> nth_prev st n tip = Some q \<Longrightarrow>
    median_time st q < BeginTime chk \<or> int (nHeight b) < SignalHeight chk (Some tip) \<Longrightarrow>
    bip9_at st chk (Some q) = (DEFINED, INT_MAX)"
proof (induction "nHeight b" arbitrary: q b n rule: less_induct)
  case less
  note D = deployment_okD [OF assms(1)]
  have "\<not> begun st chk q" using less.prems D(4) unfolding begun_def signals_ok_def by fastforce
  moreover have "bip9_at st chk (previous_parent st (Period chk) q) = (DEFINED, INT_MAX)"
  proof (cases "previous_parent st (Period chk) q")
    case (Some r)
    obtain c where c: "st r = Some c" "int (nHeight c) = int (nHeight b) - Period chk" "nth_prev st (nat (Period chk)) q = Some r"
      using previous_parent_lower [OF D(1,5) less.prems(1) Some] by blast
    have "nth_prev st (n + nat (Period chk)) tip = Some r" using less.prems(2) c(3) by (simp add: nth_prev_add)
    moreover have "median_time st r < BeginTime chk \<or> int (nHeight c) < SignalHeight chk (Some tip)"
      using less.prems(3) median_time_mono [OF D(2,3) less.prems(1) c(3)] c(2) D(5) by auto
    ultimately show ?thesis unfolding Some using less.hyps [OF _ c(1)] c(2) D(5) by simp
  qed simp
  ultimately show ?case unfolding bip9_at_step [OF D(1,5) less.prems(1)] by (simp add: bip9_step_def)
qed

lemma count_signals_correct:
  assumes "links_ok st"
  shows "st q = Some b \<Longrightarrow> n \<le> nHeight b \<Longrightarrow> count_signals n st chk (Some q) c = Inr (c + int (length (filter (\<lambda>k.
    case nth_prev st k q of None \<Rightarrow> False | Some r \<Rightarrow> (case st r of None \<Rightarrow> False | Some b \<Rightarrow> Condition chk b)) [0..<n])), nth_prev st n q)"
proof (induction n arbitrary: q b c)
  case (Suc n)
  obtain r d where r: "pprev b = Some r" "st r = Some d" "nHeight b = Suc (nHeight d)"
    using assms Suc.prems by (auto elim: links_okE)
  have u: "[0..<Suc n] = 0 # map Suc [0..<n]" by (simp only: map_Suc_upt upt_conv_Cons [OF zero_less_Suc])
  show ?case using Suc.IH [OF r(2)] Suc.prems r unfolding u by (simp add: filter_map comp_def)
qed simp

subsection \<open>The cache\<close>

text \<open>Cached states are right, and the states back to the start of a running vote are cached too.\<close>

definition cache_ok :: "block_store \<Rightarrow> ThresholdConditionChecker \<Rightarrow> ThresholdConditionCache \<Rightarrow> bool" where
  "cache_ok st chk cache \<longleftrightarrow> (\<forall>s. cache None = Some s \<longrightarrow> s = DEFINED) \<and>
    (\<forall>q s. cache (Some q) = Some s \<longrightarrow> (\<exists>b. st q = Some b) \<and> s = fst (bip9_at st chk (Some q))
       \<and> (s = STARTED \<longrightarrow> cache (previous_parent st (Period chk) q) \<noteq> None))"

lemma cache_ok_state: "cache_ok st chk cache \<Longrightarrow> cache p = Some s \<Longrightarrow> s = fst (bip9_at st chk p)"
  by (cases p) (auto simp: cache_ok_def)

lemma cache_ok_None: "cache_ok st chk cache \<Longrightarrow> cache_ok st chk (cache(None \<mapsto> DEFINED))"
  by (auto simp: cache_ok_def)

lemma cache_ok_upd:
  assumes "cache_ok st chk cache" "st q = Some b" "s = fst (bip9_at st chk (Some q))"
    "s = STARTED \<Longrightarrow> cache (previous_parent st (Period chk) q) \<noteq> None"
  shows "cache_ok st chk (cache(Some q \<mapsto> s))"
  using assms by (auto simp: cache_ok_def)

lemma start_height_correct:
  assumes "deployment_ok st chk" "cache_ok st chk cache"
  shows "cache p = Some s \<Longrightarrow> block_fuel st p \<le> fuel + 1 \<Longrightarrow> 0 < fuel \<Longrightarrow>
    start_height_loop fuel st (Period chk) cache p s acc = Inr (if s = STARTED then min (snd (bip9_at st chk p)) acc else acc)"
proof (induction fuel arbitrary: p s acc)
  case (Suc fuel)
  note D = deployment_okD [OF assms(1)]
  show ?case
  proof (cases "s = STARTED")
    case True
    then obtain q where q: "p = Some q" using Suc.prems(1) assms(2) by (cases p) (auto simp: cache_ok_def)
    let ?p = "previous_parent st (Period chk) q"
    obtain b s' where b: "st q = Some b" "STARTED = fst (bip9_at st chk (Some q))" "cache ?p = Some s'"
      using Suc.prems(1) assms(2) True q by (fastforce simp: cache_ok_def)
    obtain start where st: "bip9_at st chk (Some q) = (STARTED, start)" using b(2) by (metis prod.collapse)
    have fuel: "block_fuel st ?p \<le> fuel + 1" "0 < fuel"
      using Suc.prems(2) previous_parent_cases(2) [OF D(1,5) b(1)] b(1) q D(5)
      by (auto simp: block_fuel_def split: if_splits)
    have s': "s' = fst (bip9_at st chk ?p)" by (rule cache_ok_state [OF assms(2) b(3)])
    have "(if s' = STARTED then min (snd (bip9_at st chk ?p)) (min (int (nHeight b) + 1) acc) else min (int (nHeight b) + 1) acc) = min start acc"
    proof (cases "s' = STARTED")
      case False
      then show ?thesis using st s' unfolding bip9_at_step [OF D(1,5) b(1)] bip9_step_started by auto
    next
      case True
      then have "bip9_at st chk ?p = (STARTED, start)"
        using st s' unfolding bip9_at_step [OF D(1,5) b(1)] bip9_step_started by auto
      then show ?thesis using True started_bound [OF D(1,5) b(1) st] by (simp add: min_def)
    qed
    then show ?thesis using Suc.IH [OF b(3) fuel, of "min (int (nHeight b) + 1) acc"] True q b(1,3) st
        previous_parent_cases(1) [OF D(1,5) b(1)] by simp
  qed simp
qed simp

lemma GetMedianTimePast_total: "links_ok st \<Longrightarrow> st q = Some b \<Longrightarrow> GetMedianTimePast st q = Inr (median_time st q)"
  using GetMedianTimePast_median [of st q b] by (auto simp: median_time_def)

lemma started_next:
  assumes "deployment_ok st chk" "st q = Some b" "bip9_at st chk (previous_parent st (Period chk) q) = (STARTED, start)"
  shows "count_signals (nat (Period chk)) st chk (Some q) 0 = Inr (signals_in_period st chk q, previous_parent st (Period chk) q)"
    "0 < start" "start < INT_MAX" "height_of st (previous_parent st (Period chk) q) = Inr (int (nHeight b) - Period chk)"
    "cdiv (int (nHeight b) - Period chk + 1 - start) (Period chk) = (int (nHeight b) + 1 - start) div Period chk - 1"
proof -
  note D = deployment_okD [OF assms(1)]
  obtain r where r: "previous_parent st (Period chk) q = Some r"
    using assms(3) by (cases "previous_parent st (Period chk) q") auto
  obtain c where c: "st r = Some c" "int (nHeight c) = int (nHeight b) - Period chk" "nth_prev st (nat (Period chk)) q = Some r"
    using previous_parent_lower [OF D(1,5) assms(2) r] by blast
  have "nat (Period chk) \<le> nHeight b" using c(2) by simp
  from count_signals_correct [OF D(2) assms(2) this]
  show "count_signals (nat (Period chk)) st chk (Some q) 0 = Inr (signals_in_period st chk q, previous_parent st (Period chk) q)"
    by (simp add: signals_in_period_def c(3) r)
  have s: "0 < start" "start \<le> int (nHeight c) + 1" using started_bound [OF D(1,5) c(1)] assms(3) r by auto
  then show "0 < start" "start < INT_MAX" using D(6) [OF c(1)] by simp_all
  show "height_of st (previous_parent st (Period chk) q) = Inr (int (nHeight b) - Period chk)" using r c(1,2) by (simp add: height_of_def)
  have "(int (nHeight b) - Period chk + 1 - start) div Period chk = (int (nHeight b) + 1 - start + - 1 * Period chk) div Period chk" by (simp add: algebra_simps)
  also have "\<dots> = (int (nHeight b) + 1 - start) div Period chk - 1" using D(5) by (subst div_mult_self1) simp_all
  finally have "(int (nHeight b) - Period chk + 1 - start) div Period chk = (int (nHeight b) + 1 - start) div Period chk - 1" .
  moreover have "0 \<le> int (nHeight b) - Period chk + 1 - start" using s(2) c(2) by simp
  ultimately show "cdiv (int (nHeight b) - Period chk + 1 - start) (Period chk) = (int (nHeight b) + 1 - start) div Period chk - 1"
    using cdiv_nonneg [of "int (nHeight b) - Period chk + 1 - start" "Period chk"] D(5) by simp
qed

lemma next_state_correct:
  assumes "deployment_ok st chk" "nth_prev st n tip = Some q" "st q = Some b"
    "bip9_at st chk (previous_parent st (Period chk) q) = (state, start0)" "state = STARTED \<Longrightarrow> start = start0"
  shows "\<exists>start'. next_state st chk (SignalHeight chk (Some tip)) q state start = Inr (fst (bip9_at st chk (Some q)), start')
    \<and> (fst (bip9_at st chk (Some q)) = STARTED \<longrightarrow> start' = snd (bip9_at st chk (Some q)))"
proof -
  note D = deployment_okD [OF assms(1)]
  have sig: "SignalHeight chk (Some tip) \<le> int (nHeight b) \<longleftrightarrow> SignalHeight chk (Some q) \<le> int (nHeight b)"
    using D(4) assms(2,3) unfolding signals_ok_def by blast
  note m = GetMedianTimePast_total [OF D(2) assms(3)]
  note step = bip9_at_step [OF D(1,5) assms(3), unfolded assms(4)]
  show ?thesis
  proof (cases "state = STARTED")
    case True
    then have s: "start = start0" "bip9_at st chk (previous_parent st (Period chk) q) = (STARTED, start0)" using assms(4,5) by auto
    note N = started_next [OF assms(1,3) s(2)]
    show ?thesis unfolding next_state_def step using assms(3) m N True s(1) by (simp add: Let_def bip9_step_def)
  next
    case False
    then show ?thesis unfolding next_state_def step using assms(3) m sig
      by (cases state) (auto simp: bip9_step_def begun_def)
  qed
qed

fun linked :: "block_store \<Rightarrow> int \<Rightarrow> block_ptr \<Rightarrow> block_ptr option \<Rightarrow> block_ptr list \<Rightarrow> bool" where
  "linked st P tip p [] \<longleftrightarrow> True"
| "linked st P tip p (q # qs) \<longleftrightarrow> previous_parent st P q = p \<and> (\<exists>b. st q = Some b) \<and> (\<exists>n. nth_prev st n tip = Some q)
    \<and> linked st P tip (Some q) qs"

definition end_of :: "block_ptr option \<Rightarrow> block_ptr list \<Rightarrow> block_ptr option" where
  "end_of p qs = (if qs = [] then p else Some (last qs))"

lemma walk_forward_correct:
  assumes "deployment_ok st chk"
  shows "cache_ok st chk cache \<Longrightarrow> cache p \<noteq> None \<Longrightarrow> linked st (Period chk) tip p todo \<Longrightarrow>
    bip9_at st chk p = (state, start0) \<Longrightarrow> (state = STARTED \<Longrightarrow> start = start0) \<Longrightarrow>
    \<exists>cache'. walk_forward st chk (SignalHeight chk (Some tip)) todo state start cache = Inr (fst (bip9_at st chk (end_of p todo)), cache')
      \<and> cache_ok st chk cache'"
proof (induction todo arbitrary: cache p state start start0)
  case Nil
  then show ?case by (simp add: end_of_def)
next
  case (Cons q qs)
  from Cons.prems(3) obtain b n where q: "previous_parent st (Period chk) q = p" "st q = Some b" "nth_prev st n tip = Some q"
    "linked st (Period chk) tip (Some q) qs" by auto
  obtain s' start1 where s': "bip9_at st chk (Some q) = (s', start1)" by (cases "bip9_at st chk (Some q)") auto
  obtain start' where n: "next_state st chk (SignalHeight chk (Some tip)) q state start = Inr (s', start')" "s' = STARTED \<Longrightarrow> start' = start1"
    using next_state_correct [OF assms q(3,2), of state start0 start] Cons.prems(4,5) q(1) s' by auto
  have c1: "cache_ok st chk (cache(Some q \<mapsto> s'))"
    by (rule cache_ok_upd [OF Cons.prems(1) q(2)]) (use s' Cons.prems(2) q(1) in simp_all)
  have c2: "(cache(Some q \<mapsto> s')) (Some q) \<noteq> None" by simp
  from Cons.IH [OF c1 c2 q(4) s' n(2)] obtain cache' where
    "walk_forward st chk (SignalHeight chk (Some tip)) qs s' start' (cache(Some q \<mapsto> s'))
      = Inr (fst (bip9_at st chk (end_of (Some q) qs)), cache')" "cache_ok st chk cache'" by blast
  moreover have "end_of p (q # qs) = end_of (Some q) qs" by (simp add: end_of_def)
  ultimately show ?case using n(1) by simp
qed

lemma walk_back_correct:
  assumes "deployment_ok st chk" "st tip = Some t" "cache_ok st chk cache"
  shows "(\<And>q. p = Some q \<Longrightarrow> (\<exists>b. st q = Some b) \<and> (\<exists>n. nth_prev st n tip = Some q)) \<Longrightarrow> linked st (Period chk) tip p todo \<Longrightarrow>
    block_fuel st p \<le> fuel + 1 \<Longrightarrow> 0 < fuel \<Longrightarrow>
    \<exists>p' cache' todo'. walk_back fuel st chk (SignalHeight chk (Some tip)) p cache todo = Inr (p', cache', todo')
      \<and> cache_ok st chk cache' \<and> cache' p' \<noteq> None \<and> linked st (Period chk) tip p' todo' \<and> end_of p' todo' = end_of p todo"
proof (induction fuel arbitrary: p todo)
  case (Suc fuel)
  note D = deployment_okD [OF assms(1)]
  show ?case
  proof (cases "cache p = None")
    case False
    then show ?thesis using assms(3) Suc.prems(2) by auto
  next
    case True
    show ?thesis
    proof (cases p)
      case None
      then show ?thesis using True cache_ok_None [OF assms(3)] Suc.prems(2) by auto
    next
      case (Some q)
      then obtain b n where q: "st q = Some b" "nth_prev st n tip = Some q" using Suc.prems(1) by blast
      let ?p = "previous_parent st (Period chk) q"
      show ?thesis
      proof (cases "median_time st q < BeginTime chk \<or> int (nHeight b) < SignalHeight chk (Some tip)")
        case early: True
        have "bip9_at st chk (Some q) = (DEFINED, INT_MAX)" by (rule early_defined [OF assms(1,2) q early])
        then have "cache_ok st chk (cache(Some q \<mapsto> DEFINED))" by (intro cache_ok_upd [OF assms(3) q(1)]) simp_all
        then show ?thesis using True Some q(1) early GetMedianTimePast_total [OF D(2) q(1)] Suc.prems(2) by auto
      next
        case late: False
        have a: "(\<exists>c. st r = Some c) \<and> (\<exists>n. nth_prev st n tip = Some r)" if "?p = Some r" for r
        proof -
          obtain c where "st r = Some c" "nth_prev st (nat (Period chk)) q = Some r"
            using previous_parent_lower [OF D(1,5) q(1) \<open>?p = Some r\<close>] by blast
          moreover from this have "nth_prev st (n + nat (Period chk)) tip = Some r" using q(2) by (simp add: nth_prev_add)
          ultimately show ?thesis by blast
        qed
        have l: "linked st (Period chk) tip ?p (q # todo)" using q Suc.prems(2) Some by auto
        have f: "block_fuel st ?p \<le> fuel + 1" "0 < fuel"
          using Suc.prems(3) previous_parent_cases(2) [OF D(1,5) q(1)] q(1) Some D(5)
          by (auto simp: block_fuel_def split: if_splits)
        from Suc.IH [OF a l f] obtain p' cache' todo' where
          "walk_back fuel st chk (SignalHeight chk (Some tip)) ?p cache (q # todo) = Inr (p', cache', todo')"
          "cache_ok st chk cache'" "cache' p' \<noteq> None" "linked st (Period chk) tip p' todo'" "end_of p' todo' = end_of ?p (q # todo)"
          by blast
        moreover have "end_of ?p (q # todo) = end_of p todo" using Some by (simp add: end_of_def)
        ultimately show ?thesis using True Some q(1) late GetMedianTimePast_total [OF D(2) q(1)]
            previous_parent_cases(1) [OF D(1,5) q(1)] by auto
      qed
    qed
  qed
qed simp

subsection \<open>The cached computation is right\<close>

text \<open>The last block of the period before: the ancestor at the highest height one below a multiple of the period.\<close>

definition parent_of :: "block_store \<Rightarrow> int \<Rightarrow> block_ptr option \<Rightarrow> block_ptr option" where
  "parent_of st P p = (case period_parent st P p of Inr r \<Rightarrow> r | Inl _ \<Rightarrow> None)"

definition deployment_state :: "block_store \<Rightarrow> ThresholdConditionChecker \<Rightarrow> block_ptr option \<Rightarrow> ThresholdState" where
  "deployment_state st chk p =
    (if BeginTime chk = ALWAYS_ACTIVE then ACTIVE else if BeginTime chk = NEVER_ACTIVE then FAILED
     else fst (bip9_at st chk (parent_of st (Period chk) p)))"

definition parent_height :: "int \<Rightarrow> CBlockIndex \<Rightarrow> int" where
  "parent_height P b = int (nHeight b) - (int (nHeight b) + 1) mod P"

lemma parent_height_facts:
  assumes "P \<ge> 1"
  shows "parent_height P b + 1 = (int (nHeight b) + 1) div P * P" "parent_height P b \<le> int (nHeight b)" "- 1 \<le> parent_height P b"
proof -
  show e: "parent_height P b + 1 = (int (nHeight b) + 1) div P * P" unfolding parent_height_def
    using div_mult_mod_eq [of "int (nHeight b) + 1" P] by linarith
  show "parent_height P b \<le> int (nHeight b)" using assms by (simp add: parent_height_def)
  have "0 \<le> (int (nHeight b) + 1) div P * P" using assms by (simp add: pos_imp_zdiv_nonneg_iff)
  then show "- 1 \<le> parent_height P b" using e by linarith
qed

lemma parent_of_nth_prev:
  assumes "wf_tree st" "P \<ge> 1" "st p = Some b"
  shows "period_parent st P (Some p) = Inr (parent_of st P (Some p))"
    "parent_of st P (Some p) = (if parent_height P b < 0 then None else nth_prev st (nat (int (nHeight b) - parent_height P b)) p)"
proof -
  have "GetAncestor st p (parent_height P b) =
      Inr (if parent_height P b < 0 then None else nth_prev st (nat (int (nHeight b) - parent_height P b)) p)"
  proof (cases "parent_height P b < 0")
    case True
    then show ?thesis using assms(3) by (simp add: GetAncestor_def)
  next
    case False
    then have "parent_height P b = int (nat (parent_height P b))" "nat (parent_height P b) \<le> nHeight b"
      "nHeight b - nat (parent_height P b) = nat (int (nHeight b) - parent_height P b)"
      using parent_height_facts(2) [OF assms(2), of b] by auto
    then show ?thesis using GetAncestor_nth_prev [OF assms(1,3), of "nat (parent_height P b)"] False by simp
  qed
  then show "period_parent st P (Some p) = Inr (parent_of st P (Some p))"
    "parent_of st P (Some p) = (if parent_height P b < 0 then None else nth_prev st (nat (int (nHeight b) - parent_height P b)) p)"
    using assms(3) by (simp_all add: parent_of_def period_parent_def parent_height_def [symmetric])
qed

lemma parent_of_Some:
  assumes "wf_tree st" "P \<ge> 1" "st p = Some b" "parent_of st P (Some p) = Some q"
  obtains c n where "st q = Some c" "nth_prev st n p = Some q" "int (nHeight c) = parent_height P b"
proof -
  have l: "links_ok st" using assms(1) by (simp add: wf_tree_def)
  have q: "\<not> parent_height P b < 0" "nth_prev st (nat (int (nHeight b) - parent_height P b)) p = Some q"
    using parent_of_nth_prev(2) [OF assms(1-3)] assms(4) by (auto split: if_splits)
  have "nat (int (nHeight b) - parent_height P b) \<le> nHeight b" using q(1) by linarith
  then obtain c where "st q = Some c" "nHeight c + nat (int (nHeight b) - parent_height P b) = nHeight b"
    using nth_prev_height [OF l assms(3), of "nat (int (nHeight b) - parent_height P b)"] q by auto
  then show ?thesis using that q parent_height_facts(2) [OF assms(2), of b] by auto
qed

lemma GetStateFor_spec:
  assumes "deployment_ok st chk" "cache_ok st chk cache" "p = None \<or> (\<exists>q b. p = Some q \<and> st q = Some b)"
  shows "\<exists>cache'. GetStateFor st chk p cache = Inr (deployment_state st chk p, cache') \<and> cache_ok st chk cache'"
proof (cases "BeginTime chk = ALWAYS_ACTIVE \<or> BeginTime chk = NEVER_ACTIVE")
  case True
  then show ?thesis using assms(2) by (auto simp: GetStateFor_def deployment_state_def ALWAYS_ACTIVE_def NEVER_ACTIVE_def)
next
  case normal: False
  note D = deployment_okD [OF assms(1)]
  show ?thesis
  proof (cases p)
    case None
    have "cache None = None \<or> cache None = Some DEFINED" using assms(2) by (cases "cache None") (auto simp: cache_ok_def)
    then show ?thesis using None normal assms(2) cache_ok_None [OF assms(2)]
      by (auto simp: GetStateFor_def deployment_state_def period_parent_def parent_of_def block_fuel_def)
  next
    case (Some tip)
    then obtain t where t: "st tip = Some t" using assms(3) by auto
    let ?p = "parent_of st (Period chk) (Some tip)"
    have a: "(\<exists>b. st q = Some b) \<and> (\<exists>n. nth_prev st n tip = Some q)" if "?p = Some q" for q
      using parent_of_Some [OF D(1,5) t that] by blast
    have "linked st (Period chk) tip ?p []" "block_fuel st ?p \<le> block_fuel st ?p + 1" "0 < block_fuel st ?p"
      by (simp_all add: block_fuel_def split: option.split)
    from walk_back_correct [OF assms(1) t assms(2) a this] obtain p1 cache1 todo where
      w: "walk_back (block_fuel st ?p) st chk (SignalHeight chk (Some tip)) ?p cache [] = Inr (p1, cache1, todo)"
      "cache_ok st chk cache1" "cache1 p1 \<noteq> None" "linked st (Period chk) tip p1 todo" "end_of p1 todo = ?p"
      by (auto simp: end_of_def)
    obtain state start0 where s: "bip9_at st chk p1 = (state, start0)" by (cases "bip9_at st chk p1") auto
    then have c1: "cache1 p1 = Some state" using cache_ok_state [OF w(2), of p1] w(3) by auto
    have "calculateStartHeight st p1 state (Period chk) cache1 = Inr (if state = STARTED then min start0 INT_MAX else INT_MAX)"
      unfolding calculateStartHeight_def
      using start_height_correct [OF assms(1) w(2) c1, of "block_fuel st p1" INT_MAX] s
      by (simp add: block_fuel_def split: option.split)
    moreover have "state = STARTED \<Longrightarrow> min start0 INT_MAX = start0"
    proof -
      assume "state = STARTED"
      then obtain q where q: "p1 = Some q" using s by (cases p1) auto
      then obtain b where "st q = Some b" using c1 w(2) unfolding cache_ok_def by blast
      then show ?thesis using started_bound [OF D(1,5), of q b start0] s q \<open>state = STARTED\<close> D(6) [of q b] by simp
    qed
    ultimately obtain start where start: "calculateStartHeight st p1 state (Period chk) cache1 = Inr start" "state = STARTED \<Longrightarrow> start = start0"
      by auto
    obtain cache2 where f: "walk_forward st chk (SignalHeight chk (Some tip)) todo state start cache1 = Inr (fst (bip9_at st chk ?p), cache2)"
      "cache_ok st chk cache2"
      using walk_forward_correct [OF assms(1) w(2,3,4) s start(2)] w(5) by auto
    have "todo = [] \<Longrightarrow> state = fst (bip9_at st chk ?p)" using w(5) s by (simp add: end_of_def)
    then show ?thesis using Some normal w(1,2) c1 start(1) f parent_of_nth_prev(1) [OF D(1,5) t]
      by (cases "todo = []") (simp_all add: GetStateFor_def deployment_state_def)
  qed
qed

subsection \<open>Along a chain\<close>

lemma mod_succ:
  fixes P :: int
  assumes "P \<ge> 1"
  shows "(n + 1) mod P = (if n mod P = P - 1 then 0 else n mod P + 1)"
proof -
  have "0 \<le> n mod P" "n mod P < P" using assms by simp_all
  moreover have "(n + 1) mod P = (n mod P + 1) mod P" by (simp add: mod_add_left_eq)
  ultimately show ?thesis by (auto simp: mod_pos_pos_trivial)
qed

lemma parent_of_step:
  assumes "wf_tree st" "P \<ge> 1" "st p = Some b" "pprev b = Some r"
  shows "parent_of st P (Some p) = parent_of st P (Some r) \<or>
    parent_of st P (Some p) = Some p \<and> previous_parent st P p = parent_of st P (Some r)"
proof -
  have l: "links_ok st" using assms(1) by (simp add: wf_tree_def)
  obtain c where c: "st r = Some c" "nHeight b = Suc (nHeight c)" using l assms(3,4) by (auto elim: links_okE)
  have pr: "parent_of st P (Some r) = (if parent_height P c < 0 then None else nth_prev st (nat (int (nHeight c) - parent_height P c)) r)"
    and pp: "parent_of st P (Some p) = (if parent_height P b < 0 then None else nth_prev st (nat (int (nHeight b) - parent_height P b)) p)"
    using parent_of_nth_prev(2) [OF assms(1,2)] c(1) assms(3) by auto
  have sk: "nth_prev st (Suc m) p = nth_prev st m r" for m using assms(3,4) by simp
  have hb: "int (nHeight b) = int (nHeight c) + 1" using c(2) by simp
  show ?thesis
  proof (cases "(int (nHeight c) + 1) mod P = P - 1")
    case False
    then have h: "parent_height P b = parent_height P c" using mod_succ [OF assms(2), of "int (nHeight c) + 1"]
      by (simp add: parent_height_def hb)
    have "nat (int (nHeight b) - parent_height P b) = Suc (nat (int (nHeight c) - parent_height P c))"
      using h parent_height_facts(2) [OF assms(2), of c] c(2) by simp
    then show ?thesis using pr pp h sk by simp
  next
    case True
    then have "parent_height P b = int (nHeight b)" using mod_succ [OF assms(2), of "int (nHeight c) + 1"]
      by (simp add: parent_height_def hb)
    then have e: "parent_of st P (Some p) = Some p" using pp by simp
    have h: "parent_height P c = int (nHeight b) - P" using True by (simp add: parent_height_def hb)
    have "previous_parent st P p = (if int (nHeight b) < P then None else nth_prev st (nat P) p)"
      using previous_parent_cases(2) [OF assms(1-3)] by auto
    moreover have "nat P = Suc (nat (int (nHeight c) - parent_height P c))" using h hb assms(2) by simp
    ultimately show ?thesis using e pr h sk by simp
  qed
qed

fun progress :: "ThresholdState \<Rightarrow> nat" where
  "progress DEFINED = 0"
| "progress STARTED = 1"
| "progress LOCKED_IN = 2"
| "progress ACTIVE = 3"
| "progress FAILED = 3"

definition decided :: "ThresholdState \<Rightarrow> bool" where
  "decided s \<longleftrightarrow> s = ACTIVE \<or> s = FAILED"

lemma bip9_step_progress:
  "progress (fst s) \<le> progress (fst (bip9_step chk bg late sig h s)) \<and>
   (decided (fst s) \<longrightarrow> fst (bip9_step chk bg late sig h s) = fst s)"
  by (cases s; cases "fst s") (auto simp: bip9_step_def decided_def)

lemma state_progress:
  assumes "deployment_ok st chk"
  shows "st p' = Some b' \<Longrightarrow> nth_prev st n p' = Some p \<Longrightarrow>
    progress (deployment_state st chk (Some p)) \<le> progress (deployment_state st chk (Some p')) \<and>
    (decided (deployment_state st chk (Some p)) \<longrightarrow> deployment_state st chk (Some p') = deployment_state st chk (Some p))"
proof (induction n arbitrary: p' b')
  case (Suc n)
  note D = deployment_okD [OF assms]
  obtain r where r: "pprev b' = Some r" "nth_prev st n r = Some p" using Suc.prems by (auto split: option.splits)
  obtain c where c: "st r = Some c" using D(2) Suc.prems(1) r(1) by (auto elim: links_okE)
  have "progress (deployment_state st chk (Some r)) \<le> progress (deployment_state st chk (Some p')) \<and>
    (decided (deployment_state st chk (Some r)) \<longrightarrow> deployment_state st chk (Some p') = deployment_state st chk (Some r))"
    using parent_of_step [OF D(1,5) Suc.prems(1) r(1)]
  proof
    assume "parent_of st (Period chk) (Some p') = parent_of st (Period chk) (Some r)"
    then show ?thesis by (simp add: deployment_state_def)
  next
    assume "parent_of st (Period chk) (Some p') = Some p' \<and> previous_parent st (Period chk) p' = parent_of st (Period chk) (Some r)"
    then have p: "parent_of st (Period chk) (Some p') = Some p'" "previous_parent st (Period chk) p' = parent_of st (Period chk) (Some r)" by auto
    then show ?thesis using bip9_step_progress bip9_at_step [OF D(1,5) Suc.prems(1)] by (simp add: deployment_state_def)
  qed
  then show ?case using Suc.IH [OF c r(2)] by auto
qed simp

text \<open>Two periods after a block past start, signal and timeout, the vote is over.\<close>

lemma state_decided:
  assumes "deployment_ok st chk" "BeginTime chk \<noteq> ALWAYS_ACTIVE" "BeginTime chk \<noteq> NEVER_ACTIVE"
    "st q = Some b" "(int (nHeight b) + 1) mod Period chk = 0" "begun st chk q" "median_time st q \<ge> EndTime chk"
    "st p = Some t" "nth_prev st n p = Some q" "int (nHeight t) \<ge> int (nHeight b) + 2 * Period chk"
    "int (nHeight b) + 2 * Period chk + 1 \<ge> MinActivationHeight chk"
  shows "decided (deployment_state st chk (Some p))"
proof -
  note D = deployment_okD [OF assms(1)]
  let ?P = "nat (Period chk)"
  have P: "int ?P = Period chk" using D(5) by simp
  have n: "n + nHeight b = nHeight t"
  proof -
    have "n \<le> nHeight t" by (rule nth_prev_some_le [OF D(2) assms(8,9)])
    then show ?thesis using nth_prev_height [OF D(2) assms(8), of n] assms(4,9) by auto
  qed
  then have nP: "2 * ?P \<le> n" using assms(10) P by linarith
  have below: "\<exists>r c. nth_prev st (n - k) p = Some r \<and> st r = Some c \<and> nHeight c = nHeight b + k" if "k \<le> n" for k
    using nth_prev_height [OF D(2) assms(8), of "n - k"] n that by fastforce
  obtain q1 c1 where q1: "nth_prev st (n - ?P) p = Some q1" "st q1 = Some c1" "nHeight c1 = nHeight b + ?P"
    using below [of ?P] nP by auto
  obtain q2 c2 where q2: "nth_prev st (n - 2 * ?P) p = Some q2" "st q2 = Some c2" "nHeight c2 = nHeight b + 2 * ?P"
    using below [of "2 * ?P"] nP by auto
  have "nth_prev st (n - ?P + ?P) p = nth_prev st ?P q1" "nth_prev st (n - 2 * ?P + ?P) p = nth_prev st ?P q2"
    using q1(1) q2(1) by (simp_all add: nth_prev_add)
  moreover have "n - ?P + ?P = n" "n - 2 * ?P + ?P = n - ?P" using nP by simp_all
  ultimately have up: "nth_prev st ?P q1 = Some q" "nth_prev st ?P q2 = Some q1" using assms(9) q1(1) by simp_all
  have prev: "previous_parent st (Period chk) q1 = Some q" "previous_parent st (Period chk) q2 = Some q1"
    using previous_parent_cases(2) [OF D(1,5) q1(2)] previous_parent_cases(2) [OF D(1,5) q2(2)] up q1(3) q2(3) P
    by (auto split: if_splits)
  have "fst (bip9_at st chk (Some q)) \<noteq> DEFINED"
    unfolding bip9_at_step [OF D(1,5) assms(4)] using assms(6) by (auto simp: bip9_step_def split: prod.splits ThresholdState.splits if_splits)
  moreover have "median_time st q1 \<ge> EndTime chk" using median_time_mono [OF D(2,3) q1(2) up(1)] assms(7) by simp
  ultimately have "fst (bip9_at st chk (Some q1)) \<notin> {DEFINED, STARTED}"
    unfolding bip9_at_step [OF D(1,5) q1(2)] prev by (auto simp: bip9_step_def split: prod.splits ThresholdState.splits if_splits)
  moreover have "int (nHeight c2) + 1 \<ge> MinActivationHeight chk" using assms(11) q2(3) P by simp
  ultimately have d: "decided (fst (bip9_at st chk (Some q2)))"
    unfolding bip9_at_step [OF D(1,5) q2(2)] prev
    by (auto simp: bip9_step_def decided_def split: prod.splits ThresholdState.splits if_splits)
  have "(int (nHeight c2) + 1) mod Period chk = ((int (nHeight b) + 1) + 2 * Period chk) mod Period chk"
    using q2(3) P by (simp add: algebra_simps)
  then have "parent_height (Period chk) c2 = int (nHeight c2)" using assms(5) by (simp add: parent_height_def)
  then have "parent_of st (Period chk) (Some q2) = Some q2" using parent_of_nth_prev(2) [OF D(1,5) q2(2)] by simp
  then have "decided (deployment_state st chk (Some q2))" using d assms(2,3) by (simp add: deployment_state_def)
  then show ?thesis using state_progress [OF assms(1,8) q2(1)] by auto
qed

subsection \<open>Properties\<close>

text \<open>
  C11.  \<^verbatim>\<open>GetStateFor\<close> with its cache, its walk back that stops early and its recomputed start height equals the
  plain recursion over all periods since genesis: on every block index obeying the timestamp rule it trips
  no assertion, dereferences no null pointer, returns the reference state, and leaves a correct cache.  The
  empty cache is correct.
\<close>

theorem GetStateFor_equals_reference:
  assumes "deployment_ok st chk" "cache_ok st chk cache" "p = None \<or> (\<exists>q b. p = Some q \<and> st q = Some b)"
  shows "(\<exists>cache'. GetStateFor st chk p cache = Inr (deployment_state st chk p, cache') \<and> cache_ok st chk cache')
    \<and> cache_ok st chk Map.empty"
  using GetStateFor_spec [OF assms] by (simp add: cache_ok_def)

text \<open>A network of one-block periods, a start at time 5 and a timeout at time 7, for the examples.\<close>

definition demo_deployment :: BIP9Deployment where
  "demo_deployment = BIP9Deployment_default\<lparr>nStartTime := 5, nTimeout := 7, nWindowSize := 1\<rparr>"

definition demo_vote :: ThresholdConditionChecker where
  "demo_vote = VersionBitsConditionChecker (\<lambda>_ _. None) (CMainParams\<lparr>vDeployments := (\<lambda>_. demo_deployment)\<rparr>) DEPLOYMENT_V24"

lemma demo_vote_facts:
  "Period demo_vote = 1" "BeginTime demo_vote = 5" "EndTime demo_vote = 7" "MinActivationHeight demo_vote = 0"
  "SignalHeight demo_vote p = 0"
  by (simp_all add: demo_vote_def VersionBitsConditionChecker_def demo_deployment_def BIP9Deployment_default_def
      vb_Period_def to_int_def vb_SignalHeight_def)

lemma sample_medians:
  "median_time sample_store 0 = 10" "median_time sample_store 1 = 30" "median_time sample_store 2 = 30"
  by code_simp+

lemma demo_deployment_ok: "deployment_ok sample_store demo_vote"
proof -
  have "times_ok sample_store" unfolding times_ok_def
    by (auto dest!: sample_store_cases simp: sample_medians [simplified] GetBlockTime_def)
  moreover have "\<forall>p b. sample_store p = Some b \<longrightarrow> int (nHeight b) + 1 < INT_MAX"
    by (auto dest!: sample_store_cases simp: INT_MAX_def)
  ultimately show ?thesis using wf_tree_sample by (simp add: deployment_ok_def demo_vote_facts signals_ok_def)
qed

theorem GetStateFor_equals_reference_witness:
  "\<exists>cache'. GetStateFor sample_store demo_vote (Some 3) Map.empty = Inr (deployment_state sample_store demo_vote (Some 3), cache')"
  using GetStateFor_equals_reference [OF demo_deployment_ok, of Map.empty "Some 3"] by (auto simp: cache_ok_def)

text \<open>
  C13.  A deployment only moves forward: along any chain its state never returns to an earlier stage, and
  once \<^verbatim>\<open>ACTIVE\<close> or \<^verbatim>\<open>FAILED\<close> it stays so for every descendant, whatever was asked and cached before.
\<close>

theorem deployment_only_progresses:
  assumes "deployment_ok st chk" "cache_ok st chk cache" "st p' = Some b'" "nth_prev st n p' = Some p"
    "GetStateFor st chk (Some p) cache = Inr (s, cache1)"
  shows "\<exists>s' cache2. GetStateFor st chk (Some p') cache1 = Inr (s', cache2) \<and> progress s \<le> progress s'
    \<and> (s = ACTIVE \<or> s = FAILED \<longrightarrow> s' = s)"
proof -
  note D = deployment_okD [OF assms(1)]
  have "n \<le> nHeight b'" by (rule nth_prev_some_le [OF D(2) assms(3,4)])
  then obtain b where "st p = Some b" using nth_prev_height [OF D(2) assms(3), of n] assms(4) by auto
  then have s: "s = deployment_state st chk (Some p)" "cache_ok st chk cache1"
    using GetStateFor_spec [OF assms(1,2), of "Some p"] assms(5) by auto
  obtain cache2 where "GetStateFor st chk (Some p') cache1 = Inr (deployment_state st chk (Some p'), cache2)"
    using GetStateFor_spec [OF assms(1) s(2), of "Some p'"] assms(3) by auto
  then show ?thesis using state_progress [OF assms(1,3,4)] s(1) by (auto simp: decided_def)
qed

theorem deployment_only_progresses_witness:
  "\<exists>s cache1 s' cache2. GetStateFor sample_store demo_vote (Some 1) Map.empty = Inr (s, cache1)
    \<and> GetStateFor sample_store demo_vote (Some 3) cache1 = Inr (s', cache2) \<and> progress s \<le> progress s'"
proof -
  have c: "cache_ok sample_store demo_vote Map.empty" by (simp add: cache_ok_def)
  obtain cache1 where 1: "GetStateFor sample_store demo_vote (Some 1) Map.empty
      = Inr (deployment_state sample_store demo_vote (Some 1), cache1)"
    using GetStateFor_spec [OF demo_deployment_ok c, of "Some 1"] by auto
  have "nth_prev sample_store 2 3 = Some 1" by code_simp
  from deployment_only_progresses [OF demo_deployment_ok c _ this 1] 1 show ?thesis by auto
qed

text \<open>
  C12.  Every vote ends: once a period's last block is past start time, signal height and timeout, the state
  two periods later is final, active or failed, for every block from there on; \<^verbatim>\<open>GetStateFor\<close> says so from any
  correct cache.  The minimum activation height, which may postpone activation, is passed by then.
\<close>

theorem deployment_decided_two_periods_after_timeout:
  assumes "deployment_ok st chk" "cache_ok st chk cache" "BeginTime chk \<noteq> ALWAYS_ACTIVE" "BeginTime chk \<noteq> NEVER_ACTIVE"
    "st q = Some b" "(int (nHeight b) + 1) mod Period chk = 0"
    "median_time st q \<ge> BeginTime chk" "int (nHeight b) \<ge> SignalHeight chk (Some q)" "median_time st q \<ge> EndTime chk"
    "st p = Some t" "nth_prev st n p = Some q" "int (nHeight t) \<ge> int (nHeight b) + 2 * Period chk"
    "int (nHeight b) + 2 * Period chk + 1 \<ge> MinActivationHeight chk"
  shows "\<exists>s cache'. GetStateFor st chk (Some p) cache = Inr (s, cache') \<and> (s = ACTIVE \<or> s = FAILED)"
proof -
  have "begun st chk q" using assms(5,7,8) by (simp add: begun_def)
  from state_decided [OF assms(1,3-6) this assms(9-13)] show ?thesis
    using GetStateFor_spec [OF assms(1,2), of "Some p"] assms(10) by (auto simp: decided_def)
qed

theorem deployment_decided_two_periods_after_timeout_witness:
  "\<exists>s cache'. GetStateFor sample_store demo_vote (Some 3) Map.empty = Inr (s, cache') \<and> (s = ACTIVE \<or> s = FAILED)"
proof -
  have "cache_ok sample_store demo_vote Map.empty" by (simp add: cache_ok_def)
  moreover have "nth_prev sample_store 3 3 = Some 0" by code_simp
  ultimately show ?thesis
    using deployment_decided_two_periods_after_timeout [OF demo_deployment_ok, of Map.empty 0 _ 3 _ 3]
    by (simp add: demo_vote_facts sample_medians ALWAYS_ACTIVE_def NEVER_ACTIVE_def)
qed

lemma to_int_small: "0 \<le> x \<Longrightarrow> x < 2 ^ 31 \<Longrightarrow> to_int x = x"
  by (simp add: to_int_def signed_of_int signed_take_bit_int_eq_self)

text \<open>The required share of signals falls with every failed attempt, but never below the minimum, as long as the square
  of the attempt times the period fits an \<^verbatim>\<open>int\<close>.\<close>

lemma vb_Threshold_falls:
  assumes "d = vDeployments params i" "0 < nThresholdMin d" "nThresholdMin d \<le> nThresholdStart d" "nThresholdStart d < 2 ^ 31"
    "0 < nFalloffCoeff d" "0 < vb_Period params i" "0 \<le> m" "m \<le> n"
    "n * n * vb_Period params i < 2 ^ 31"
  shows "nThresholdMin d \<le> vb_Threshold params i n" "vb_Threshold params i n \<le> vb_Threshold params i m"
    "vb_Threshold params i m \<le> nThresholdStart d"
proof -
  define f where "f k = (k * k * vb_Period params i) div 100 div nFalloffCoeff d" for k :: int
  have mono: "0 \<le> f m" "f m \<le> f n" "0 \<le> f n"
    using assms(5-8) unfolding f_def
    by (auto simp: pos_imp_zdiv_nonneg_iff intro!: zdiv_mono1 mult_mono)
  have t: "vb_Threshold params i k = max (nThresholdMin d) (nThresholdStart d - f k)" if "0 \<le> k" "0 \<le> f k" "k \<le> n" for k
  proof -
    have "k * k \<le> n * n" using that(1,3) by (intro mult_mono) simp_all
    then have b: "k * k * vb_Period params i < 2 ^ 31" using assms(6,9) mult_right_mono [of "k * k" "n * n" "vb_Period params i"] by linarith
    have "k * k \<le> k * k * vb_Period params i" using assms(6) mult_left_mono [of 1 "vb_Period params i" "k * k"] by simp
    then have "to_int (k * k) = k * k" "to_int (k * k * vb_Period params i) = k * k * vb_Period params i"
      using b assms(6) by (simp_all add: to_int_small)
    then have "cdiv (cdiv (to_int (to_int (k * k) * vb_Period params i)) 100) (nFalloffCoeff d) = f k"
      using that(1) assms(5,6) by (simp add: f_def pos_imp_zdiv_nonneg_iff)
    moreover have "to_int (max (nThresholdMin d) (nThresholdStart d - f k)) = max (nThresholdMin d) (nThresholdStart d - f k)"
      using assms(2-4) that(2) unfolding to_int_def by (simp add: signed_of_int signed_take_bit_int_eq_self)
    ultimately show ?thesis using assms(1-3,5) by (simp add: vb_Threshold_def Let_def)
  qed
  show "nThresholdMin d \<le> vb_Threshold params i n" "vb_Threshold params i n \<le> vb_Threshold params i m"
    "vb_Threshold params i m \<le> nThresholdStart d"
    using t [of m] t [of n] mono assms(3,7,8) by auto
qed

end
