(* ===== verification/Standard.thy ===== *)
theory Standard
  imports Interpreter_Correct
begin

text \<open>
  Output templates: \<^verbatim>\<open>script/standard.{h,cpp}\<close> and the size rule of public keys in \<^verbatim>\<open>pubkey.h\<close>.  A destination is
  a sum type; matching a template is a partial function to the parts it extracts.
\<close>

subsection \<open>Public keys\<close>

definition GetLen :: "u8 \<Rightarrow> nat" where
  "GetLen chHeader = (if chHeader = 2 \<or> chHeader = 3 then 33
     else if chHeader = 4 \<or> chHeader = 6 \<or> chHeader = 7 then 65 else 0)"

definition ValidSize :: "bytes \<Rightarrow> bool" where
  "ValidSize vch \<longleftrightarrow> length vch > 0 \<and> GetLen (vch ! 0) = length vch"

subsection \<open>Templates\<close>

datatype TxoutType = NONSTANDARD | PUBKEY | PUBKEYHASH | SCRIPTHASH | MULTISIG | NULL_DATA

datatype CTxDestination = CNoDestination | PKHash bytes | ScriptHash bytes

fun GetTxnOutputType :: "TxoutType \<Rightarrow> string" where
  "GetTxnOutputType NONSTANDARD = ''nonstandard''"
| "GetTxnOutputType PUBKEY = ''pubkey''"
| "GetTxnOutputType PUBKEYHASH = ''pubkeyhash''"
| "GetTxnOutputType SCRIPTHASH = ''scripthash''"
| "GetTxnOutputType MULTISIG = ''multisig''"
| "GetTxnOutputType NULL_DATA = ''nulldata''"

definition MatchPayToPubkey :: "CScript \<Rightarrow> bytes option" where
  "MatchPayToPubkey script =
    (if length script = 65 + 2 \<and> script ! 0 = 65 \<and> last script = OP_CHECKSIG then
       let pubkey = take 65 (drop 1 script) in if ValidSize pubkey then Some pubkey else None
     else if length script = 33 + 2 \<and> script ! 0 = 33 \<and> last script = OP_CHECKSIG then
       let pubkey = take 33 (drop 1 script) in if ValidSize pubkey then Some pubkey else None
     else None)"

definition MatchPayToPubkeyHash :: "CScript \<Rightarrow> bytes option" where
  "MatchPayToPubkeyHash script =
    (if length script = 25 \<and> script ! 0 = OP_DUP \<and> script ! 1 = OP_HASH160 \<and> script ! 2 = 20
        \<and> script ! 23 = OP_EQUALVERIFY \<and> script ! 24 = OP_CHECKSIG
     then Some (take 20 (drop 3 script)) else None)"

definition IsSmallInteger :: "u8 \<Rightarrow> bool" where
  "IsSmallInteger opcode \<longleftrightarrow> opcode \<ge> OP_1 \<and> opcode \<le> OP_16"

definition IsValidMultisigKeyCount :: "int \<Rightarrow> bool" where
  "IsValidMultisigKeyCount n_keys \<longleftrightarrow> n_keys > 0 \<and> n_keys \<le> int MAX_PUBKEYS_PER_MULTISIG"

definition IsPushdataOp :: "u8 \<Rightarrow> bool" where
  "IsPushdataOp opcode \<longleftrightarrow> opcode > OP_FALSE \<and> opcode \<le> OP_PUSHDATA4"

definition GetMultisigKeyCount :: "u8 \<Rightarrow> bytes \<Rightarrow> int option" where
  "GetMultisigKeyCount opcode data =
    (if IsSmallInteger opcode then
       let n = int (DecodeOP_N opcode) in if IsValidMultisigKeyCount n then Some n else None
     else if IsPushdataOp opcode then
       if \<not> CheckMinimalPush data opcode then None
       else case CScriptNum data True nDefaultMaxNumSize of Inl _ \<Rightarrow> None
         | Inr v \<Rightarrow> let n = getint v in if IsValidMultisigKeyCount n then Some n else None
     else None)"

text \<open>
  The loop over the keys returns them with the first instruction that is none and the position after it.  A
  failed \<^verbatim>\<open>GetOp\<close> leaves \<^verbatim>\<open>OP_INVALIDOPCODE\<close> and no data.
\<close>

function match_keys :: "bytes \<Rightarrow> bytes list \<times> u8 \<times> bytes \<times> bytes" where
  "match_keys it = (case GetScriptOp it of
     None \<Rightarrow> ([], OP_INVALIDOPCODE, [], it)
   | Some (opcode, data, it') \<Rightarrow>
       if ValidSize data then (case match_keys it' of (keys, r) \<Rightarrow> (data # keys, r)) else ([], opcode, data, it'))"
  by auto
termination by (relation "measure length") (auto dest: GetScriptOp_shorter)

declare match_keys.simps [simp del]

definition MatchMultisig :: "CScript \<Rightarrow> (int \<times> bytes list) option" where
  "MatchMultisig script =
    (if length script < 1 \<or> last script \<noteq> OP_CHECKMULTISIG then None
     else case GetScriptOp script of None \<Rightarrow> None
     | Some (opcode, data, it) \<Rightarrow>
       (case GetMultisigKeyCount opcode data of None \<Rightarrow> None
        | Some required_sigs \<Rightarrow>
          (case match_keys it of (pubkeys, opcode, data, it) \<Rightarrow>
             (case GetMultisigKeyCount opcode data of None \<Rightarrow> None
              | Some num_keys \<Rightarrow>
                if int (length pubkeys) \<noteq> num_keys \<or> num_keys < required_sigs then None
                else if length it = 1 then Some (required_sigs, pubkeys) else None))))"

definition Solver :: "CScript \<Rightarrow> TxoutType \<times> bytes list" where
  "Solver s =
    (if IsPayToScriptHash s then (SCRIPTHASH, [take 20 (drop 2 s)])
     else if length s \<ge> 1 \<and> s ! 0 = OP_RETURN \<and> IsPushOnly (drop 1 s) then (NULL_DATA, [])
     else case MatchPayToPubkey s of Some data \<Rightarrow> (PUBKEY, [data])
     | None \<Rightarrow> (case MatchPayToPubkeyHash s of Some data \<Rightarrow> (PUBKEYHASH, [data])
       | None \<Rightarrow> (case MatchMultisig s of
           Some (required, keys) \<Rightarrow> (MULTISIG, [[word_of_int required]] @ keys @ [[word_of_nat (length keys)]])
         | None \<Rightarrow> (NONSTANDARD, []))))"

text \<open>A public key of the right size is valid; its address is the hash of its bytes.\<close>

definition ExtractDestination :: "crypto \<Rightarrow> CScript \<Rightarrow> CTxDestination option" where
  "ExtractDestination cr s =
    (case Solver s of (whichType, vSolutions) \<Rightarrow> (case whichType of
       PUBKEY \<Rightarrow> if ValidSize (vSolutions ! 0) then Some (PKHash (hash160 cr (vSolutions ! 0))) else None
     | PUBKEYHASH \<Rightarrow> Some (PKHash (vSolutions ! 0))
     | SCRIPTHASH \<Rightarrow> Some (ScriptHash (vSolutions ! 0))
     | _ \<Rightarrow> None))"

fun GetScriptForDestination :: "CTxDestination \<Rightarrow> CScript" where
  "GetScriptForDestination CNoDestination = []"
| "GetScriptForDestination (PKHash keyID) = [OP_DUP, OP_HASH160] @ push_data keyID @ [OP_EQUALVERIFY, OP_CHECKSIG]"
| "GetScriptForDestination (ScriptHash scriptID) = [OP_HASH160] @ push_data scriptID @ [OP_EQUAL]"

definition GetScriptForRawPubKey :: "bytes \<Rightarrow> CScript" where
  "GetScriptForRawPubKey pubKey = push_data pubKey @ [OP_CHECKSIG]"

definition GetScriptForMultisig :: "int \<Rightarrow> bytes list \<Rightarrow> CScript" where
  "GetScriptForMultisig nRequired keys =
    push_int64 nRequired @ concat (map push_data keys) @ push_int64 (int (length keys)) @ [OP_CHECKMULTISIG]"

definition IsValidDestination :: "CTxDestination \<Rightarrow> bool" where
  "IsValidDestination dest \<longleftrightarrow> dest \<noteq> CNoDestination"

subsection \<open>Running a template\<close>

lemma push_minimal:
  assumes "2 \<le> length b" "length b \<le> 520"
  shows "\<exists>opc. opc \<le> OP_PUSHDATA4 \<and> CheckMinimalPush b opc
    \<and> (\<forall>rest. GetScriptOp (push_data b @ rest) = Some (opc, b, rest))"
proof -
  have l: "length b < 2 ^ 32" using assms by simp
  consider "length b < 76" | "76 \<le> length b" "length b \<le> 0xff" | "0xff < length b" by linarith
  then show ?thesis
  proof cases
    case 1
    then have u: "unat (word_of_nat (length b) :: u8) = length b" by (simp add: unsigned_of_nat take_bit_nat_eq_self)
    show ?thesis using 1 assms u
      by (intro exI [of _ "word_of_nat (length b)"])
        (auto simp: GetScriptOp_push [OF l] CheckMinimalPush_def word_le_nat_alt)
  next
    case 2
    then show ?thesis
      by (intro exI [of _ OP_PUSHDATA1]) (auto simp: GetScriptOp_push [OF l] CheckMinimalPush_def)
  next
    case 3
    then show ?thesis using assms
      by (intro exI [of _ OP_PUSHDATA2]) (auto simp: GetScriptOp_push [OF l] CheckMinimalPush_def)
  qed
qed

lemma step_push:
  assumes "2 \<le> length b" "length b \<le> 520" "cs_all_true (vfExec st)" "length (stack st) + length (altstack st) < 1000"
  shows "eval_loop cr ch flags (push_data b @ rest) st = eval_loop cr ch flags rest (st\<lparr>stack := b # stack st\<rparr>)"
proof -
  obtain opc where o: "opc \<le> OP_PUSHDATA4" "CheckMinimalPush b opc" "GetScriptOp (push_data b @ rest) = Some (opc, b, rest)"
    using push_minimal [OF assms(1,2)] by blast
  have n: "\<not> opc > OP_16" "\<not> is_disabled opc" "opc \<noteq> OP_CODESEPARATOR" using o(1)
    by (auto simp: is_disabled_def word_le_nat_alt word_less_nat_alt)
  have "st\<lparr>nOpCount := nOpCount st\<rparr> = st" by simp
  then have "eval_step cr ch flags opc b rest st = Inr (st\<lparr>stack := b # stack st\<rparr>)"
    using assms o(1,2) n
    by (simp add: eval_step_def max_defs eval_dispatch_def on_stack_def push_value_def check_stack_size_def Let_def)
  then show ?thesis by (simp add: eval_loop_op [OF o(3)])
qed

lemma push_data_size: "length b \<le> 520 \<Longrightarrow> length (push_data b) \<le> length b + 3"
  by (simp add: push_data_def WriteLE16_def)

lemma eval_signature_script:
  assumes "2 \<le> length sg" "length sg \<le> 520" "2 \<le> length k" "length k \<le> 520"
  shows "EvalScript cr ch flags [] (push_data sg @ push_data k) = Inr [k, sg]"
proof -
  have "length (push_data sg @ push_data k) \<le> MAX_SCRIPT_SIZE"
    using push_data_size [OF assms(2)] push_data_size [OF assms(4)] assms by (simp add: MAX_SCRIPT_SIZE_def)
  moreover have "eval_loop cr ch flags (push_data sg @ push_data k) (eval_init [] (push_data sg @ push_data k))
    = Inr (eval_init [k, sg] (push_data sg @ push_data k))"
    using step_push [OF assms(1,2), of "eval_init [] (push_data sg @ push_data k)" cr ch flags "push_data k"]
      step_push [OF assms(3,4), of "eval_init [sg] (push_data sg @ push_data k)" cr ch flags "[]"]
    by (simp add: eval_init_def cs_all_true_def cs_new_def)
  ultimately show ?thesis by (simp add: EvalScript_def eval_init_def cs_empty_def cs_new_def)
qed

lemma cs_empty_new [simp]: "cs_empty cs_new" by (simp add: cs_empty_def cs_new_def)

lemma hash_push: "length h = 20 \<Longrightarrow> push_data h = 20 # h" by (simp add: push_data_def)

text \<open>The comparison with the hash the template names.\<close>

lemma eval_pushed:
  assumes "length h = 20" "length s < 1000"
  shows "eval_loop cr ch flags (20 # h @ rest) \<lparr>stack = s, altstack = [], vfExec = cs_new, pbegincodehash = c, nOpCount = n\<rparr>
    = eval_loop cr ch flags rest \<lparr>stack = h # s, altstack = [], vfExec = cs_new, pbegincodehash = c, nOpCount = n\<rparr>"
  using step_push [of h "\<lparr>stack = s, altstack = [], vfExec = cs_new, pbegincodehash = c, nOpCount = n\<rparr>" cr ch flags rest]
    assms by (simp add: hash_push cs_all_true_def cs_new_def)

lemma eval_p2sh_script:
  assumes "length h = 20" "length s \<le> 998"
  shows "EvalScript cr ch flags (k # s) (GetScriptForDestination (ScriptHash h)) = Inr (vch_bool (hash160 cr k = h) # s)"
proof -
  let ?p = "GetScriptForDestination (ScriptHash h)"
  have 1: "GetScriptOp ?p = Some (OP_HASH160, [], 20 # h @ [OP_EQUAL])" by (simp add: hash_push assms)
  have 2: "eval_step cr ch flags OP_HASH160 [] pc \<lparr>stack = k # s, altstack = [], vfExec = cs_new, pbegincodehash = c, nOpCount = 0\<rparr>
    = Inr \<lparr>stack = hash160 cr k # s, altstack = [], vfExec = cs_new, pbegincodehash = c, nOpCount = 1\<rparr>" for pc c
    using assms by (simp add: eval_defs op_HASH_def)
  have 3: "eval_step cr ch flags OP_EQUAL [] pc \<lparr>stack = h # x # s, altstack = [], vfExec = cs_new, pbegincodehash = c, nOpCount = Suc 0\<rparr>
    = Inr \<lparr>stack = vch_bool (x = h) # s, altstack = [], vfExec = cs_new, pbegincodehash = c, nOpCount = 2\<rparr>" for pc c x
    using assms by (auto simp: eval_defs)
  have e: "GetScriptOp [OP_EQUAL] = Some (OP_EQUAL, [], [])" by simp
  have "length ?p = 23" by (simp add: hash_push assms)
  then show ?thesis using assms
    by (simp add: EvalScript_def eval_init_def eval_loop_op [OF 1] 2 eval_pushed eval_loop_op [OF e] 3
        MAX_SCRIPT_SIZE_def del: GetScriptForDestination.simps)
qed

text \<open>Deleting a pushed signature leaves the template as it is, unless the signature is the hash itself.\<close>

lemma delete_op:
  assumes "GetScriptOp pc = Some (opc, v, pc')" "take (length b) pc \<noteq> b" "pc = a @ pc'" "delete_matches b pc' = (pc', 0)"
  shows "delete_matches b pc = (pc, 0)"
proof -
  have "skip_matches b pc = (pc, 0)" using assms(2) by (subst skip_matches.simps) auto
  then show ?thesis using assms by (subst delete_matches.simps) simp
qed

lemma delete_Nil: "b \<noteq> [] \<Longrightarrow> delete_matches b [] = ([], 0)"
  by (subst delete_matches.simps, subst skip_matches.simps) simp

lemma push_data_hd: "length b \<le> 520 \<Longrightarrow> push_data b = x # y \<Longrightarrow> x \<le> OP_PUSHDATA4"
  by (auto simp: push_data_def word_le_nat_alt unsigned_of_nat take_bit_nat_eq_self split: if_splits)

lemma push_not_op:
  assumes "length b \<le> 520" "opc > OP_PUSHDATA4"
  shows "take (length (push_data b)) (opc # pc) \<noteq> push_data b"
proof
  assume a: "take (length (push_data b)) (opc # pc) = push_data b"
  have "push_data b \<noteq> []" by simp
  then obtain x y where xy: "push_data b = x # y" by (cases "push_data b") auto
  then have "x = opc" using a by simp
  then show False using push_data_hd [OF assms(1) xy] assms(2) by simp
qed

lemma delete_opcode:
  assumes "opc > OP_PUSHDATA4" "length sg \<le> 520" "delete_matches (push_data sg) pc = (pc, 0)"
  shows "delete_matches (push_data sg) (opc # pc) = (opc # pc, 0)"
proof -
  have "\<not> opc \<le> OP_PUSHDATA4" using assms(1) by (simp only: not_le)
  then have "GetScriptOp (opc # pc) = Some (opc, [], pc)" by (simp only: GetScriptOp.simps if_False)
  from delete_op [OF this push_not_op [OF assms(2,1)] _ assms(3), of "[opc]"] show ?thesis by simp
qed

lemma push_not_hash:
  assumes "length b \<le> 520" "length h = 20" "b \<noteq> h"
  shows "take (length (push_data b)) (20 # h @ rest) \<noteq> push_data b"
proof
  assume a: "take (length (push_data b)) (20 # h @ rest) = push_data b"
  show False
  proof (cases "length b < 76")
    case True
    then have u: "unat (word_of_nat (length b) :: u8) = length b" by (simp add: unsigned_of_nat take_bit_nat_eq_self)
    have "word_of_nat (length b) = (20 :: u8)" and b: "take (length b) (h @ rest) = b"
      using a True by (simp_all add: push_data_def)
    then have "length b = 20" using u by simp
    then show False using b assms by simp
  next
    case False
    then show False using a assms(1) by (auto simp: push_data_def split: if_splits)
  qed
qed

lemma p2pkh_keeps_code:
  assumes "length h = 20" "length sg \<le> 520" "sg \<noteq> h"
  shows "FindAndDelete (GetScriptForDestination (PKHash h)) (push_data sg) = (GetScriptForDestination (PKHash h), 0)"
proof -
  let ?b = "push_data sg"
  have b: "?b \<noteq> []" by simp
  note op = delete_opcode [OF _ assms(2)]
  have q: "delete_matches ?b [OP_EQUALVERIFY, OP_CHECKSIG] = ([OP_EQUALVERIFY, OP_CHECKSIG], 0)"
    by (intro op delete_Nil) simp_all
  have g: "GetScriptOp (20 # h @ [OP_EQUALVERIFY, OP_CHECKSIG]) = Some (20, h, [OP_EQUALVERIFY, OP_CHECKSIG])"
    using assms(1) by (simp add: operand_size_def)
  have "delete_matches ?b (20 # h @ [OP_EQUALVERIFY, OP_CHECKSIG]) = (20 # h @ [OP_EQUALVERIFY, OP_CHECKSIG], 0)"
    using delete_op [OF g push_not_hash [OF assms(2,1,3)] _ q, of "20 # h"] by simp
  then have "delete_matches ?b (OP_DUP # OP_HASH160 # 20 # h @ [OP_EQUALVERIFY, OP_CHECKSIG])
    = (OP_DUP # OP_HASH160 # 20 # h @ [OP_EQUALVERIFY, OP_CHECKSIG], 0)"
    by (intro op [OF _ op]) simp_all
  then show ?thesis using b by (simp add: FindAndDelete_def hash_push assms)
qed

lemma vch_bool_inject [simp]: "CastToBool (vch_bool b) = b"
  by (simp add: vch_bool_def)

lemma op_step:
  assumes "GetScriptOp pc = Some (opc, v, pc')" "eval_step cr ch flags opc v pc' st = Inr st'"
  shows "eval_loop cr ch flags pc st = eval_loop cr ch flags pc' st'"
  by (simp add: eval_loop_op [OF assms(1)] assms(2))

lemma sbind_loop_Nil [simp]: "sbind x (eval_loop cr ch flags []) = x"
  by (simp add: sbind_def split: sum.splits)

lemma eval_p2pkh_script:
  assumes "length h = 20"
  shows "EvalScript cr ch flags [k, sg] (GetScriptForDestination (PKHash h)) =
    (if hash160 cr k \<noteq> h then Inl SCRIPT_ERR_EQUALVERIFY
     else op_CHECKSIG cr ch flags OP_CHECKSIG (GetScriptForDestination (PKHash h)) [k, sg])"
proof -
  let ?p = "GetScriptForDestination (PKHash h)"
  let ?st = "\<lambda>s n. \<lparr>stack = s, altstack = [], vfExec = cs_new, pbegincodehash = ?p, nOpCount = n\<rparr>"
  let ?q = "[OP_EQUALVERIFY, OP_CHECKSIG]"
  have g1: "GetScriptOp ?p = Some (OP_DUP, [], OP_HASH160 # 20 # h @ ?q)" by (simp add: hash_push assms)
  have g2: "GetScriptOp (OP_HASH160 # 20 # h @ ?q) = Some (OP_HASH160, [], 20 # h @ ?q)" by simp
  have g4: "GetScriptOp ?q = Some (OP_EQUALVERIFY, [], [OP_CHECKSIG])" by simp
  have g5: "GetScriptOp [OP_CHECKSIG] = Some (OP_CHECKSIG, [], [])" by simp
  have s1: "eval_step cr ch flags OP_DUP [] pc (?st [k, sg] 0) = Inr (?st [k, k, sg] 1)" for pc
    by (simp add: eval_defs)
  have s2: "eval_step cr ch flags OP_HASH160 [] pc (?st [k, k, sg] 1) = Inr (?st [hash160 cr k, k, sg] 2)" for pc
    by (simp add: eval_defs op_HASH_def)
  have s4: "eval_step cr ch flags OP_EQUALVERIFY [] pc (?st [h, x, k, sg] 2)
    = (if x = h then Inr (?st [k, sg] 3) else Inl SCRIPT_ERR_EQUALVERIFY)" for pc x
    by (auto simp: eval_defs)
  have s5: "eval_step cr ch flags OP_CHECKSIG [] pc (?st [k, sg] 3)
    = sbind (op_CHECKSIG cr ch flags OP_CHECKSIG ?p [k, sg]) (\<lambda>s. check_stack_size (?st s 4))" for pc
    by (simp add: eval_step_def max_defs is_disabled_def eval_dispatch_def cs_all_true_def cs_new_def eval_switch_def
        on_stack_def sbind_def split: sum.splits)
  have c: "op_CHECKSIG cr ch flags OP_CHECKSIG ?p [k, sg] = Inr s \<Longrightarrow> length s = 1" for s
    by (auto simp: op_CHECKSIG_def sbind_eq_Inr)
  have l: "eval_loop cr ch flags ?p (?st [k, sg] 0) =
    (if hash160 cr k \<noteq> h then Inl SCRIPT_ERR_EQUALVERIFY
     else sbind (op_CHECKSIG cr ch flags OP_CHECKSIG ?p [k, sg]) (\<lambda>s. check_stack_size (?st s 4)))"
    unfolding op_step [OF g1 s1] op_step [OF g2 s2]
    by (simp add: eval_pushed assms eval_loop_op [OF g4] s4 eval_loop_op [OF g5] s5 del: GetScriptForDestination.simps)
  have "length ?p = 25" by (simp add: hash_push assms)
  then show ?thesis using c
    by (auto simp: EvalScript_def eval_init_def l sbind_def check_stack_size_def max_defs MAX_SCRIPT_SIZE_def
        simp del: GetScriptForDestination.simps split: sum.splits)
qed

lemma op_CHECKSIG_true:
  assumes "FindAndDelete c (push_data sg) = (c, 0)"
  shows "(\<exists>s. op_CHECKSIG cr ch flags OP_CHECKSIG c [k, sg] = Inr s \<and> eval_true s)
    \<longleftrightarrow> check_encodings cr flags sg k = Inr () \<and> CheckSig ch sg k c"
  using assms
  by (auto simp: op_CHECKSIG_def EvalChecksig_def drop_signature_def sbind_eq_Inr eval_true_def Let_def)

lemma op_CHECKSIG_single: "op_CHECKSIG cr ch flags OP_CHECKSIG c [k, sg] = Inr s \<Longrightarrow> length s = 1"
  by (auto simp: op_CHECKSIG_def sbind_eq_Inr)

lemma two_pushes_push_only:
  assumes "2 \<le> length sg" "length sg \<le> 520" "2 \<le> length k" "length k \<le> 520"
  shows "IsPushOnly (push_data sg @ push_data k)"
  using pushes_push_only [of "[sg, k]"] assms by simp

text \<open>
  C32.  A pay-to-public-key-hash output is spent by exactly those who present the key with that hash and a
  signature for it: for a signature script that pushes a signature and a key, \<^verbatim>\<open>VerifyScript\<close> accepts if and only
  if the key hashes to the one in the output, the encodings pass the rules the flags ask for, and the signature
  checker accepts them for the whole output script.  Both pushes have 2 to 520 bytes, so that they are minimal and
  allowed; the signature is not the hash itself, which would be deleted from the script it signs; and a clean stack is
  only asked for together with P2SH, as \<^verbatim>\<open>VerifyScript\<close> asserts.
\<close>

theorem p2pkh_spending_condition:
  assumes "length h = 20" "2 \<le> length sg" "length sg \<le> 520" "2 \<le> length k" "length k \<le> 520" "sg \<noteq> h"
    and "has_flag flags SCRIPT_VERIFY_CLEANSTACK \<Longrightarrow> has_flag flags SCRIPT_VERIFY_P2SH"
  shows "VerifyScript cr ch flags (push_data sg @ push_data k) (GetScriptForDestination (PKHash h)) = Accepted
    \<longleftrightarrow> hash160 cr k = h \<and> check_encodings cr flags sg k = Inr ()
      \<and> CheckSig ch sg k (GetScriptForDestination (PKHash h))"
proof -
  let ?p = "GetScriptForDestination (PKHash h)"
  let ?r = "op_CHECKSIG cr ch flags OP_CHECKSIG ?p [k, sg]"
  have "\<not> IsPayToScriptHash ?p" by (simp add: IsPayToScriptHash_def hash_push assms(1))
  then have "VerifyScript cr ch flags (push_data sg @ push_data k) ?p = Accepted
    \<longleftrightarrow> hash160 cr k = h \<and> (\<exists>s. ?r = Inr s \<and> eval_true s)"
    using assms(7) op_CHECKSIG_single [of cr ch flags ?p k sg]
    by (auto simp: VerifyScript_def two_pushes_push_only [OF assms(2-5)] eval_signature_script [OF assms(2-5)]
        eval_p2pkh_script [OF assms(1)] check_cleanstack_def simp del: GetScriptForDestination.simps split: sum.splits)
  then show ?thesis
    unfolding op_CHECKSIG_true [OF p2pkh_keeps_code [OF assms(1,3,6)]] by blast
qed

theorem p2pkh_spending_condition_witness:
  "VerifyScript demo_crypto demo_checker STANDARD_SCRIPT_VERIFY_FLAGS (push_data [2, 3] @ push_data [2, 3])
     (GetScriptForDestination (PKHash (replicate 20 9))) \<noteq> Accepted
   \<and> VerifyScript demo_crypto demo_checker 0 (push_data [2, 3] @ push_data [2, 3])
     (GetScriptForDestination (PKHash (replicate 20 7))) = Accepted"
proof -
  have f: "has_flag STANDARD_SCRIPT_VERIFY_FLAGS SCRIPT_VERIFY_P2SH"
    by (simp add: standard_flags_value has_flag_def flag_defs)
  have e: "check_encodings demo_crypto 0 [2, 3] [2, 3] = Inr ()"
    by (simp add: check_encodings_def CheckSignatureEncoding_def CheckPubKeyEncoding_def has_flag_def sbind_def)
  have n: "[2, 3] \<noteq> replicate 20 (x :: u8)" for x by (auto dest: arg_cong [where f = length])
  have h: "hash160 demo_crypto x = replicate 20 7" for x by (simp add: hash160_def demo_crypto_def)
  show ?thesis
    using p2pkh_spending_condition [of "replicate 20 9" "[2, 3]" "[2, 3]" STANDARD_SCRIPT_VERIFY_FLAGS demo_crypto demo_checker]
      p2pkh_spending_condition [of "replicate 20 7" "[2, 3]" "[2, 3]" 0 demo_crypto demo_checker] f e n h
    by (simp add: demo_checker_def has_flag_def del: GetScriptForDestination.simps)
qed

text \<open>
  Pay to script hash: once the signature script has left a serialized script on top of the stack, a P2SH output
  accepts if and only if the signature script only pushes, the serialized script hashes to the one in the output, and
  running it on the rest of the stack succeeds with a true result (and nothing else, when a clean stack is asked for).
\<close>

theorem p2sh_spending_condition:
  assumes "length h = 20" "has_flag flags SCRIPT_VERIFY_P2SH" "length s \<le> 998"
    and "EvalScript cr ch flags [] script_sig = Inr (redeem # s)"
  shows "VerifyScript cr ch flags script_sig (GetScriptForDestination (ScriptHash h)) = Accepted
    \<longleftrightarrow> IsPushOnly script_sig \<and> hash160 cr redeem = h
      \<and> (\<exists>r. EvalScript cr ch flags s redeem = Inr r \<and> eval_true r
            \<and> (has_flag flags SCRIPT_VERIFY_CLEANSTACK \<longrightarrow> length r = 1))"
proof -
  let ?p = "GetScriptForDestination (ScriptHash h)"
  have "?p = OP_HASH160 # 20 # h @ [OP_EQUAL]" by (simp add: hash_push assms(1))
  then have "IsPayToScriptHash ?p" using assms(1) by (simp add: IsPayToScriptHash_def nth_append)
  then show ?thesis using assms(2,4)
    by (auto simp: VerifyScript_def verify_p2sh_def eval_p2sh_script [OF assms(1,3)] check_cleanstack_def eval_true_def
        simp del: GetScriptForDestination.simps split: sum.splits)
qed

theorem p2sh_spending_condition_witness:
  "VerifyScript demo_crypto demo_checker SCRIPT_VERIFY_P2SH (push_data [2, 3] @ push_data [OP_DEPTH, OP_NIP])
     (GetScriptForDestination (ScriptHash (replicate 20 7))) = Accepted"
proof -
  let ?f = SCRIPT_VERIFY_P2SH
  have e: "EvalScript demo_crypto demo_checker ?f [] (push_data [2, 3] @ push_data [OP_DEPTH, OP_NIP])
    = Inr ([OP_DEPTH, OP_NIP] # [[2, 3]])" by (rule eval_signature_script) simp_all
  have g: "GetScriptOp [OP_DEPTH, OP_NIP] = Some (OP_DEPTH, [], [OP_NIP])" "GetScriptOp [OP_NIP] = Some (OP_NIP, [], [])"
    by simp_all
  have r: "EvalScript demo_crypto demo_checker ?f [[2, 3]] [OP_DEPTH, OP_NIP] = Inr [[1]]"
    by (simp add: EvalScript_def eval_loop_op [OF g(1)] eval_loop_op [OF g(2)] eval_defs op_DEPTH_def
        MAX_SCRIPT_SIZE_def cs_empty_def)
  have "IsPushOnly (push_data [2, 3] @ push_data [OP_DEPTH, OP_NIP])" by (rule two_pushes_push_only) simp_all
  then show ?thesis
    using p2sh_spending_condition [OF _ _ _ e, of "replicate 20 7"] r
    by (simp add: has_flag_def flag_defs hash160_def demo_crypto_def eval_true_def del: GetScriptForDestination.simps)
qed

subsection \<open>Recognizing a template\<close>

lemma split_last: "length s = Suc n \<Longrightarrow> last s = x \<Longrightarrow> s = take n s @ [x]"
  by (metis append_butlast_last_id butlast_conv_take diff_Suc_1 length_0_conv nat.distinct(1))

lemma split_middle: "s = take a s @ take n (drop a s) @ drop (a + n) s"
  using append_take_drop_id [of a s] append_take_drop_id [of n "drop a s"] by (simp add: add.commute)

lemma take_nth: "2 \<le> length s \<Longrightarrow> take 2 s = [s ! 0, s ! 1]" "3 \<le> length s \<Longrightarrow> take 3 s = [s ! 0, s ! 1, s ! 2]"
  by (auto simp: numeral_2_eq_2 numeral_3_eq_3 Suc_le_length_iff)

lemma P2SH_script: "IsPayToScriptHash s \<longleftrightarrow> (\<exists>h. length h = 20 \<and> s = GetScriptForDestination (ScriptHash h))"
proof
  assume a: "IsPayToScriptHash s"
  then have l: "length s = 23" "s ! 0 = OP_HASH160" "s ! 1 = 20" "s ! 22 = OP_EQUAL"
    by (auto simp: IsPayToScriptHash_def)
  have "s = [s ! 0, s ! 1] @ take 20 (drop 2 s) @ [s ! 22]"
    using split_middle [of s 2 20] Cons_nth_drop_Suc [of 22 s] l(1) by (simp add: take_nth)
  then have "s = GetScriptForDestination (ScriptHash (take 20 (drop 2 s)))" using l by (simp add: hash_push)
  then show "\<exists>h. length h = 20 \<and> s = GetScriptForDestination (ScriptHash h)"
    using l(1) by (intro exI [of _ "take 20 (drop 2 s)"]) simp
next
  assume "\<exists>h. length h = 20 \<and> s = GetScriptForDestination (ScriptHash h)"
  then show "IsPayToScriptHash s" by (auto simp: IsPayToScriptHash_def hash_push nth_append)
qed

lemma MatchPayToPubkeyHash_iff:
  "MatchPayToPubkeyHash s = Some h \<longleftrightarrow> length h = 20 \<and> s = GetScriptForDestination (PKHash h)"
proof
  assume a: "MatchPayToPubkeyHash s = Some h"
  then have l: "length s = 25" "s ! 0 = OP_DUP" "s ! 1 = OP_HASH160" "s ! 2 = 20" "s ! 23 = OP_EQUALVERIFY"
      "s ! 24 = OP_CHECKSIG" and h: "h = take 20 (drop 3 s)"
    by (auto simp: MatchPayToPubkeyHash_def split: if_splits)
  have "s = [s ! 0, s ! 1, s ! 2] @ take 20 (drop 3 s) @ [s ! 23, s ! 24]"
    using split_middle [of s 3 20] Cons_nth_drop_Suc [of 23 s] Cons_nth_drop_Suc [of 24 s] l(1) by (simp add: take_nth)
  then show "length h = 20 \<and> s = GetScriptForDestination (PKHash h)" using l h by (simp add: hash_push)
next
  assume "length h = 20 \<and> s = GetScriptForDestination (PKHash h)"
  then show "MatchPayToPubkeyHash s = Some h" by (auto simp: MatchPayToPubkeyHash_def hash_push nth_append)
qed

lemma ValidSize_length: "ValidSize k \<Longrightarrow> length k = 33 \<or> length k = 65"
  by (auto simp: ValidSize_def GetLen_def split: if_splits)

lemma MatchPayToPubkey_iff: "MatchPayToPubkey s = Some k \<longleftrightarrow> ValidSize k \<and> s = GetScriptForRawPubKey k"
proof
  assume a: "MatchPayToPubkey s = Some k"
  then obtain n where n: "n = 33 \<or> n = (65 :: nat)" "length s = Suc (Suc n)" "s ! 0 = word_of_nat n" "last s = OP_CHECKSIG"
      "ValidSize k" "k = take n (drop 1 s)"
    by (auto simp: MatchPayToPubkey_def Let_def split: if_splits)
  have "s = take (Suc n) s @ [OP_CHECKSIG]" using n(2,4) by (rule split_last)
  moreover have "take (Suc n) s = s ! 0 # take n (drop 1 s)" using n(2) by (cases s) auto
  moreover have "push_data k = word_of_nat n # k" using n by (auto simp: push_data_def)
  ultimately show "ValidSize k \<and> s = GetScriptForRawPubKey k" using n by (simp add: GetScriptForRawPubKey_def)
next
  assume a: "ValidSize k \<and> s = GetScriptForRawPubKey k"
  then show "MatchPayToPubkey s = Some k" using ValidSize_length [of k]
    by (auto simp: MatchPayToPubkey_def GetScriptForRawPubKey_def push_data_def Let_def)
qed

lemma Solver_P2SH: "length h = 20 \<Longrightarrow> Solver (GetScriptForDestination (ScriptHash h)) = (SCRIPTHASH, [h])"
  using P2SH_script [of "GetScriptForDestination (ScriptHash h)"] by (auto simp: Solver_def hash_push)

lemma template_last:
  "IsPayToScriptHash s \<Longrightarrow> last s = OP_EQUAL" "MatchPayToPubkey s = Some k \<Longrightarrow> last s = OP_CHECKSIG"
  "MatchPayToPubkeyHash s = Some h \<Longrightarrow> last s = OP_CHECKSIG"
  by (auto simp: P2SH_script MatchPayToPubkey_iff MatchPayToPubkeyHash_iff GetScriptForRawPubKey_def)

lemma Solver_P2PKH:
  assumes "length h = 20"
  shows "Solver (GetScriptForDestination (PKHash h)) = (PUBKEYHASH, [h])"
proof -
  let ?s = "GetScriptForDestination (PKHash h)"
  have m: "MatchPayToPubkeyHash ?s = Some h" using MatchPayToPubkeyHash_iff [of ?s h] assms by blast
  have "\<not> IsPayToScriptHash ?s" using template_last(1) [of ?s] by auto
  moreover have "length ?s = 25" "?s ! 0 \<noteq> OP_RETURN" by (simp_all add: hash_push assms)
  moreover from this have "MatchPayToPubkey ?s = None" by (simp add: MatchPayToPubkey_def)
  ultimately show ?thesis using m by (simp add: Solver_def del: GetScriptForDestination.simps)
qed

lemma Solver_P2PK:
  assumes "ValidSize k"
  shows "Solver (GetScriptForRawPubKey k) = (PUBKEY, [k])"
proof -
  let ?s = "GetScriptForRawPubKey k"
  have m: "MatchPayToPubkey ?s = Some k" using MatchPayToPubkey_iff [of ?s k] assms by blast
  have "\<not> IsPayToScriptHash ?s" using template_last(1) [of ?s] template_last(2) [OF m] by auto
  moreover have "?s ! 0 \<noteq> OP_RETURN" using ValidSize_length [OF assms] by (auto simp: GetScriptForRawPubKey_def push_data_def)
  ultimately show ?thesis using m by (simp add: Solver_def)
qed

lemma Solver_cases:
  "Solver s = (t, v) \<Longrightarrow>
    (t = SCRIPTHASH \<and> (\<exists>h. length h = 20 \<and> v = [h] \<and> s = GetScriptForDestination (ScriptHash h)))
    \<or> (t = PUBKEYHASH \<and> (\<exists>h. length h = 20 \<and> v = [h] \<and> s = GetScriptForDestination (PKHash h)))
    \<or> (t = PUBKEY \<and> (\<exists>k. ValidSize k \<and> v = [k] \<and> s = GetScriptForRawPubKey k))
    \<or> t = MULTISIG \<or> t = NULL_DATA \<or> t = NONSTANDARD"
proof (cases "IsPayToScriptHash s")
  case True
  then obtain h where "length h = 20" "s = GetScriptForDestination (ScriptHash h)" using P2SH_script by blast
  moreover assume "Solver s = (t, v)"
  ultimately show ?thesis using Solver_P2SH [of h] by auto
next
  case False
  assume "Solver s = (t, v)"
  then show ?thesis using False MatchPayToPubkey_iff [of s] MatchPayToPubkeyHash_iff [of s]
    by (auto simp: Solver_def simp del: GetScriptForDestination.simps split: if_splits option.splits)
qed

text \<open>The templates that name a destination.\<close>

definition pays_to :: "crypto \<Rightarrow> CScript \<Rightarrow> CTxDestination \<Rightarrow> bool" where
  "pays_to cr s d \<longleftrightarrow> (\<exists>h. d = ScriptHash h \<and> length h = 20 \<and> s = GetScriptForDestination d)
     \<or> (\<exists>h. d = PKHash h \<and> length h = 20 \<and> s = GetScriptForDestination d)
     \<or> (\<exists>k. d = PKHash (hash160 cr k) \<and> ValidSize k \<and> s = GetScriptForRawPubKey k)"

lemma ExtractDestination_iff: "ExtractDestination cr s = Some d \<longleftrightarrow> pays_to cr s d"
proof
  assume e: "ExtractDestination cr s = Some d"
  obtain t v where tv: "Solver s = (t, v)" by (cases "Solver s")
  have n: "t \<noteq> MULTISIG" "t \<noteq> NULL_DATA" "t \<noteq> NONSTANDARD" using e tv by (auto simp: ExtractDestination_def)
  show "pays_to cr s d" using Solver_cases [OF tv] n e tv
    by (auto simp: pays_to_def ExtractDestination_def simp del: GetScriptForDestination.simps)
next
  assume "pays_to cr s d"
  then show "ExtractDestination cr s = Some d"
    by (auto simp: pays_to_def ExtractDestination_def Solver_P2SH Solver_P2PKH Solver_P2PK simp del: GetScriptForDestination.simps)
qed

text \<open>
  C40.  Addresses: \<^verbatim>\<open>ExtractDestination\<close> inverts \<^verbatim>\<open>GetScriptForDestination\<close>.  A script yields a script hash exactly if it is
  the template built from that hash, a key hash exactly if it is the template of the hash or pays to a public key of
  valid size that hashes to it, and never the empty destination.
\<close>

theorem ExtractDestination_inverts_templates:
  "(ExtractDestination cr s = Some (ScriptHash h) \<longleftrightarrow> length h = 20 \<and> s = GetScriptForDestination (ScriptHash h))
   \<and> (ExtractDestination cr s = Some (PKHash h) \<longleftrightarrow>
        (length h = 20 \<and> s = GetScriptForDestination (PKHash h))
        \<or> (\<exists>k. ValidSize k \<and> hash160 cr k = h \<and> s = GetScriptForRawPubKey k))
   \<and> ExtractDestination cr s \<noteq> Some CNoDestination"
  unfolding ExtractDestination_iff by (auto simp: pays_to_def simp del: GetScriptForDestination.simps)

lemma small_number_push:
  assumes "1 \<le> n" "n \<le> 20"
  shows "\<exists>opc data. (\<forall>rest. GetScriptOp (push_int64 n @ rest) = Some (opc, data, rest)) \<and> \<not> ValidSize data
    \<and> GetMultisigKeyCount opc data = Some n \<and> push_int64 n ! 0 \<noteq> OP_RETURN"
proof (cases "n \<le> 16")
  case True
  then have "n \<in> set [1..16]" using assms by simp
  then have "unat (word_of_int (n + 80) :: u8) = nat n + 80 \<and> (word_of_int (n + 80) :: u8) > OP_PUSHDATA4
    \<and> IsSmallInteger (word_of_int (n + 80)) \<and> (word_of_int (n + 80) :: u8) \<noteq> OP_RETURN"
    by (auto simp: upto.simps IsSmallInteger_def)
  then show ?thesis using True assms
    by (intro exI [of _ "word_of_int (n + 80)"] exI [of _ "[]"])
      (auto simp: push_int64_def ValidSize_def GetMultisigKeyCount_def DecodeOP_N_def IsValidMultisigKeyCount_def
        MAX_PUBKEYS_PER_MULTISIG_def Let_def simp flip: not_less)
next
  case False
  then have c: "n = 17 \<or> n = 18 \<or> n = 19 \<or> n = 20" using assms by presburger
  have s: "scriptnum_serialize 17 = [17]" "scriptnum_serialize 18 = [18]" "scriptnum_serialize 19 = [19]"
    "scriptnum_serialize 20 = [20]" by code_simp+
  have v: "set_vch [17] = 17" "set_vch [18] = 18" "set_vch [19] = 19" "set_vch [20] = 20" by code_simp+
  have i: "\<not> IsSmallInteger 1" by (simp add: IsSmallInteger_def word_le_nat_alt)
  from c show ?thesis
    by (intro exI [of _ 1] exI [of _ "[word_of_int n]"])
      (elim disjE; simp add: push_int64_def s push_data_def ValidSize_def GetLen_def GetMultisigKeyCount_def i
        IsPushdataOp_def CheckMinimalPush_def CScriptNum_def nDefaultMaxNumSize_def IsMinimallyEncoded_def v getint_def
        IsValidMultisigKeyCount_def MAX_PUBKEYS_PER_MULTISIG_def operand_size_def Let_def)
qed

lemma match_keys_pushes:
  assumes "GetScriptOp rest = Some (opc, data, it)" "\<not> ValidSize data"
  shows "list_all ValidSize keys \<Longrightarrow> match_keys (concat (map push_data keys) @ rest) = (keys, opc, data, it)"
proof (induction keys)
  case Nil
  then show ?case using assms by (simp add: match_keys.simps)
next
  case (Cons k keys)
  then have "length k < 2 ^ 32" using ValidSize_length [of k] by auto
  then obtain o' where "GetScriptOp (push_data k @ concat (map push_data keys) @ rest) = Some (o', k, concat (map push_data keys) @ rest)"
    using GetScriptOp_push by blast
  then show ?case using Cons by (subst match_keys.simps) simp
qed

text \<open>The multi-signature template is recognized with its parts.\<close>

theorem Solver_multisig:
  assumes "1 \<le> m" "m \<le> int (length keys)" "length keys \<le> 20" "list_all ValidSize keys"
  shows "Solver (GetScriptForMultisig m keys) = (MULTISIG, [[word_of_int m]] @ keys @ [[word_of_nat (length keys)]])"
proof -
  let ?s = "GetScriptForMultisig m keys" and ?n = "int (length keys)"
  obtain o1 d1 where 1: "\<And>rest. GetScriptOp (push_int64 m @ rest) = Some (o1, d1, rest)"
      "GetMultisigKeyCount o1 d1 = Some m" "push_int64 m ! 0 \<noteq> OP_RETURN"
    using small_number_push [of m] assms by auto
  obtain o2 d2 where 2: "\<And>rest. GetScriptOp (push_int64 ?n @ rest) = Some (o2, d2, rest)" "\<not> ValidSize d2"
      "GetMultisigKeyCount o2 d2 = Some ?n"
    using small_number_push [of ?n] assms by auto
  have l: "last ?s = OP_CHECKMULTISIG" "?s \<noteq> []" by (simp_all add: GetScriptForMultisig_def)
  have "push_int64 m \<noteq> []" by (simp add: push_int64_def)
  then have r: "?s ! 0 \<noteq> OP_RETURN" using 1(3) by (simp add: GetScriptForMultisig_def nth_append)
  have "MatchMultisig ?s = Some (m, keys)"
    using l 1 2 match_keys_pushes [OF 2(1,2) assms(4), of "[OP_CHECKMULTISIG]"] assms(2)
    by (simp add: MatchMultisig_def GetScriptForMultisig_def)
  moreover have "\<not> IsPayToScriptHash ?s" "MatchPayToPubkey ?s = None" "MatchPayToPubkeyHash ?s = None"
    using template_last [of ?s] l(1) by (cases "MatchPayToPubkey ?s"; cases "MatchPayToPubkeyHash ?s"; auto)+
  ultimately show ?thesis using r by (simp add: Solver_def)
qed

end
