(* ===== verification/Spec2Isabelle.thy ===== *)
theory Spec2Isabelle
  imports Pow Undo Versionbits Standard
begin

text \<open>
  A verification development for Orin, a proof-of-work node of the Bitcoin and Dash family.

  \<^bold>\<open>The program and the theories.\<close>  A node keeps a tree of block headers, decides by proof of work
  which chain to follow, and validates the transactions of each block by running scripts against
  the set of unspent outputs.  The theories follow that layering; each is a model of the source
  files it names (under \<^verbatim>\<open>src/src\<close>) and of nothing else.

  \<^item> \<^verbatim>\<open>Prelude\<close>: word sizes, conversions, truncating division, bit length.
  \<^item> \<^verbatim>\<open>Endian\<close>: fixed-width integers as bytes (\<^verbatim>\<open>crypto/common.h\<close>).
  \<^item> \<^verbatim>\<open>Arith_Uint256\<close>: 256-bit integers on 32-bit limbs (\<^verbatim>\<open>arith_uint256.{h,cpp}\<close>); the locale
    \<^verbatim>\<open>bounded_uint\<close> is what the retargeting rules rely on.
  \<^item> \<^verbatim>\<open>Strencodings\<close>, \<^verbatim>\<open>Uint256_Hex\<close>: text encodings of bytes, numbers and hashes
    (\<^verbatim>\<open>util/strencodings.{h,cpp}\<close>, \<^verbatim>\<open>uint256.{h,cpp}\<close>).
  \<^item> \<^verbatim>\<open>Chain_Index\<close>: the block tree and the active chain (\<^verbatim>\<open>chain.{h,cpp}\<close>), as a store from addresses
    to entries; a dangling or missing pointer is an error value.
  \<^item> \<^verbatim>\<open>Consensus_Params\<close>, \<^verbatim>\<open>Pow\<close>: network parameters and the difficulty rules (\<^verbatim>\<open>chainparams.cpp\<close>,
    \<^verbatim>\<open>pow.cpp\<close>).
  \<^item> \<^verbatim>\<open>Money\<close>: amounts as text, fee rates, the subsidy schedule (\<^verbatim>\<open>util/moneystr.cpp\<close>,
    \<^verbatim>\<open>policy/feerate.cpp\<close>, parts of \<^verbatim>\<open>validation.cpp\<close>).
  \<^item> \<^verbatim>\<open>Versionbits\<close>: soft-fork deployments (\<^verbatim>\<open>versionbits.{h,cpp}\<close>, \<^verbatim>\<open>deploymentstatus.h\<close>): the threshold state
    machine over the block tree with its cache as a map that every call returns updated.
  \<^item> \<^verbatim>\<open>Serialize\<close>: the wire format of integers, sizes, vectors and bit sets (\<^verbatim>\<open>serialize.h\<close>); the locale
    \<^verbatim>\<open>codec\<close> is the contract of a writer and its reader, \<^verbatim>\<open>canonical_codec\<close> adds that no other bytes
    are accepted.
  \<^item> \<^verbatim>\<open>Transaction\<close>: transactions, their wire format and the context-free checks
    (\<^verbatim>\<open>primitives/transaction.{h,cpp}\<close>, \<^verbatim>\<open>consensus/tx_check.cpp\<close>).
  \<^item> \<^verbatim>\<open>Script\<close>: the script language, its numbers and sig-op counts (\<^verbatim>\<open>script/script.{h,cpp}\<close>).
  \<^item> \<^verbatim>\<open>Interpreter\<close>: \<^verbatim>\<open>EvalScript\<close> and \<^verbatim>\<open>VerifyScript\<close> (\<^verbatim>\<open>script/interpreter.{h,cpp}\<close>), one definition per opcode
    group over a record of the two stacks, the condition stack, the code position and the operation count; the
    locale \<^verbatim>\<open>condition_stack\<close> is what the conditionals need of their stack.
    \<^verbatim>\<open>Interpreter_Correct\<close> has its theorems and the flag sets of \<^verbatim>\<open>policy/policy.h\<close> and \<^verbatim>\<open>GetBlockScriptFlags\<close>; the
    locale \<^verbatim>\<open>flag_order\<close> is what a smaller set of flags gives.
  \<^item> \<^verbatim>\<open>Sighash\<close>: the signature hash and the transaction-bound checker (\<^verbatim>\<open>script/interpreter.cpp\<close>), with the
    reference of \<^verbatim>\<open>test/sighash_tests.cpp\<close>.
  \<^item> \<^verbatim>\<open>Standard\<close>: output templates and destinations (\<^verbatim>\<open>script/standard.{h,cpp}\<close>) and the size rule of \<^verbatim>\<open>pubkey.h\<close>.
  \<^item> \<^verbatim>\<open>Compressor\<close>: the compressed coin format (\<^verbatim>\<open>compressor.{h,cpp}\<close>).
  \<^item> \<^verbatim>\<open>Coins\<close>: the cache of unspent outputs (\<^verbatim>\<open>coins.{h,cpp}\<close>), an association list of entries over a base
    view; the locale \<^verbatim>\<open>coins_backend\<close> is what a flush needs of the view below, and a cache is one.
  \<^item> \<^verbatim>\<open>Tx_Verify\<close>: lock times, signature-operation counts, input values (\<^verbatim>\<open>consensus/tx_verify.cpp\<close>) and the fee and
    amount of asset unlocks (\<^verbatim>\<open>evo/assetlocktx.{h,cpp}\<close>, \<^verbatim>\<open>evo/creditpool.cpp\<close>).
  \<^item> \<^verbatim>\<open>Undo\<close>: undo data and its format (\<^verbatim>\<open>undo.h\<close>), and the coins part of connecting and disconnecting a block
    (\<^verbatim>\<open>UpdateCoins\<close>, \<^verbatim>\<open>ApplyTxInUndo\<close>, \<^verbatim>\<open>DisconnectBlock\<close> in \<^verbatim>\<open>validation.cpp\<close>).

  \<^bold>\<open>What is shown.\<close>  Each theory ends with its properties.

  \<^item> Coins: a cache is a map of unspent outputs as long as its callers keep the contract of \<^verbatim>\<open>AddCoin\<close>, a flush moves
    it unchanged to the view below, connecting a block keeps every coin well formed, disconnecting it with
    its stored undo data restores the coins exactly, and an accepted transaction conserves value, asset unlocks
    accounted for.
  \<^item> Scripts: resource limits in every reachable state, verification flags as soft forks, relayed scripts valid in
    blocks, the exact result of \<^verbatim>\<open>CHECKMULTISIG\<close>, the condition stack as a stack of booleans, the streaming
    signature hash equal to its reference, the exact spending conditions of pay-to-public-key-hash and
    pay-to-script-hash outputs, and addresses as inverses of their templates.
  \<^item> Time: absolute and relative locks hold when the opcodes and the transaction checks pass together; a deployment's
    cached state equals the plain recursion, only progresses, and is decided after its timeout.
  \<^item> Chain and work: division, the compact form, skip-list search, forks and common ancestors, the proof-of-work
    check and the bounds of every retargeting rule.
  \<^item> Formats: round trips and canonicity of the wire format, coins, script numbers, amounts and text.
  \<^item> Faults of the code, proved as they are: an out-of-bounds write in the bit-set reader, the lost type of a
    transaction of negative version, and the memory accounting of a refused \<^verbatim>\<open>AddCoin\<close>.

  \<^bold>\<open>Conventions.\<close>  Unsigned integers are words of their width, so wrap-around is the code's; signed
  integers are \<^typ>\<open>int\<close> and the theorems state the range in which the code's arithmetic stays.  A
  thrown exception, a failed assertion or undefined behaviour is a value of an error type.  Loops
  are recursive functions with a termination proof, mostly on the bytes or entries left.  Where the source follows
  pointers through the block store the function has fuel: the height of the block plus a constant, or the number of
  blocks still to visit.  The theorems on the block index, on retargeting and on \<^verbatim>\<open>GetStateFor\<close> show that on a
  well-formed tree it is enough.  The statistics functions of the deployments, which have no theorem here, use the
  same bound.

  \<^bold>\<open>Parameters.\<close>  Hash functions, elliptic-curve checks, key decompression, the memory usage of a coin, the reader
  of a BLS signature, the table of EHF signals, floating-point comparisons of the gravity well, and the answers of the
  evolution database and the undo file are arguments.  Named predicates (\<^verbatim>\<open>crypto_ok\<close>, \<^verbatim>\<open>pubkeys_ok\<close> and the like) say
  what is assumed of them, and the witnesses instantiate them.

  \<^bold>\<open>Not modelled.\<close>  Networking, threads, disk storage, the wallet and the user interfaces are input and output or
  operating-system services.  The quorum, masternode, governance and credit-pool protocols rest on BLS
  signatures and databases.  The memory pool, fee estimation and block assembly rest on multi-index containers.  Of
  \<^verbatim>\<open>validation.cpp\<close>, the chain-state manager, the script and special-transaction checks of \<^verbatim>\<open>ConnectBlock\<close> and the
  optional address, spent and timestamp indexes are left out.  The cryptographic primitives are parameters.
\<close>

end
